theory Spec2Isabelle
  imports Main
begin

section \<open>The deque of libcstl (cstl\_deque.c): data model\<close>

text \<open>
  The deque is a directory (``map'') of pointers to element blocks of
  \<open>_DEQUE_ELEM_COUNT = 16\<close> elements each.  The model keeps the two levels apart:
  blocks live in a heap indexed by block address, the directory is a list of
  block pointers (\<open>None\<close> is \<open>NULL\<close>), and an iterator caches the pointer of the
  block it stands in, as the C structure does.

  Conventions of the embedding.
  \<^item> Lengths and offsets are counted in elements, not in bytes: the element size
    \<open>_t_typesize\<close> is a common factor of every pointer difference of the source and
    is divided out.  \<open>size_t\<close> and \<open>int\<close> values are unbounded integers; the
    directory and the sizes are assumed to stay far below \<open>2^31\<close>.
  \<^item> \<open>_pc_afterlast\<close> of an iterator is always assigned \<open>_pc_first + 16\<close> by the
    source, so it is not stored; \<open>_pc_corepos\<close> is stored as the element offset from
    \<open>_pc_first\<close>.  Offset 16 is the position ``after last''.
  \<^item> A memory access outside the directory or outside a block, and a loop that can
    no longer reach its exit test, are values of type \<open>error\<close>.
  \<^item> The assertions on the arguments of an operation (same element type, count in
    range, non-empty deque, iterator order) are kept as the error \<open>AssertFail\<close>.  The
    assertions that call the self check \<open>_deque_iterator_belong_to_deque\<close> are left out
    of every operation and of the iterator functions: where a build with assertions
    stops at this check, the model goes on as the build without assertions does.
  \<^item> The element operations are the callbacks of the type descriptor: \<open>init\<close> stores
    the default value of the type, \<open>copy\<close> makes the target cell a duplicate of the
    source cell, \<open>destroy\<close> leaves a dead cell.  Every call is recorded in an event
    log, as are block allocations and deallocations.
\<close>

abbreviation DEQUE_MAP_COUNT :: int where "DEQUE_MAP_COUNT \<equiv> 16"
abbreviation DEQUE_MAP_GROW_STEP :: int where "DEQUE_MAP_GROW_STEP \<equiv> 8"
abbreviation DEQUE_ELEM_COUNT :: int where "DEQUE_ELEM_COUNT \<equiv> 16"

datatype error = AssertFail | MapOutOfBounds | BadPointer | UninitRead | Diverges

datatype 'a cell = Raw | Live 'a

type_synonym ptr = "nat option \<times> int"

datatype event =
    EvInit ptr
  | EvCopy ptr ptr
  | EvStore ptr
  | EvDestroy ptr
  | EvAlloc nat
  | EvFree "nat option"

datatype type_style = TYPE_INVALID | TYPE_C_BUILTIN | TYPE_USER_DEFINE | TYPE_CSTL_BUILTIN

record iter =
  ppc_mappos :: int
  pc_first :: "nat option"
  pc_corepos :: int

record 'a deque =
  heap :: "nat \<Rightarrow> 'a cell list"
  next_addr :: nat
  ppc_map :: "nat option list"
  t_mapsize :: int
  t_start :: iter
  t_finish :: iter
  sz_typename :: string
  pt_type :: nat
  t_style :: type_style
  t_typeinit :: 'a
  t_typeless :: "'a \<Rightarrow> 'a \<Rightarrow> bool"
  evlog :: "event list"

text \<open>The linear position of an iterator: 16 times its directory slot plus its offset.\<close>

definition gpos :: "iter \<Rightarrow> int" where
  "gpos it = ppc_mappos it * DEQUE_ELEM_COUNT + pc_corepos it"

subsection \<open>Memory\<close>

definition read_slot :: "'a deque \<Rightarrow> int \<Rightarrow> error + nat option" where
  "read_slot d i =
     (if 0 \<le> i \<and> i < int (length (ppc_map d)) then Inr (ppc_map d ! nat i)
      else Inl MapOutOfBounds)"

definition write_slot :: "'a deque \<Rightarrow> int \<Rightarrow> nat option \<Rightarrow> error + 'a deque" where
  "write_slot d i v =
     (if 0 \<le> i \<and> i < int (length (ppc_map d))
      then Inr (d\<lparr>ppc_map := (ppc_map d)[nat i := v]\<rparr>)
      else Inl MapOutOfBounds)"

definition read_cell :: "'a deque \<Rightarrow> ptr \<Rightarrow> error + 'a cell" where
  "read_cell d p =
     (case fst p of
        None \<Rightarrow> Inl BadPointer
      | Some a \<Rightarrow>
          if 0 \<le> snd p \<and> snd p < int (length (heap d a)) then Inr (heap d a ! nat (snd p))
          else Inl BadPointer)"

definition write_cell :: "'a deque \<Rightarrow> ptr \<Rightarrow> 'a cell \<Rightarrow> error + 'a deque" where
  "write_cell d p c =
     (case fst p of
        None \<Rightarrow> Inl BadPointer
      | Some a \<Rightarrow>
          if 0 \<le> snd p \<and> snd p < int (length (heap d a))
          then Inr (d\<lparr>heap := (heap d)(a := (heap d a)[nat (snd p) := c])\<rparr>)
          else Inl BadPointer)"

text \<open>\<open>allocate(&_t_allocater, typesize, _DEQUE_ELEM_COUNT)\<close>: a fresh block of 16 raw cells.\<close>

definition allocate_block :: "'a deque \<Rightarrow> 'a deque \<times> nat" where
  "allocate_block d =
     (d\<lparr>heap := (heap d)(next_addr d := replicate (nat DEQUE_ELEM_COUNT) Raw),
        next_addr := Suc (next_addr d),
        evlog := evlog d @ [EvAlloc (next_addr d)]\<rparr>, next_addr d)"

text \<open>\<open>deallocate\<close> of a block: its cells are gone.\<close>

definition deallocate_block :: "'a deque \<Rightarrow> nat option \<Rightarrow> 'a deque" where
  "deallocate_block d p =
     (case p of
        None \<Rightarrow> d\<lparr>evlog := evlog d @ [EvFree None]\<rparr>
      | Some a \<Rightarrow> d\<lparr>heap := (heap d)(a := []), evlog := evlog d @ [EvFree (Some a)]\<rparr>)"

text \<open>\<open>memcpy\<close> and \<open>memmove\<close> of \<open>n\<close> directory slots.\<close>

definition copy_slots ::
  "nat option list \<Rightarrow> int \<Rightarrow> nat option list \<Rightarrow> int \<Rightarrow> int \<Rightarrow> error + nat option list" where
  "copy_slots dst doff src soff n =
     (if 0 \<le> n \<and> 0 \<le> soff \<and> soff + n \<le> int (length src) \<and>
         0 \<le> doff \<and> doff + n \<le> int (length dst)
      then Inr (take (nat doff) dst @ take (nat n) (drop (nat soff) src) @
                drop (nat (doff + n)) dst)
      else Inl MapOutOfBounds)"

subsection \<open>Iterators\<close>

definition create_deque_iterator :: iter where
  "create_deque_iterator = \<lparr>ppc_mappos = 0, pc_first = None, pc_corepos = 0\<rparr>"

definition deque_iterator_equal :: "iter \<Rightarrow> iter \<Rightarrow> bool" where
  "deque_iterator_equal t_iterfirst t_itersecond =
     (if ppc_mappos t_iterfirst = ppc_mappos t_itersecond \<and>
         pc_first t_iterfirst = pc_first t_itersecond \<and>
         pc_corepos t_iterfirst = pc_corepos t_itersecond
      then True
      else if ppc_mappos t_iterfirst < ppc_mappos t_itersecond
      then ppc_mappos t_iterfirst + 1 = ppc_mappos t_itersecond \<and>
           pc_corepos t_iterfirst = DEQUE_ELEM_COUNT \<and> pc_corepos t_itersecond = 0
      else ppc_mappos t_itersecond + 1 = ppc_mappos t_iterfirst \<and>
           pc_corepos t_itersecond = DEQUE_ELEM_COUNT \<and> pc_corepos t_iterfirst = 0)"

definition deque_iterator_next :: "'a deque \<Rightarrow> iter \<Rightarrow> error + iter" where
  "deque_iterator_next d t_iter =
     (let c = pc_corepos t_iter + 1 in
      if c \<ge> DEQUE_ELEM_COUNT then
        (let t_beyondsize = c - DEQUE_ELEM_COUNT in
         if ppc_mappos t_iter < ppc_mappos (t_finish d) then
           (case read_slot d (ppc_mappos t_iter + 1) of
              Inl e \<Rightarrow> Inl e
            | Inr f \<Rightarrow> Inr \<lparr>ppc_mappos = ppc_mappos t_iter + 1, pc_first = f,
                           pc_corepos = t_beyondsize\<rparr>)
         else Inr (t_iter\<lparr>pc_corepos := c\<rparr>))
      else Inr (t_iter\<lparr>pc_corepos := c\<rparr>))"

definition deque_iterator_prev :: "'a deque \<Rightarrow> iter \<Rightarrow> error + iter" where
  "deque_iterator_prev d t_iter =
     (let c = pc_corepos t_iter - 1 in
      if c < 0 then
        (if ppc_mappos t_iter > ppc_mappos (t_start d) then
           (case read_slot d (ppc_mappos t_iter - 1) of
              Inl e \<Rightarrow> Inl e
            | Inr f \<Rightarrow> Inr \<lparr>ppc_mappos = ppc_mappos t_iter - 1, pc_first = f,
                           pc_corepos = DEQUE_ELEM_COUNT - 1\<rparr>)
         else Inr (t_iter\<lparr>pc_corepos := c\<rparr>))
      else Inr (t_iter\<lparr>pc_corepos := c\<rparr>))"

fun iter_next_times :: "'a deque \<Rightarrow> nat \<Rightarrow> iter \<Rightarrow> error + iter" where
  "iter_next_times d 0 t_iter = Inr t_iter"
| "iter_next_times d (Suc n) t_iter =
     (case deque_iterator_next d t_iter of
        Inl e \<Rightarrow> Inl e
      | Inr t \<Rightarrow> iter_next_times d n t)"

fun iter_prev_times :: "'a deque \<Rightarrow> nat \<Rightarrow> iter \<Rightarrow> error + iter" where
  "iter_prev_times d 0 t_iter = Inr t_iter"
| "iter_prev_times d (Suc n) t_iter =
     (case deque_iterator_prev d t_iter of
        Inl e \<Rightarrow> Inl e
      | Inr t \<Rightarrow> iter_prev_times d n t)"

definition deque_iterator_next_n :: "'a deque \<Rightarrow> iter \<Rightarrow> int \<Rightarrow> error + iter" where
  "deque_iterator_next_n d t_iter n_step =
     (if n_step \<ge> 0 then iter_next_times d (nat n_step) t_iter
      else iter_prev_times d (nat (- n_step)) t_iter)"

definition deque_iterator_prev_n :: "'a deque \<Rightarrow> iter \<Rightarrow> int \<Rightarrow> error + iter" where
  "deque_iterator_prev_n d t_iter n_step = deque_iterator_next_n d t_iter (- n_step)"

lemma deque_iterator_next_gpos:
  "deque_iterator_next d t = Inr t' \<Longrightarrow> gpos t' = gpos t + 1"
  by (auto simp: deque_iterator_next_def gpos_def Let_def split: if_splits sum.splits)

lemma deque_iterator_prev_gpos:
  "deque_iterator_prev d t = Inr t' \<Longrightarrow> 0 \<le> pc_corepos t \<Longrightarrow> gpos t' = gpos t - 1"
  by (auto simp: deque_iterator_prev_def gpos_def Let_def split: if_splits sum.splits)

text \<open>
  \<open>_deque_iterator_less\<close>: walk from the first iterator to \<open>_t_finish\<close> and look for
  the second one.  The walk advances the linear position by one in each step and
  both exit tests need equal linear positions, so once the walk has passed both
  \<open>_t_finish\<close> and the second iterator it cannot stop any more: \<open>Diverges\<close>.
\<close>

function less_walk :: "'a deque \<Rightarrow> iter \<Rightarrow> iter \<Rightarrow> error + bool" where
  "less_walk d t_i t_itersecond =
     (if deque_iterator_equal t_i (t_finish d)
      then Inr (deque_iterator_equal t_itersecond (t_finish d))
      else if deque_iterator_equal t_i t_itersecond then Inr True
      else if gpos (t_finish d) \<le> gpos t_i \<and> gpos t_itersecond \<le> gpos t_i
      then Inl Diverges
      else (case deque_iterator_next d t_i of
              Inl e \<Rightarrow> Inl e
            | Inr t \<Rightarrow> less_walk d t t_itersecond))"
  by pat_completeness auto
termination
  by (relation "measure (\<lambda>(d, t, s). nat (max (gpos (t_finish d)) (gpos s) - gpos t))")
     (auto dest: deque_iterator_next_gpos)

declare less_walk.simps [simp del]

definition deque_iterator_less :: "'a deque \<Rightarrow> iter \<Rightarrow> iter \<Rightarrow> error + bool" where
  "deque_iterator_less d t_iterfirst t_itersecond =
     (if deque_iterator_equal t_iterfirst t_itersecond then Inr False
      else less_walk d t_iterfirst t_itersecond)"

definition deque_iterator_before :: "'a deque \<Rightarrow> iter \<Rightarrow> iter \<Rightarrow> error + bool" where
  "deque_iterator_before d t_iterfirst t_itersecond =
     deque_iterator_less d t_iterfirst t_itersecond"

definition deque_iterator_minus :: "'a deque \<Rightarrow> iter \<Rightarrow> iter \<Rightarrow> error + int" where
  "deque_iterator_minus d t_iterfirst t_itersecond =
     (case deque_iterator_before d t_iterfirst t_itersecond of
        Inl e \<Rightarrow> Inl e
      | Inr True \<Rightarrow>
          (let t_mapnodesize = ppc_mappos t_itersecond - ppc_mappos t_iterfirst - 1;
               t_beginsize = DEQUE_ELEM_COUNT - pc_corepos t_iterfirst;
               t_middlesize = t_mapnodesize * DEQUE_ELEM_COUNT;
               t_endsize = pc_corepos t_itersecond
           in Inr (- (t_beginsize + t_middlesize + t_endsize)))
      | Inr False \<Rightarrow>
          if deque_iterator_equal t_iterfirst t_itersecond then Inr 0
          else
            (let t_mapnodesize = ppc_mappos t_iterfirst - ppc_mappos t_itersecond - 1;
                 t_beginsize = DEQUE_ELEM_COUNT - pc_corepos t_itersecond;
                 t_middlesize = t_mapnodesize * DEQUE_ELEM_COUNT;
                 t_endsize = pc_corepos t_iterfirst
             in Inr (t_beginsize + t_middlesize + t_endsize)))"

text \<open>
  Modelled from the spec: \<open>iterator_distance\<close> is the generic dispatcher of
  cstl\_iterator.c, which is not among the sources.  The spec defines the logical
  size as \<open>distance(start, end)\<close>; for deque iterators the distance from the first
  to the second iterator is \<open>_deque_iterator_minus(second, first)\<close>.  The other
  dispatchers (\<open>iterator_next\<close>, \<open>iterator_prev\<close>, \<open>iterator_equal\<close>,
  \<open>iterator_less\<close>, \<open>iterator_next_n\<close>, \<open>iterator_prev_n\<close>) are the functions of the
  same name with the \<open>_deque_\<close> prefix.
\<close>

definition iterator_distance :: "'a deque \<Rightarrow> iter \<Rightarrow> iter \<Rightarrow> error + int" where
  "iterator_distance d t_first t_second = deque_iterator_minus d t_second t_first"

definition deque_begin :: "'a deque \<Rightarrow> iter" where
  "deque_begin d = t_start d"

definition deque_end :: "'a deque \<Rightarrow> iter" where
  "deque_end d = t_finish d"

definition deque_size :: "'a deque \<Rightarrow> error + int" where
  "deque_size d = iterator_distance d (t_start d) (t_finish d)"

definition deque_empty :: "'a deque \<Rightarrow> bool" where
  "deque_empty d = deque_iterator_equal (t_start d) (t_finish d)"

definition deque_iterator_get_pointer_auxiliary :: "'a deque \<Rightarrow> iter \<Rightarrow> error + ptr" where
  "deque_iterator_get_pointer_auxiliary d t_iter =
     (if deque_iterator_equal t_iter (deque_end d) then Inl AssertFail
      else if pc_corepos t_iter \<noteq> DEQUE_ELEM_COUNT
      then (if pc_first t_iter = None \<and> pc_corepos t_iter = 0 then Inl AssertFail
            else Inr (pc_first t_iter, pc_corepos t_iter))
      else (case read_slot d (ppc_mappos t_iter + 1) of
              Inl e \<Rightarrow> Inl e
            | Inr None \<Rightarrow> Inl AssertFail
            | Inr (Some a) \<Rightarrow> Inr (Some a, 0)))"


subsection \<open>Element operations of the type descriptor\<close>

definition init_elem :: "'a deque \<Rightarrow> ptr \<Rightarrow> error + 'a deque" where
  "init_elem d p =
     (case write_cell d p (Live (t_typeinit d)) of
        Inl e \<Rightarrow> Inl e
      | Inr d' \<Rightarrow> Inr (d'\<lparr>evlog := evlog d' @ [EvInit p]\<rparr>))"

definition copy_elem :: "'a deque \<Rightarrow> ptr \<Rightarrow> ptr \<Rightarrow> error + 'a deque" where
  "copy_elem d dst src =
     (case read_cell d src of
        Inl e \<Rightarrow> Inl e
      | Inr c \<Rightarrow>
          (case write_cell d dst c of
             Inl e \<Rightarrow> Inl e
           | Inr d' \<Rightarrow> Inr (d'\<lparr>evlog := evlog d' @ [EvCopy dst src]\<rparr>)))"

text \<open>Copy of the argument value \<open>pv_varg\<close> into a cell.\<close>

definition store_elem :: "'a deque \<Rightarrow> ptr \<Rightarrow> 'a \<Rightarrow> error + 'a deque" where
  "store_elem d dst v =
     (case write_cell d dst (Live v) of
        Inl e \<Rightarrow> Inl e
      | Inr d' \<Rightarrow> Inr (d'\<lparr>evlog := evlog d' @ [EvStore dst]\<rparr>))"

definition destroy_elem :: "'a deque \<Rightarrow> ptr \<Rightarrow> error + 'a deque" where
  "destroy_elem d p =
     (case write_cell d p Raw of
        Inl e \<Rightarrow> Inl e
      | Inr d' \<Rightarrow> Inr (d'\<lparr>evlog := evlog d' @ [EvDestroy p]\<rparr>))"

text \<open>Reading an element for a comparison needs a constructed element.\<close>

definition read_value :: "'a deque \<Rightarrow> ptr \<Rightarrow> error + 'a" where
  "read_value d p =
     (case read_cell d p of
        Inl e \<Rightarrow> Inl e
      | Inr Raw \<Rightarrow> Inl UninitRead
      | Inr (Live v) \<Rightarrow> Inr v)"

subsection \<open>The loop over a range of iterators\<close>

text \<open>
  \<open>for(t_iter = t_begin; !iterator_equal(t_iter, t_end); t_iter = iterator_next(t_iter)) body\<close>.
  Each step advances the linear position by one and the exit test needs equal linear
  positions: a walk that is at or behind \<open>t_end\<close> without being equal to it never ends.
\<close>

function for_range ::
  "(iter \<Rightarrow> 'a deque \<Rightarrow> error + 'a deque) \<Rightarrow> iter \<Rightarrow> iter \<Rightarrow> 'a deque \<Rightarrow> error + 'a deque" where
  "for_range body t_iter t_end d =
     (if deque_iterator_equal t_iter t_end then Inr d
      else if gpos t_end \<le> gpos t_iter then Inl Diverges
      else (case body t_iter d of
              Inl e \<Rightarrow> Inl e
            | Inr d' \<Rightarrow>
                (case deque_iterator_next d' t_iter of
                   Inl e \<Rightarrow> Inl e
                 | Inr t \<Rightarrow> for_range body t t_end d')))"
  by pat_completeness auto
termination
  by (relation "measure (\<lambda>(body, t, e, d). nat (gpos e - gpos t))")
     (auto dest: deque_iterator_next_gpos)

declare for_range.simps [simp del]

definition init_at :: "iter \<Rightarrow> 'a deque \<Rightarrow> error + 'a deque" where
  "init_at t_iter d =
     (case deque_iterator_get_pointer_auxiliary d t_iter of
        Inl e \<Rightarrow> Inl e
      | Inr p \<Rightarrow> init_elem d p)"

definition destroy_at :: "iter \<Rightarrow> 'a deque \<Rightarrow> error + 'a deque" where
  "destroy_at t_iter d =
     (case deque_iterator_get_pointer_auxiliary d t_iter of
        Inl e \<Rightarrow> Inl e
      | Inr p \<Rightarrow> destroy_elem d p)"

definition store_at :: "'a \<Rightarrow> iter \<Rightarrow> 'a deque \<Rightarrow> error + 'a deque" where
  "store_at v t_iter d =
     (case deque_iterator_get_pointer_auxiliary d t_iter of
        Inl e \<Rightarrow> Inl e
      | Inr p \<Rightarrow> store_elem d p v)"

text \<open>
  \<open>_deque_init_elem_range_auxiliary\<close>: both branches (built-in and user types) run the
  type's init function on every element of the range.
\<close>

definition deque_init_elem_range_auxiliary ::
  "'a deque \<Rightarrow> iter \<Rightarrow> iter \<Rightarrow> error + 'a deque" where
  "deque_init_elem_range_auxiliary d t_begin t_end = for_range init_at t_begin t_end d"

subsection \<open>Growing: \<open>_expand_at_end\<close>\<close>

fun alloc_blocks_up :: "'a deque \<Rightarrow> nat \<Rightarrow> int \<Rightarrow> error + 'a deque" where
  "alloc_blocks_up d 0 ppc_newcontainer = Inr d"
| "alloc_blocks_up d (Suc n) ppc_newcontainer =
     (case write_slot (fst (allocate_block d)) ppc_newcontainer
             (Some (snd (allocate_block d))) of
        Inl e \<Rightarrow> Inl e
      | Inr d' \<Rightarrow> alloc_blocks_up d' n (ppc_newcontainer + 1))"

fun alloc_blocks_down :: "'a deque \<Rightarrow> nat \<Rightarrow> int \<Rightarrow> error + 'a deque" where
  "alloc_blocks_down d 0 ppc_newcontainer = Inr d"
| "alloc_blocks_down d (Suc n) ppc_newcontainer =
     (case write_slot (fst (allocate_block d)) ppc_newcontainer
             (Some (snd (allocate_block d))) of
        Inl e \<Rightarrow> Inl e
      | Inr d' \<Rightarrow> alloc_blocks_down d' n (ppc_newcontainer - 1))"

definition set_mappos :: "iter option \<Rightarrow> int \<Rightarrow> iter option" where
  "set_mappos pt_pos m = map_option (\<lambda>p. p\<lparr>ppc_mappos := m\<rparr>) pt_pos"

text \<open>
  The quantities of the growth step, as \<open>_expand_at_end\<close> and \<open>_expand_at_begin\<close>
  compute them: the number of new blocks for \<open>t_nomemsize\<close> elements that do not fit
  into the boundary block (\<open>t_containersize\<close>), the number of unused directory slots
  (\<open>t_remainmapsize\<close>) and the growth of the directory for a shortfall of slots
  (\<open>t_growsize\<close>).
\<close>

definition containers_for :: "int \<Rightarrow> int" where
  "containers_for t_nomemsize =
     (if t_nomemsize mod DEQUE_ELEM_COUNT = 0
      then (t_nomemsize + DEQUE_ELEM_COUNT - 1) div DEQUE_ELEM_COUNT + 1
      else (t_nomemsize + DEQUE_ELEM_COUNT - 1) div DEQUE_ELEM_COUNT)"

definition remain_map_size :: "'a deque \<Rightarrow> int" where
  "remain_map_size d =
     t_mapsize d - (ppc_mappos (t_finish d) - ppc_mappos (t_start d) + 1)"

definition growsize_for :: "int \<Rightarrow> int" where
  "growsize_for shortfall =
     (shortfall + DEQUE_MAP_GROW_STEP - 1) div DEQUE_MAP_GROW_STEP * DEQUE_MAP_GROW_STEP"

text \<open>The branch \<open>t_containersize > t_remainmapsize\<close>: a new, larger directory.\<close>

definition grow_map_at_end ::
  "'a deque \<Rightarrow> int \<Rightarrow> iter \<Rightarrow> iter option \<Rightarrow> error + ('a deque \<times> iter \<times> iter option)" where
  "grow_map_at_end d t_containersize t_oldend pt_pos =
     (let t_remainmapsize = remain_map_size d;
          t_validmapsize = ppc_mappos (t_finish d) - ppc_mappos (t_start d) + 1;
          n_oldmapstartpos = (t_mapsize d - t_validmapsize) div 2;
          t_growsize = growsize_for (t_containersize - t_remainmapsize);
          t_oldmap = ppc_map d;
          t_newmapsize = t_mapsize d + t_growsize;
          n_newmapstartpos = (t_newmapsize - (t_validmapsize + t_containersize)) div 2
      in case copy_slots (replicate (nat t_newmapsize) None) n_newmapstartpos
                t_oldmap n_oldmapstartpos t_validmapsize of
           Inl e \<Rightarrow> Inl e
         | Inr newmap \<Rightarrow>
             (let n_posdistance =
                    (case pt_pos of None \<Rightarrow> 0
                     | Some p \<Rightarrow> ppc_mappos p - ppc_mappos (t_start d));
                  start' = (t_start d)\<lparr>ppc_mappos := n_newmapstartpos\<rparr>;
                  finish' = (t_finish d)\<lparr>ppc_mappos := n_newmapstartpos + t_validmapsize - 1\<rparr>
              in Inr (d\<lparr>ppc_map := newmap, t_mapsize := t_newmapsize,
                         t_start := start', t_finish := finish'\<rparr>,
                      t_oldend\<lparr>ppc_mappos := ppc_mappos finish'\<rparr>,
                      set_mappos pt_pos (ppc_mappos start' + n_posdistance))))"

text \<open>
  The branch \<open>t_containersize > t_remainendmapsize && t_containersize <= t_remainmapsize\<close>:
  the valid run of blocks is moved inside the directory.
\<close>

definition shift_map_at_end ::
  "'a deque \<Rightarrow> int \<Rightarrow> iter \<Rightarrow> iter option \<Rightarrow> error + ('a deque \<times> iter \<times> iter option)" where
  "shift_map_at_end d t_containersize t_oldend pt_pos =
     (let t_oldvalidmapsize = ppc_mappos (t_finish d) - ppc_mappos (t_start d) + 1;
          t_newvalidmapsize = t_oldvalidmapsize + t_containersize;
          t_oldstartpossize = (t_mapsize d - t_oldvalidmapsize) div 2;
          t_newstartpossize = (t_mapsize d - t_newvalidmapsize) div 2;
          t_movesize = t_oldstartpossize - t_newstartpossize
      in case copy_slots (ppc_map d) (ppc_mappos (t_start d) - t_movesize)
                (ppc_map d) (ppc_mappos (t_start d)) t_oldvalidmapsize of
           Inl e \<Rightarrow> Inl e
         | Inr newmap \<Rightarrow>
             Inr (d\<lparr>ppc_map := newmap,
                    t_start := (t_start d)\<lparr>ppc_mappos := ppc_mappos (t_start d) - t_movesize\<rparr>,
                    t_finish := (t_finish d)\<lparr>ppc_mappos := ppc_mappos (t_finish d) - t_movesize\<rparr>\<rparr>,
                  t_oldend\<lparr>ppc_mappos := ppc_mappos t_oldend - t_movesize\<rparr>,
                  map_option (\<lambda>p. p\<lparr>ppc_mappos := ppc_mappos p - t_movesize\<rparr>) pt_pos))"

text \<open>The \<open>else\<close> part of \<open>_expand_at_end\<close>: \<open>t_nomemsize\<close> elements need new blocks.\<close>

definition expand_at_end_blocks ::
  "'a deque \<Rightarrow> int \<Rightarrow> iter \<Rightarrow> iter option \<Rightarrow> error + ('a deque \<times> iter \<times> iter option)" where
  "expand_at_end_blocks d t_nomemsize t_oldend pt_pos =
     (let t_validendsize = t_nomemsize mod DEQUE_ELEM_COUNT;
          t_containersize = containers_for t_nomemsize;
          t_remainendmapsize = t_mapsize d - ppc_mappos t_oldend - 1;
          t_remainmapsize = remain_map_size d
      in case (if t_containersize > t_remainmapsize
               then grow_map_at_end d t_containersize t_oldend pt_pos
               else if t_containersize > t_remainendmapsize \<and>
                       t_containersize \<le> t_remainmapsize
               then shift_map_at_end d t_containersize t_oldend pt_pos
               else Inr (d, t_oldend, pt_pos)) of
           Inl e \<Rightarrow> Inl e
         | Inr (d1, t_oldend1, pt_pos1) \<Rightarrow>
             (case alloc_blocks_up d1 (nat t_containersize) (ppc_mappos t_oldend1 + 1) of
                Inl e \<Rightarrow> Inl e
              | Inr d2 \<Rightarrow>
                  (case read_slot d2 (ppc_mappos t_oldend1 + t_containersize) of
                     Inl e \<Rightarrow> Inl e
                   | Inr f \<Rightarrow>
                       Inr (d2\<lparr>t_finish :=
                                 \<lparr>ppc_mappos = ppc_mappos t_oldend1 + t_containersize,
                                  pc_first = f, pc_corepos = t_validendsize\<rparr>\<rparr>,
                            t_oldend1, pt_pos1))))"

text \<open>
  \<open>_expand_at_end\<close> returns the old end; the third component is the caller's iterator
  \<open>*pt_pos\<close> after the call (\<open>None\<close> for \<open>pt_pos == NULL\<close>).
\<close>

definition expand_at_end ::
  "'a deque \<Rightarrow> nat \<Rightarrow> iter option \<Rightarrow> error + ('a deque \<times> iter \<times> iter option)" where
  "expand_at_end d t_expandsize pt_pos =
     (let t_oldend = deque_end d;
          t_remainsize = DEQUE_ELEM_COUNT - pc_corepos t_oldend
      in case (if int t_expandsize < t_remainsize
               then Inr (d\<lparr>t_finish := (t_finish d)
                              \<lparr>pc_corepos := pc_corepos (t_finish d) + int t_expandsize\<rparr>\<rparr>,
                         t_oldend, pt_pos)
               else expand_at_end_blocks d (int t_expandsize - t_remainsize) t_oldend pt_pos) of
           Inl e \<Rightarrow> Inl e
         | Inr (d1, t_oldend1, pt_pos1) \<Rightarrow>
             (case deque_init_elem_range_auxiliary d1 t_oldend1 (deque_end d1) of
                Inl e \<Rightarrow> Inl e
              | Inr d2 \<Rightarrow> Inr (d2, t_oldend1, pt_pos1)))"


subsection \<open>Growing: \<open>_expand_at_begin\<close>\<close>

definition grow_map_at_begin ::
  "'a deque \<Rightarrow> int \<Rightarrow> iter \<Rightarrow> iter option \<Rightarrow> error + ('a deque \<times> iter \<times> iter option)" where
  "grow_map_at_begin d t_containersize t_oldbegin pt_pos =
     (let t_remainmapsize = remain_map_size d;
          t_validmapsize = ppc_mappos (t_finish d) - ppc_mappos (t_start d) + 1;
          n_oldmapstartpos = (t_mapsize d - t_validmapsize) div 2;
          t_growsize = growsize_for (t_containersize - t_remainmapsize);
          t_oldmap = ppc_map d;
          t_newmapsize = t_mapsize d + t_growsize;
          n_newmapstartpos = (t_newmapsize - (t_validmapsize + t_containersize)) div 2;
          n_newposofoldcontainer = n_newmapstartpos + t_containersize
      in case copy_slots (replicate (nat t_newmapsize) None) n_newposofoldcontainer
                t_oldmap n_oldmapstartpos t_validmapsize of
           Inl e \<Rightarrow> Inl e
         | Inr newmap \<Rightarrow>
             (let n_posdistance =
                    (case pt_pos of None \<Rightarrow> 0
                     | Some p \<Rightarrow> ppc_mappos p - ppc_mappos (t_start d));
                  start' = (t_start d)\<lparr>ppc_mappos := n_newposofoldcontainer\<rparr>;
                  finish' = (t_finish d)
                     \<lparr>ppc_mappos := n_newposofoldcontainer + t_validmapsize - 1\<rparr>
              in Inr (d\<lparr>ppc_map := newmap, t_mapsize := t_newmapsize,
                         t_start := start', t_finish := finish'\<rparr>,
                      t_oldbegin\<lparr>ppc_mappos := ppc_mappos start'\<rparr>,
                      set_mappos pt_pos (ppc_mappos start' + n_posdistance))))"

definition shift_map_at_begin ::
  "'a deque \<Rightarrow> int \<Rightarrow> iter \<Rightarrow> iter option \<Rightarrow> error + ('a deque \<times> iter \<times> iter option)" where
  "shift_map_at_begin d t_containersize t_oldbegin pt_pos =
     (let t_oldvalidmapsize = ppc_mappos (t_finish d) - ppc_mappos (t_start d) + 1;
          t_newvalidmapsize = t_oldvalidmapsize + t_containersize;
          t_oldstartpossize = (t_mapsize d - t_oldvalidmapsize) div 2;
          t_newstartpossize = (t_mapsize d - t_newvalidmapsize) div 2;
          t_newposofoldcontainer = t_newstartpossize + t_containersize;
          t_movesize = t_newposofoldcontainer - t_oldstartpossize
      in case copy_slots (ppc_map d) (ppc_mappos (t_start d) + t_movesize)
                (ppc_map d) (ppc_mappos (t_start d)) t_oldvalidmapsize of
           Inl e \<Rightarrow> Inl e
         | Inr newmap \<Rightarrow>
             Inr (d\<lparr>ppc_map := newmap,
                    t_start := (t_start d)\<lparr>ppc_mappos := ppc_mappos (t_start d) + t_movesize\<rparr>,
                    t_finish := (t_finish d)\<lparr>ppc_mappos := ppc_mappos (t_finish d) + t_movesize\<rparr>\<rparr>,
                  t_oldbegin\<lparr>ppc_mappos := ppc_mappos t_oldbegin + t_movesize\<rparr>,
                  map_option (\<lambda>p. p\<lparr>ppc_mappos := ppc_mappos p + t_movesize\<rparr>) pt_pos))"

definition expand_at_begin_blocks ::
  "'a deque \<Rightarrow> int \<Rightarrow> iter \<Rightarrow> iter option \<Rightarrow> error + ('a deque \<times> iter \<times> iter option)" where
  "expand_at_begin_blocks d t_nomemsize t_oldbegin pt_pos =
     (let t_validfrontsize = t_nomemsize mod DEQUE_ELEM_COUNT;
          t_containersize = containers_for t_nomemsize;
          t_remainfrontmapsize = ppc_mappos t_oldbegin;
          t_remainmapsize = remain_map_size d
      in case (if t_containersize > t_remainmapsize
               then grow_map_at_begin d t_containersize t_oldbegin pt_pos
               else if t_containersize > t_remainfrontmapsize \<and>
                       t_containersize \<le> t_remainmapsize
               then shift_map_at_begin d t_containersize t_oldbegin pt_pos
               else Inr (d, t_oldbegin, pt_pos)) of
           Inl e \<Rightarrow> Inl e
         | Inr (d1, t_oldbegin1, pt_pos1) \<Rightarrow>
             (case alloc_blocks_down d1 (nat t_containersize) (ppc_mappos t_oldbegin1 - 1) of
                Inl e \<Rightarrow> Inl e
              | Inr d2 \<Rightarrow>
                  (case read_slot d2 (ppc_mappos t_oldbegin1 - t_containersize) of
                     Inl e \<Rightarrow> Inl e
                   | Inr f \<Rightarrow>
                       Inr (d2\<lparr>t_start :=
                                 \<lparr>ppc_mappos = ppc_mappos t_oldbegin1 - t_containersize,
                                  pc_first = f,
                                  pc_corepos = DEQUE_ELEM_COUNT - t_validfrontsize\<rparr>\<rparr>,
                            t_oldbegin1, pt_pos1))))"

text \<open>
  An iterator standing ``after last'' of its block is moved to the first element of
  the next block (done for \<open>t_oldbegin\<close> and for \<open>*pt_pos\<close> at the end of
  \<open>_expand_at_begin\<close>; the next directory slot is asserted to be non-null).
\<close>

definition step_over_afterlast :: "'a deque \<Rightarrow> iter \<Rightarrow> error + iter" where
  "step_over_afterlast d t =
     (if pc_corepos t = DEQUE_ELEM_COUNT then
        (case read_slot d (ppc_mappos t + 1) of
           Inl e \<Rightarrow> Inl e
         | Inr None \<Rightarrow> Inl AssertFail
         | Inr (Some a) \<Rightarrow>
             Inr \<lparr>ppc_mappos = ppc_mappos t + 1, pc_first = Some a, pc_corepos = 0\<rparr>)
      else Inr t)"

definition expand_at_begin ::
  "'a deque \<Rightarrow> nat \<Rightarrow> iter option \<Rightarrow> error + ('a deque \<times> iter \<times> iter option)" where
  "expand_at_begin d t_expandsize pt_pos =
     (let t_oldbegin = deque_begin d;
          t_remainsize = pc_corepos t_oldbegin
      in case (if int t_expandsize < t_remainsize
               then Inr (d\<lparr>t_start := (t_start d)
                              \<lparr>pc_corepos := pc_corepos (t_start d) - int t_expandsize\<rparr>\<rparr>,
                         t_oldbegin, pt_pos)
               else expand_at_begin_blocks d (int t_expandsize - t_remainsize)
                      t_oldbegin pt_pos) of
           Inl e \<Rightarrow> Inl e
         | Inr (d1, t_oldbegin1, pt_pos1) \<Rightarrow>
             (case step_over_afterlast d1 t_oldbegin1 of
                Inl e \<Rightarrow> Inl e
              | Inr t_oldbegin2 \<Rightarrow>
                  (case (case pt_pos1 of
                           None \<Rightarrow> Inr None
                         | Some p \<Rightarrow> map_sum id Some (step_over_afterlast d1 p)) of
                     Inl e \<Rightarrow> Inl e
                   | Inr pt_pos2 \<Rightarrow>
                       (case deque_init_elem_range_auxiliary d1 (deque_begin d1) t_oldbegin2 of
                          Inl e \<Rightarrow> Inl e
                        | Inr d2 \<Rightarrow> Inr (d2, t_oldbegin2, pt_pos2)))))"

subsection \<open>Shrinking\<close>

function free_blocks_up :: "'a deque \<Rightarrow> int \<Rightarrow> int \<Rightarrow> error + 'a deque" where
  "free_blocks_up d ppc_pos ppc_last =
     (if ppc_pos \<le> ppc_last then
        (case read_slot d ppc_pos of
           Inl e \<Rightarrow> Inl e
         | Inr b \<Rightarrow>
             (case write_slot (deallocate_block d b) ppc_pos None of
                Inl e \<Rightarrow> Inl e
              | Inr d' \<Rightarrow> free_blocks_up d' (ppc_pos + 1) ppc_last))
      else Inr d)"
  by pat_completeness auto
termination
  by (relation "measure (\<lambda>(d, p, l). nat (l + 1 - p))") auto

function free_blocks_down :: "'a deque \<Rightarrow> int \<Rightarrow> int \<Rightarrow> error + 'a deque" where
  "free_blocks_down d ppc_pos ppc_last =
     (if ppc_pos \<ge> ppc_last then
        (case read_slot d ppc_pos of
           Inl e \<Rightarrow> Inl e
         | Inr b \<Rightarrow>
             (case write_slot (deallocate_block d b) ppc_pos None of
                Inl e \<Rightarrow> Inl e
              | Inr d' \<Rightarrow> free_blocks_down d' (ppc_pos - 1) ppc_last))
      else Inr d)"
  by pat_completeness auto
termination
  by (relation "measure (\<lambda>(d, p, l). nat (p + 1 - l))") auto

declare free_blocks_up.simps [simp del] free_blocks_down.simps [simp del]

definition shrink_at_end :: "'a deque \<Rightarrow> nat \<Rightarrow> error + 'a deque" where
  "shrink_at_end d t_shrinksize =
     (let t_oldend = deque_end d in
      case deque_size d of
        Inl e \<Rightarrow> Inl e
      | Inr n \<Rightarrow>
          (let t_shrinksize' = (if int t_shrinksize < n then int t_shrinksize else n) in
           case deque_iterator_prev_n d (deque_end d) t_shrinksize' of
             Inl e \<Rightarrow> Inl e
           | Inr t_newend \<Rightarrow>
               (case for_range destroy_at t_newend t_oldend d of
                  Inl e \<Rightarrow> Inl e
                | Inr d1 \<Rightarrow>
                    free_blocks_up (d1\<lparr>t_finish := t_newend\<rparr>)
                      (ppc_mappos t_newend + 1) (ppc_mappos t_oldend))))"

definition shrink_at_begin :: "'a deque \<Rightarrow> nat \<Rightarrow> error + 'a deque" where
  "shrink_at_begin d t_shrinksize =
     (let t_oldbegin = deque_begin d in
      case deque_size d of
        Inl e \<Rightarrow> Inl e
      | Inr n \<Rightarrow>
          (let t_shrinksize' = (if int t_shrinksize < n then int t_shrinksize else n) in
           case deque_iterator_next_n d (deque_begin d) t_shrinksize' of
             Inl e \<Rightarrow> Inl e
           | Inr t_newbegin \<Rightarrow>
               (case for_range destroy_at t_oldbegin t_newbegin d of
                  Inl e \<Rightarrow> Inl e
                | Inr d1 \<Rightarrow>
                    free_blocks_down (d1\<lparr>t_start := t_newbegin\<rparr>)
                      (ppc_mappos t_newbegin - 1) (ppc_mappos t_oldbegin))))"


subsection \<open>The move engine\<close>

definition copy_at :: "'a deque \<Rightarrow> iter \<Rightarrow> iter \<Rightarrow> error + 'a deque" where
  "copy_at d t_dst t_src =
     (case deque_iterator_get_pointer_auxiliary d t_dst of
        Inl e \<Rightarrow> Inl e
      | Inr pd \<Rightarrow>
          (case deque_iterator_get_pointer_auxiliary d t_src of
             Inl e \<Rightarrow> Inl e
           | Inr ps \<Rightarrow> copy_elem d pd ps))"

lemma deque_iterator_equal_gpos:
  "deque_iterator_equal a b \<Longrightarrow> gpos a = gpos b"
  by (auto simp: deque_iterator_equal_def gpos_def split: if_splits)

lemma less_walk_True_gpos:
  "less_walk d t s = Inr True \<Longrightarrow> gpos t \<le> gpos s"
proof (induction d t s rule: less_walk.induct)
  case (1 d t_i t_itersecond)
  note prem = "1.prems"[unfolded less_walk.simps[of d t_i t_itersecond]]
  show ?case
  proof (cases "deque_iterator_equal t_i (t_finish d)")
    case True
    with prem have "deque_iterator_equal t_itersecond (t_finish d)" by simp
    with True show ?thesis by (auto dest!: deque_iterator_equal_gpos)
  next
    case nfin: False
    show ?thesis
    proof (cases "deque_iterator_equal t_i t_itersecond")
      case True
      then show ?thesis by (auto dest!: deque_iterator_equal_gpos)
    next
      case nsec: False
      show ?thesis
      proof (cases "gpos (t_finish d) \<le> gpos t_i \<and> gpos t_itersecond \<le> gpos t_i")
        case True
        with nfin nsec prem show ?thesis by simp
      next
        case ndiv: False
        from nfin nsec ndiv prem obtain t where
          nx: "deque_iterator_next d t_i = Inr t" and rec: "less_walk d t t_itersecond = Inr True"
          by (auto split: sum.splits)
        from "1.IH"[OF nfin nsec ndiv nx rec] deque_iterator_next_gpos[OF nx]
        show ?thesis by simp
      qed
    qed
  qed
qed

lemma deque_iterator_less_True_gpos:
  "deque_iterator_less d a b = Inr True \<Longrightarrow> gpos a \<le> gpos b"
  unfolding deque_iterator_less_def
  by (cases "deque_iterator_equal a b") (simp_all add: less_walk_True_gpos)

text \<open>
  The loop of \<open>_move_elem_to_begin\<close>: while both the target range and the source
  range are not exhausted, copy one element and step both forward.
\<close>

function move_fwd ::
  "'a deque \<Rightarrow> iter \<Rightarrow> iter \<Rightarrow> iter \<Rightarrow> iter \<Rightarrow> error + ('a deque \<times> iter \<times> iter)" where
  "move_fwd d t_targetbegin t_targetend t_begin t_end =
     (case deque_iterator_less d t_targetbegin t_targetend of
        Inl x \<Rightarrow> Inl x
      | Inr cont1 \<Rightarrow>
          if \<not> cont1 then Inr (d, t_targetbegin, t_begin)
          else
            (case deque_iterator_less d t_begin t_end of
               Inl x \<Rightarrow> Inl x
             | Inr cont2 \<Rightarrow>
                 if \<not> cont2 then Inr (d, t_targetbegin, t_begin)
                 else
                   (case copy_at d t_targetbegin t_begin of
                      Inl x \<Rightarrow> Inl x
                    | Inr d' \<Rightarrow>
                        (case deque_iterator_next d' t_targetbegin of
                           Inl x \<Rightarrow> Inl x
                         | Inr tb \<Rightarrow>
                             (case deque_iterator_next d' t_begin of
                                Inl x \<Rightarrow> Inl x
                              | Inr b \<Rightarrow> move_fwd d' tb t_targetend b t_end)))))"
  by pat_completeness auto
termination
proof (relation "measure (\<lambda>(d, tb, te, b, e). nat (gpos e - gpos b + 1))", goal_cases)
  case 1
  show ?case by simp
next
  case (2 d tb te b e c1 c2 d' tb' b')
  from 2 have "gpos b \<le> gpos e" by (simp add: deque_iterator_less_True_gpos)
  moreover from 2 have "gpos b' = gpos b + 1" by (simp add: deque_iterator_next_gpos)
  ultimately show ?case by simp
qed

lemma copy_at_t_start: "copy_at d a b = Inr d' \<Longrightarrow> t_start d' = t_start d"
  by (auto simp: copy_at_def copy_elem_def write_cell_def split: sum.splits option.splits if_splits)

lemma copy_at_src_corepos: "copy_at d a b = Inr d' \<Longrightarrow> 0 \<le> pc_corepos b"
  by (auto simp: copy_at_def copy_elem_def read_cell_def deque_iterator_get_pointer_auxiliary_def
      split: sum.splits option.splits if_splits)

text \<open>
  The loop of \<open>_move_elem_to_end\<close>: from the last element backward, while the
  target and the source have not fallen below their range.
\<close>

function move_bwd ::
  "'a deque \<Rightarrow> iter \<Rightarrow> iter \<Rightarrow> iter \<Rightarrow> iter \<Rightarrow> error + ('a deque \<times> iter \<times> iter)" where
  "move_bwd d t_targetbegin t_targetend t_begin t_end =
     (case deque_iterator_less d t_targetend t_targetbegin of
        Inl x \<Rightarrow> Inl x
      | Inr stop1 \<Rightarrow>
          if stop1 then Inr (d, t_targetend, t_end)
          else
            (case deque_iterator_less d t_end t_begin of
               Inl x \<Rightarrow> Inl x
             | Inr stop2 \<Rightarrow>
                 if stop2 then Inr (d, t_targetend, t_end)
                 else
                   (case copy_at d t_targetend t_end of
                      Inl x \<Rightarrow> Inl x
                    | Inr d' \<Rightarrow>
                        (case deque_iterator_prev d' t_targetend of
                           Inl x \<Rightarrow> Inl x
                         | Inr te \<Rightarrow>
                             (case deque_iterator_prev d' t_end of
                                Inl x \<Rightarrow> Inl x
                              | Inr e \<Rightarrow> move_bwd d' t_targetbegin te t_begin e)))))"
  by pat_completeness auto
termination
proof (relation "measures [\<lambda>(d, tb, te, b, e). nat (ppc_mappos e - ppc_mappos (t_start d)),
                          \<lambda>(d, tb, te, b, e). nat (pc_corepos e + 1)]", goal_cases)
  case 1
  show ?case by simp
next
  case (2 d tb te b e s1 s2 d' te' e')
  from 2 have st: "t_start d' = t_start d" and c0: "0 \<le> pc_corepos e"
    by (simp_all add: copy_at_t_start copy_at_src_corepos)
  from 2 have pv: "deque_iterator_prev d' e = Inr e'" by simp
  from pv c0 st show ?case
    by (auto simp: deque_iterator_prev_def Let_def split: if_splits sum.splits)
qed

declare move_fwd.simps [simp del] move_bwd.simps [simp del]

definition assert_res :: "error + bool \<Rightarrow> error + unit" where
  "assert_res r = (case r of Inl e \<Rightarrow> Inl e | Inr b \<Rightarrow> if b then Inr () else Inl AssertFail)"

definition move_elem_to_end ::
  "'a deque \<Rightarrow> iter \<Rightarrow> iter \<Rightarrow> nat \<Rightarrow> error + ('a deque \<times> iter)" where
  "move_elem_to_end d t_begin t_end t_movesize =
     (if \<not> deque_iterator_equal t_begin t_end \<and> t_movesize \<noteq> 0 then
        (case assert_res (deque_iterator_before d t_begin t_end) of
           Inl x \<Rightarrow> Inl x
         | Inr _ \<Rightarrow>
        (case deque_iterator_next_n d t_begin (int t_movesize) of
           Inl x \<Rightarrow> Inl x
         | Inr t_targetbegin \<Rightarrow>
        (case deque_iterator_next_n d t_end (int t_movesize) of
           Inl x \<Rightarrow> Inl x
         | Inr t_targetend \<Rightarrow>
        (case assert_res (deque_iterator_before d t_targetbegin t_targetend) of
           Inl x \<Rightarrow> Inl x
         | Inr _ \<Rightarrow>
        (case deque_iterator_prev d t_targetend of
           Inl x \<Rightarrow> Inl x
         | Inr te0 \<Rightarrow>
        (case deque_iterator_prev d t_end of
           Inl x \<Rightarrow> Inl x
         | Inr e0 \<Rightarrow>
        (case move_bwd d t_targetbegin te0 t_begin e0 of
           Inl x \<Rightarrow> Inl x
         | Inr (d', te1, e1) \<Rightarrow>
        (case deque_iterator_next d' te1 of
           Inl x \<Rightarrow> Inl x
         | Inr te2 \<Rightarrow>
        (case deque_iterator_next d' e1 of
           Inl x \<Rightarrow> Inl x
         | Inr e2 \<Rightarrow>
             if deque_iterator_equal t_begin e2 \<and> deque_iterator_equal t_targetbegin te2
             then Inr (d', t_begin) else Inl AssertFail)))))))))
      else Inr (d, t_begin))"

definition move_elem_to_begin ::
  "'a deque \<Rightarrow> iter \<Rightarrow> iter \<Rightarrow> nat \<Rightarrow> error + ('a deque \<times> iter)" where
  "move_elem_to_begin d t_begin t_end t_movesize =
     (if \<not> deque_iterator_equal t_begin t_end \<and> t_movesize \<noteq> 0 then
        (case assert_res (deque_iterator_before d t_begin t_end) of
           Inl x \<Rightarrow> Inl x
         | Inr _ \<Rightarrow>
        (case deque_iterator_prev_n d t_begin (int t_movesize) of
           Inl x \<Rightarrow> Inl x
         | Inr t_targetbegin \<Rightarrow>
        (case deque_iterator_prev_n d t_end (int t_movesize) of
           Inl x \<Rightarrow> Inl x
         | Inr t_targetend \<Rightarrow>
        (case assert_res (deque_iterator_before d t_targetbegin t_targetend) of
           Inl x \<Rightarrow> Inl x
         | Inr _ \<Rightarrow>
        (case move_fwd d t_targetbegin t_targetend t_begin t_end of
           Inl x \<Rightarrow> Inl x
         | Inr (d', tb1, b1) \<Rightarrow>
             if deque_iterator_equal tb1 t_targetend \<and> deque_iterator_equal b1 t_end
             then Inr (d', t_targetend) else Inl AssertFail)))))
      else (case deque_iterator_prev_n d t_end (int t_movesize) of
              Inl x \<Rightarrow> Inl x
            | Inr t \<Rightarrow> Inr (d, t)))"


subsection \<open>The operations of the deque\<close>

text \<open>
  \<open>_create_deque_auxiliary\<close> for a registered type, then \<open>deque_init_n\<close>.
\<close>

definition create_deque ::
  "string \<Rightarrow> nat \<Rightarrow> type_style \<Rightarrow> 'a \<Rightarrow> ('a \<Rightarrow> 'a \<Rightarrow> bool) \<Rightarrow> 'a deque" where
  "create_deque s_typename tp style ini lss =
     \<lparr>heap = (\<lambda>_. []), next_addr = 0, ppc_map = [], t_mapsize = 0,
      t_start = create_deque_iterator, t_finish = create_deque_iterator,
      sz_typename = s_typename, pt_type = tp, t_style = style,
      t_typeinit = ini, t_typeless = lss, evlog = []\<rparr>"

definition deque_init_n :: "'a deque \<Rightarrow> nat \<Rightarrow> error + 'a deque" where
  "deque_init_n d t_count =
     (let t_endelemcount = (if t_count > 0 then int t_count mod DEQUE_ELEM_COUNT else 0);
          t_validmapcount =
            (if t_count > 0
             then (int t_count + DEQUE_ELEM_COUNT - 1) div DEQUE_ELEM_COUNT +
                  (if t_endelemcount \<noteq> 0 then 1 else 2)
             else 2);
          t_mapcount =
            (if t_count > 0 \<and> t_validmapcount > DEQUE_MAP_COUNT
             then DEQUE_MAP_COUNT +
                  (t_validmapcount - DEQUE_MAP_COUNT + DEQUE_MAP_GROW_STEP - 1) div
                    DEQUE_MAP_GROW_STEP * DEQUE_MAP_GROW_STEP
             else DEQUE_MAP_COUNT);
          t_startpos = (t_mapcount - t_validmapcount) div 2;
          d0 = d\<lparr>ppc_map := replicate (nat t_mapcount) None, t_mapsize := t_mapcount\<rparr>
      in case alloc_blocks_up d0 (nat t_validmapcount) t_startpos of
           Inl e \<Rightarrow> Inl e
         | Inr d1 \<Rightarrow>
             (case read_slot d1 t_startpos of
                Inl e \<Rightarrow> Inl e
              | Inr fs \<Rightarrow>
                  (case read_slot d1 (t_startpos + t_validmapcount - 1) of
                     Inl e \<Rightarrow> Inl e
                   | Inr ff \<Rightarrow>
                       (let d2 = d1\<lparr>t_start := \<lparr>ppc_mappos = t_startpos, pc_first = fs,
                                                   pc_corepos = DEQUE_ELEM_COUNT\<rparr>,
                                      t_finish := \<lparr>ppc_mappos = t_startpos + t_validmapcount - 1,
                                                    pc_first = ff,
                                                    pc_corepos = t_endelemcount\<rparr>\<rparr>
                        in for_range init_at (deque_begin d2) (deque_end d2) d2))))"

text \<open>
  \<open>_deque_push_back_varg\<close>, \<open>deque_pop_back\<close>, \<open>_deque_push_front_varg\<close>,
  \<open>deque_pop_front\<close>.  The pushed value is written into the slot by
  \<open>_type_get_varg_value\<close>.
\<close>

definition deque_push_back :: "'a deque \<Rightarrow> 'a \<Rightarrow> error + 'a deque" where
  "deque_push_back d v =
     (case expand_at_end d 1 None of
        Inl e \<Rightarrow> Inl e
      | Inr (d1, t_oldend, _) \<Rightarrow> store_at v t_oldend d1)"

definition deque_pop_back :: "'a deque \<Rightarrow> error + 'a deque" where
  "deque_pop_back d =
     (case deque_size d of
        Inl e \<Rightarrow> Inl e
      | Inr n \<Rightarrow> if n > 0 then shrink_at_end d 1 else Inl AssertFail)"

definition deque_push_front :: "'a deque \<Rightarrow> 'a \<Rightarrow> error + 'a deque" where
  "deque_push_front d v =
     (case expand_at_begin d 1 None of
        Inl e \<Rightarrow> Inl e
      | Inr (d1, _, _) \<Rightarrow> store_at v (deque_begin d1) d1)"

definition deque_pop_front :: "'a deque \<Rightarrow> error + 'a deque" where
  "deque_pop_front d =
     (case deque_size d of
        Inl e \<Rightarrow> Inl e
      | Inr n \<Rightarrow> if n > 0 then shrink_at_begin d 1 else Inl AssertFail)"

fun store_times :: "'a \<Rightarrow> nat \<Rightarrow> iter \<Rightarrow> 'a deque \<Rightarrow> error + 'a deque" where
  "store_times v 0 t_pos d = Inr d"
| "store_times v (Suc n) t_pos d =
     (case store_at v t_pos d of
        Inl e \<Rightarrow> Inl e
      | Inr d' \<Rightarrow>
          (case deque_iterator_next d' t_pos of
             Inl e \<Rightarrow> Inl e
           | Inr t \<Rightarrow> store_times v n t d'))"

text \<open>The quotient \<open>(int)deque_size(pt_deque)/2\<close> of C, which truncates toward zero.\<close>

definition c_half :: "int \<Rightarrow> int" where
  "c_half n = (if 0 \<le> n then n div 2 else - ((- n) div 2))"

definition deque_insert_n_varg ::
  "'a deque \<Rightarrow> iter \<Rightarrow> nat \<Rightarrow> 'a \<Rightarrow> error + ('a deque \<times> iter)" where
  "deque_insert_n_varg d t_pos t_count v =
     (case iterator_distance d (deque_begin d) t_pos of
        Inl e \<Rightarrow> Inl e
      | Inr dist \<Rightarrow>
     (case deque_size d of
        Inl e \<Rightarrow> Inl e
      | Inr n \<Rightarrow>
          if dist < c_half n then
            (case expand_at_begin d t_count (Some t_pos) of
               Inl e \<Rightarrow> Inl e
             | Inr (d1, t_oldbegin, pp) \<Rightarrow>
            (case pp of
               None \<Rightarrow> Inl BadPointer
             | Some t_pos1 \<Rightarrow>
            (case move_elem_to_begin d1 t_oldbegin t_pos1 t_count of
               Inl e \<Rightarrow> Inl e
             | Inr (d2, t_gap) \<Rightarrow>
            (case iterator_distance d2 t_gap t_pos1 of
               Inl e \<Rightarrow> Inl e
             | Inr g \<Rightarrow>
                 if g \<noteq> int t_count then Inl AssertFail
                 else
                   (case for_range (store_at v) t_gap t_pos1 d2 of
                      Inl e \<Rightarrow> Inl e
                    | Inr d3 \<Rightarrow> Inr (d3, t_gap))))))
          else
            (case expand_at_end d t_count (Some t_pos) of
               Inl e \<Rightarrow> Inl e
             | Inr (d1, t_oldend, pp) \<Rightarrow>
            (case pp of
               None \<Rightarrow> Inl BadPointer
             | Some t_pos1 \<Rightarrow>
            (case move_elem_to_end d1 t_pos1 t_oldend t_count of
               Inl e \<Rightarrow> Inl e
             | Inr (d2, t_gap) \<Rightarrow>
                 if \<not> deque_iterator_equal t_pos1 t_gap then Inl AssertFail
                 else
                   (case store_times v t_count t_pos1 d2 of
                      Inl e \<Rightarrow> Inl e
                    | Inr d3 \<Rightarrow> Inr (d3, t_gap)))))))"

definition deque_erase :: "'a deque \<Rightarrow> iter \<Rightarrow> error + ('a deque \<times> iter)" where
  "deque_erase d t_pos =
     (if deque_iterator_equal t_pos (deque_end d) then Inl AssertFail
      else if deque_iterator_equal t_pos (deque_begin d) then
        (case deque_pop_front d of
           Inl e \<Rightarrow> Inl e
         | Inr d' \<Rightarrow> Inr (d', deque_begin d'))
      else
        (case deque_iterator_prev d (deque_end d) of
           Inl e \<Rightarrow> Inl e
         | Inr t_last \<Rightarrow>
             if deque_iterator_equal t_pos t_last then
               (case deque_pop_back d of
                  Inl e \<Rightarrow> Inl e
                | Inr d' \<Rightarrow> Inr (d', deque_end d'))
             else
               (case deque_iterator_next d t_pos of
                  Inl e \<Rightarrow> Inl e
                | Inr t_pos' \<Rightarrow>
                    (case move_elem_to_begin d t_pos' (deque_end d) 1 of
                       Inl e \<Rightarrow> Inl e
                     | Inr (d1, _) \<Rightarrow>
                         (case shrink_at_end d1 1 of
                            Inl e \<Rightarrow> Inl e
                          | Inr d2 \<Rightarrow> Inr (d2, t_pos))))))"

definition deque_erase_range ::
  "'a deque \<Rightarrow> iter \<Rightarrow> iter \<Rightarrow> error + ('a deque \<times> iter)" where
  "deque_erase_range d t_begin t_end =
     (case (if deque_iterator_equal t_begin t_end then Inr ()
            else assert_res (deque_iterator_before d t_begin t_end)) of
        Inl e \<Rightarrow> Inl e
      | Inr _ \<Rightarrow>
     (case iterator_distance d t_begin t_end of
        Inl e \<Rightarrow> Inl e
      | Inr n \<Rightarrow>
     (case move_elem_to_begin d t_end (deque_end d) (nat n) of
        Inl e \<Rightarrow> Inl e
      | Inr (d1, _) \<Rightarrow>
     (case iterator_distance d1 t_begin t_end of
        Inl e \<Rightarrow> Inl e
      | Inr n1 \<Rightarrow>
     (case shrink_at_end d1 (nat n1) of
        Inl e \<Rightarrow> Inl e
      | Inr d2 \<Rightarrow> Inr (d2, t_begin))))))"

definition deque_resize :: "'a deque \<Rightarrow> nat \<Rightarrow> error + 'a deque" where
  "deque_resize d t_resize =
     (case deque_size d of
        Inl e \<Rightarrow> Inl e
      | Inr n \<Rightarrow>
          if int t_resize < n then shrink_at_end d (nat (n - int t_resize))
          else if int t_resize > n then
            map_sum id fst (expand_at_end d (nat (int t_resize - n)) None)
          else Inr d)"

definition deque_clear :: "'a deque \<Rightarrow> error + 'a deque" where
  "deque_clear d = map_sum id fst (deque_erase_range d (deque_begin d) (deque_end d))"

subsection \<open>Comparison of two deques\<close>

text \<open>
  Modelled from the spec: \<open>_type_is_same\<close> (cstl\_types.c, not among the sources)
  decides whether two type names denote the same element type; with type names in
  normal form that is their equality.
\<close>

definition type_is_same :: "string \<Rightarrow> string \<Rightarrow> bool" where
  "type_is_same s1 s2 = (s1 = s2)"

definition deque_same_type :: "'a deque \<Rightarrow> 'a deque \<Rightarrow> bool" where
  "deque_same_type d1 d2 =
     (type_is_same (sz_typename d1) (sz_typename d2) \<and> pt_type d1 = pt_type d2 \<and>
      t_style d1 = t_style d2)"

definition value_at :: "'a deque \<Rightarrow> iter \<Rightarrow> error + 'a" where
  "value_at d t_iter =
     (case deque_iterator_get_pointer_auxiliary d t_iter of
        Inl e \<Rightarrow> Inl e
      | Inr p \<Rightarrow> read_value d p)"

text \<open>
  The two loops walk both deques in step and stop when either walk reaches its end.
  When both walks are at or behind their ends without being equal to them, neither
  exit test can become true any more.
\<close>

function deque_equal_loop ::
  "'a deque \<Rightarrow> 'a deque \<Rightarrow> iter \<Rightarrow> iter \<Rightarrow> error + bool" where
  "deque_equal_loop d1 d2 t_first t_second =
     (if \<not> deque_iterator_equal t_first (deque_end d1) \<and>
         \<not> deque_iterator_equal t_second (deque_end d2) then
        (if gpos (deque_end d1) \<le> gpos t_first \<and> gpos (deque_end d2) \<le> gpos t_second
         then Inl Diverges
         else
           (case value_at d1 t_first of
              Inl e \<Rightarrow> Inl e
            | Inr a \<Rightarrow>
           (case value_at d2 t_second of
              Inl e \<Rightarrow> Inl e
            | Inr b \<Rightarrow>
                if t_typeless d1 a b \<or> t_typeless d1 b a then Inr False
                else
                  (case deque_iterator_next d1 t_first of
                     Inl e \<Rightarrow> Inl e
                   | Inr f \<Rightarrow>
                       (case deque_iterator_next d2 t_second of
                          Inl e \<Rightarrow> Inl e
                        | Inr s \<Rightarrow> deque_equal_loop d1 d2 f s)))))
      else if deque_iterator_equal t_first (deque_end d1) \<and>
              deque_iterator_equal t_second (deque_end d2)
      then Inr True
      else Inl AssertFail)"
  by pat_completeness auto
termination
proof (relation "measure (\<lambda>(d1, d2, f, s).
          nat (max (gpos (deque_end d1) - gpos f) (gpos (deque_end d2) - gpos s)))", goal_cases)
  case 1
  show ?case by simp
next
  case (2 d1 d2 f s a b f' s')
  from 2 have "gpos f' = gpos f + 1" "gpos s' = gpos s + 1"
    by (simp_all add: deque_iterator_next_gpos)
  with 2 show ?case by auto
qed

definition deque_equal :: "'a deque \<Rightarrow> 'a deque \<Rightarrow> error + bool" where
  "deque_equal d1 d2 =
     (if \<not> (t_mapsize d1 > 0 \<and> t_mapsize d2 > 0) then Inl AssertFail
      else if \<not> deque_same_type d1 d2 then Inr False
      else
        (case deque_size d1 of
           Inl e \<Rightarrow> Inl e
         | Inr n1 \<Rightarrow>
             (case deque_size d2 of
                Inl e \<Rightarrow> Inl e
              | Inr n2 \<Rightarrow>
                  if n1 \<noteq> n2 then Inr False
                  else deque_equal_loop d1 d2 (deque_begin d1) (deque_begin d2))))"

function deque_less_loop ::
  "'a deque \<Rightarrow> 'a deque \<Rightarrow> iter \<Rightarrow> iter \<Rightarrow> error + bool" where
  "deque_less_loop d1 d2 t_first t_second =
     (if \<not> deque_iterator_equal t_first (deque_end d1) \<and>
         \<not> deque_iterator_equal t_second (deque_end d2) then
        (if gpos (deque_end d1) \<le> gpos t_first \<and> gpos (deque_end d2) \<le> gpos t_second
         then Inl Diverges
         else
           (case value_at d1 t_first of
              Inl e \<Rightarrow> Inl e
            | Inr a \<Rightarrow>
           (case value_at d2 t_second of
              Inl e \<Rightarrow> Inl e
            | Inr b \<Rightarrow>
                if t_typeless d1 a b then Inr True
                else if t_typeless d1 b a then Inr False
                else
                  (case deque_iterator_next d1 t_first of
                     Inl e \<Rightarrow> Inl e
                   | Inr f \<Rightarrow>
                       (case deque_iterator_next d2 t_second of
                          Inl e \<Rightarrow> Inl e
                        | Inr s \<Rightarrow> deque_less_loop d1 d2 f s)))))
      else
        (case deque_size d1 of
           Inl e \<Rightarrow> Inl e
         | Inr n1 \<Rightarrow>
             (case deque_size d2 of
                Inl e \<Rightarrow> Inl e
              | Inr n2 \<Rightarrow> Inr (n1 < n2))))"
  by pat_completeness auto
termination
proof (relation "measure (\<lambda>(d1, d2, f, s).
          nat (max (gpos (deque_end d1) - gpos f) (gpos (deque_end d2) - gpos s)))", goal_cases)
  case 1
  show ?case by simp
next
  case (2 d1 d2 f s a b f' s')
  from 2 have "gpos f' = gpos f + 1" "gpos s' = gpos s + 1"
    by (simp_all add: deque_iterator_next_gpos)
  with 2 show ?case by auto
qed

declare deque_equal_loop.simps [simp del] deque_less_loop.simps [simp del]

definition deque_less :: "'a deque \<Rightarrow> 'a deque \<Rightarrow> error + bool" where
  "deque_less d1 d2 =
     (if \<not> deque_same_type d1 d2 then Inl AssertFail
      else deque_less_loop d1 d2 (deque_begin d1) (deque_begin d2))"


section \<open>Well-formed deques and linear positions\<close>

text \<open>
  The data invariant of the deque (section 3 of the specification): the directory has
  \<open>_t_mapsize\<close> slots, the slots from the start slot to the finish slot hold
  pairwise different blocks of 16 cells, both iterators cache the block of their
  slot, the start offset lies in \<open>0..16\<close> (16: the first block is still empty), the
  finish offset in \<open>0..15\<close>, and start does not lie behind finish.

  \<open>same_dir\<close> relates two states that differ at most in the contents of cells and in
  the event log.  \<open>iter_at d g\<close> is the iterator of the linear position \<open>g\<close> in
  canonical form; \<open>rep d it g\<close> says that \<open>it\<close> denotes position \<open>g\<close>, in canonical
  form or standing after the last element of the block before.  \<open>cell_at d g\<close> is the
  cell at position \<open>g\<close> and \<open>elems d\<close> the logical sequence of the deque.
\<close>

definition same_dir :: "'a deque \<Rightarrow> 'a deque \<Rightarrow> bool" where
  "same_dir d d' \<longleftrightarrow>
     ppc_map d' = ppc_map d \<and> t_mapsize d' = t_mapsize d \<and>
     t_start d' = t_start d \<and> t_finish d' = t_finish d \<and> next_addr d' = next_addr d \<and>
     sz_typename d' = sz_typename d \<and> pt_type d' = pt_type d \<and> t_style d' = t_style d \<and>
     t_typeinit d' = t_typeinit d \<and> t_typeless d' = t_typeless d \<and>
     (\<forall>a. length (heap d' a) = length (heap d a))"

definition valid_run :: "'a deque \<Rightarrow> nat option list" where
  "valid_run d =
     take (nat (ppc_mappos (t_finish d) - ppc_mappos (t_start d) + 1))
       (drop (nat (ppc_mappos (t_start d))) (ppc_map d))"

definition block_ok :: "'a deque \<Rightarrow> nat option \<Rightarrow> bool" where
  "block_ok d s = (case s of None \<Rightarrow> False | Some a \<Rightarrow> length (heap d a) = 16)"

definition wf_deque :: "'a deque \<Rightarrow> bool" where
  "wf_deque d \<longleftrightarrow>
     int (length (ppc_map d)) = t_mapsize d \<and>
     0 \<le> ppc_mappos (t_start d) \<and> ppc_mappos (t_start d) \<le> ppc_mappos (t_finish d) \<and>
     ppc_mappos (t_finish d) < t_mapsize d \<and>
     list_all (block_ok d) (valid_run d) \<and> distinct (valid_run d) \<and>
     pc_first (t_start d) = ppc_map d ! nat (ppc_mappos (t_start d)) \<and>
     pc_first (t_finish d) = ppc_map d ! nat (ppc_mappos (t_finish d)) \<and>
     0 \<le> pc_corepos (t_start d) \<and> pc_corepos (t_start d) \<le> 16 \<and>
     0 \<le> pc_corepos (t_finish d) \<and> pc_corepos (t_finish d) < 16 \<and>
     gpos (t_start d) \<le> gpos (t_finish d)"

definition iter_at :: "'a deque \<Rightarrow> int \<Rightarrow> iter" where
  "iter_at d g =
     \<lparr>ppc_mappos = g div 16, pc_first = ppc_map d ! nat (g div 16), pc_corepos = g mod 16\<rparr>"

definition rep :: "'a deque \<Rightarrow> iter \<Rightarrow> int \<Rightarrow> bool" where
  "rep d it g \<longleftrightarrow>
     it = iter_at d g \<or>
     (pc_corepos it = 16 \<and> gpos it = g \<and> pc_first it = ppc_map d ! nat (ppc_mappos it))"

definition ptr_at :: "'a deque \<Rightarrow> int \<Rightarrow> ptr" where
  "ptr_at d g = (ppc_map d ! nat (g div 16), g mod 16)"

definition cell_at :: "'a deque \<Rightarrow> int \<Rightarrow> 'a cell" where
  "cell_at d g =
     (case ppc_map d ! nat (g div 16) of
        None \<Rightarrow> Raw
      | Some a \<Rightarrow> heap d a ! nat (g mod 16))"

definition elems :: "'a deque \<Rightarrow> 'a cell list" where
  "elems d = map (cell_at d) [gpos (t_start d) .. gpos (t_finish d) - 1]"

lemma same_dir_refl [simp]: "same_dir d d"
  by (simp add: same_dir_def)

lemma same_dir_trans: "same_dir a b \<Longrightarrow> same_dir b c \<Longrightarrow> same_dir a c"
  by (simp add: same_dir_def)

lemma same_dir_block_ok: "same_dir d d' \<Longrightarrow> block_ok d' = block_ok d"
  by (auto simp: same_dir_def block_ok_def fun_eq_iff split: option.splits)

lemma same_dir_wf: "same_dir d d' \<Longrightarrow> wf_deque d \<Longrightarrow> wf_deque d'"
  by (frule same_dir_block_ok) (simp add: same_dir_def wf_deque_def valid_run_def)

lemma same_dir_iter_at: "same_dir d d' \<Longrightarrow> iter_at d' = iter_at d"
  by (simp add: same_dir_def iter_at_def fun_eq_iff)

lemma same_dir_rep: "same_dir d d' \<Longrightarrow> rep d' = rep d"
  by (simp add: same_dir_def rep_def iter_at_def fun_eq_iff)

lemma same_dir_ptr_at: "same_dir d d' \<Longrightarrow> ptr_at d' = ptr_at d"
  by (simp add: same_dir_def ptr_at_def fun_eq_iff)

lemma gpos_iter_at [simp]: "gpos (iter_at d g) = g"
  by (simp add: gpos_def iter_at_def)

lemma wf_slot:
  assumes "wf_deque d" "ppc_mappos (t_start d) \<le> i" "i \<le> ppc_mappos (t_finish d)"
  shows "\<exists>a. ppc_map d ! nat i = Some a \<and> length (heap d a) = 16"
proof -
  let ?ms = "ppc_mappos (t_start d)" and ?mf = "ppc_mappos (t_finish d)"
  from assms have len: "int (length (ppc_map d)) = t_mapsize d" and b: "0 \<le> ?ms" "?mf < t_mapsize d"
    and la: "list_all (block_ok d) (valid_run d)"
    by (simp_all add: wf_deque_def)
  let ?k = "nat (i - ?ms)"
  from assms b len have k: "?k < length (valid_run d)"
    by (auto simp: valid_run_def)
  from assms b len have nth: "valid_run d ! ?k = ppc_map d ! nat i"
    by (simp add: valid_run_def nat_add_distrib[symmetric])
  from la k have "block_ok d (valid_run d ! ?k)" by (simp add: list_all_length)
  with nth show ?thesis by (auto simp: block_ok_def split: option.splits)
qed

lemma wf_slot_inj:
  assumes "wf_deque d" "ppc_mappos (t_start d) \<le> i" "i \<le> ppc_mappos (t_finish d)"
    "ppc_mappos (t_start d) \<le> j" "j \<le> ppc_mappos (t_finish d)"
    "ppc_map d ! nat i = ppc_map d ! nat j"
  shows "i = j"
proof -
  let ?ms = "ppc_mappos (t_start d)" and ?mf = "ppc_mappos (t_finish d)"
  from assms have len: "int (length (ppc_map d)) = t_mapsize d" and b: "0 \<le> ?ms" "?mf < t_mapsize d"
    and di: "distinct (valid_run d)"
    by (simp_all add: wf_deque_def)
  have nth: "\<And>x. ?ms \<le> x \<Longrightarrow> x \<le> ?mf \<Longrightarrow>
     nat (x - ?ms) < length (valid_run d) \<and> valid_run d ! nat (x - ?ms) = ppc_map d ! nat x"
    using b len by (auto simp: valid_run_def nat_add_distrib[symmetric])
  from nth[OF assms(2,3)] nth[OF assms(4,5)] assms(6)
  have "nat (i - ?ms) < length (valid_run d)" "nat (j - ?ms) < length (valid_run d)"
    "valid_run d ! nat (i - ?ms) = valid_run d ! nat (j - ?ms)" by simp_all
  with di have "nat (i - ?ms) = nat (j - ?ms)" by (simp add: nth_eq_iff_index_eq)
  with assms show ?thesis by simp
qed


lemma dm16_unique:
  fixes g q r :: int
  assumes "g = 16 * q + r" "0 \<le> r" "r < 16"
  shows "g div 16 = q" "g mod 16 = r"
  using assms int_div_pos_eq[of g 16 q r] int_mod_pos_eq[of g 16 q r] by simp_all

lemma dm16_decomp:
  fixes g :: int
  obtains q r where "g = 16 * q + r" "0 \<le> r" "r < 16" "g div 16 = q" "g mod 16 = r"
proof -
  have "g = 16 * (g div 16) + g mod 16" by simp
  moreover have "0 \<le> g mod 16" "g mod 16 < 16" by simp_all
  ultimately show ?thesis using that by blast
qed

lemma succ_wrap:
  fixes g :: int
  assumes "g mod 16 = 15"
  shows "(g + 1) div 16 = g div 16 + 1" "(g + 1) mod 16 = 0"
proof -
  obtain q r where qr: "g = 16 * q + r" "0 \<le> r" "r < 16" "g div 16 = q" "g mod 16 = r"
    by (rule dm16_decomp)
  with assms have "g + 1 = 16 * (q + 1) + 0" by simp
  from dm16_unique[OF this] qr show "(g + 1) div 16 = g div 16 + 1" "(g + 1) mod 16 = 0"
    by simp_all
qed

lemma succ_nowrap:
  fixes g :: int
  assumes "g mod 16 \<noteq> 15"
  shows "(g + 1) div 16 = g div 16" "(g + 1) mod 16 = g mod 16 + 1" "g mod 16 + 1 < 16"
proof -
  obtain q r where qr: "g = 16 * q + r" "0 \<le> r" "r < 16" "g div 16 = q" "g mod 16 = r"
    by (rule dm16_decomp)
  with assms have r: "r + 1 < 16" "0 \<le> r + 1" by simp_all
  from qr have "g + 1 = 16 * q + (r + 1)" by simp
  from dm16_unique[OF this r(2,1)] qr r
  show "(g + 1) div 16 = g div 16" "(g + 1) mod 16 = g mod 16 + 1" "g mod 16 + 1 < 16"
    by simp_all
qed

lemma pred_wrap:
  fixes g :: int
  assumes "g mod 16 = 0"
  shows "(g - 1) div 16 = g div 16 - 1" "(g - 1) mod 16 = 15"
proof -
  obtain q r where qr: "g = 16 * q + r" "0 \<le> r" "r < 16" "g div 16 = q" "g mod 16 = r"
    by (rule dm16_decomp)
  with assms have "g - 1 = 16 * (q - 1) + 15" by simp
  from dm16_unique[OF this] qr show "(g - 1) div 16 = g div 16 - 1" "(g - 1) mod 16 = 15"
    by simp_all
qed

lemma pred_nowrap:
  fixes g :: int
  assumes "g mod 16 \<noteq> 0"
  shows "(g - 1) div 16 = g div 16" "(g - 1) mod 16 = g mod 16 - 1" "0 \<le> g mod 16 - 1"
proof -
  obtain q r where qr: "g = 16 * q + r" "0 \<le> r" "r < 16" "g div 16 = q" "g mod 16 = r"
    by (rule dm16_decomp)
  with assms have r: "0 \<le> r - 1" "r - 1 < 16" by simp_all
  from qr have "g - 1 = 16 * q + (r - 1)" by simp
  from dm16_unique[OF this r] qr r
  show "(g - 1) div 16 = g div 16" "(g - 1) mod 16 = g mod 16 - 1" "0 \<le> g mod 16 - 1"
    by simp_all
qed

lemma div16_mono_lower:
  fixes g m :: int
  assumes "16 * m \<le> g"
  shows "m \<le> g div 16"
proof -
  obtain q r where qr: "g = 16 * q + r" "0 \<le> r" "r < 16" "g div 16 = q" "g mod 16 = r"
    by (rule dm16_decomp)
  with assms show ?thesis by simp
qed

lemma div16_upper:
  fixes g m :: int
  assumes "g \<le> 16 * m + 15"
  shows "g div 16 \<le> m"
proof -
  obtain q r where qr: "g = 16 * q + r" "0 \<le> r" "r < 16" "g div 16 = q" "g mod 16 = r"
    by (rule dm16_decomp)
  with assms show ?thesis by simp
qed

lemma div16_upper_strict:
  fixes g m :: int
  assumes "g < 16 * m + 15" "g mod 16 = 15"
  shows "g div 16 < m"
proof -
  obtain q r where qr: "g = 16 * q + r" "0 \<le> r" "r < 16" "g div 16 = q" "g mod 16 = r"
    by (rule dm16_decomp)
  with assms show ?thesis by simp
qed

lemma div16_lower_strict:
  fixes g m :: int
  assumes "16 * m < g" "g mod 16 = 0"
  shows "m < g div 16"
proof -
  obtain q r where qr: "g = 16 * q + r" "0 \<le> r" "r < 16" "g div 16 = q" "g mod 16 = r"
    by (rule dm16_decomp)
  with assms show ?thesis by simp
qed

lemma wf_bounds:
  assumes "wf_deque d"
  shows "0 \<le> ppc_mappos (t_start d)" "ppc_mappos (t_start d) \<le> ppc_mappos (t_finish d)"
    "ppc_mappos (t_finish d) < int (length (ppc_map d))"
    "16 * ppc_mappos (t_start d) \<le> gpos (t_start d)"
    "gpos (t_start d) \<le> 16 * ppc_mappos (t_start d) + 16"
    "16 * ppc_mappos (t_finish d) \<le> gpos (t_finish d)"
    "gpos (t_finish d) \<le> 16 * ppc_mappos (t_finish d) + 15"
    "gpos (t_start d) \<le> gpos (t_finish d)"
  using assms by (simp_all add: wf_deque_def gpos_def)

lemma read_slot_run:
  assumes "wf_deque d" "ppc_mappos (t_start d) \<le> i" "i \<le> ppc_mappos (t_finish d)"
  shows "read_slot d i = Inr (ppc_map d ! nat i)"
  using assms wf_bounds[OF assms(1)] by (simp add: read_slot_def)

lemma finish_iter_at: "wf_deque d \<Longrightarrow> t_finish d = iter_at d (gpos (t_finish d))"
  by (simp add: wf_deque_def iter_at_def gpos_def)

lemma rep_iter_at [simp]: "rep d (iter_at d g) g"
  by (simp add: rep_def)

lemma rep_gpos: "rep d it g \<Longrightarrow> gpos it = g"
  by (auto simp: rep_def)

lemma start_rep: "wf_deque d \<Longrightarrow> rep d (t_start d) (gpos (t_start d))"
  by (cases "pc_corepos (t_start d) = 16")
     (auto simp: wf_deque_def rep_def iter_at_def gpos_def)

lemma finish_rep: "wf_deque d \<Longrightarrow> rep d (t_finish d) (gpos (t_finish d))"
  using finish_iter_at[of d] by (metis rep_iter_at)

lemma after_divmod:
  fixes g m :: int
  assumes "g = 16 * m + 16"
  shows "g div 16 = m + 1" "g mod 16 = 0" "(g + 1) div 16 = m + 1" "(g + 1) mod 16 = 1"
    "(g - 1) div 16 = m" "(g - 1) mod 16 = 15"
proof -
  from assms have a: "g = 16 * (m + 1) + 0" "g + 1 = 16 * (m + 1) + 1" "g - 1 = 16 * m + 15"
    by simp_all
  show "g div 16 = m + 1" "g mod 16 = 0" using dm16_unique[OF a(1)] by simp_all
  show "(g + 1) div 16 = m + 1" "(g + 1) mod 16 = 1" using dm16_unique[OF a(2)] by simp_all
  show "(g - 1) div 16 = m" "(g - 1) mod 16 = 15" using dm16_unique[OF a(3)] by simp_all
qed

lemma run_div:
  assumes wf: "wf_deque d" and "gpos (t_start d) \<le> g" "g \<le> gpos (t_finish d)"
  shows "ppc_mappos (t_start d) \<le> g div 16" "g div 16 \<le> ppc_mappos (t_finish d)"
proof -
  note b = wf_bounds[OF wf]
  from assms b(4) have "16 * ppc_mappos (t_start d) \<le> g" by simp
  then show "ppc_mappos (t_start d) \<le> g div 16" by (rule div16_mono_lower)
  from assms b(7) have "g \<le> 16 * ppc_mappos (t_finish d) + 15" by simp
  then show "g div 16 \<le> ppc_mappos (t_finish d)" by (rule div16_upper)
qed

lemma next_rep:
  assumes wf: "wf_deque d" and r: "rep d it g"
    and lo: "gpos (t_start d) \<le> g" and hi: "g < gpos (t_finish d)"
  shows "deque_iterator_next d it = Inr (iter_at d (g + 1))"
proof -
  note b = wf_bounds[OF wf]
  from lo hi have rd: "ppc_mappos (t_start d) \<le> (g + 1) div 16"
    "(g + 1) div 16 \<le> ppc_mappos (t_finish d)"
    using run_div[OF wf, of "g + 1"] by simp_all
  note rs = read_slot_run[OF wf rd]
  from r consider (canon) "it = iter_at d g"
    | (after) "pc_corepos it = 16" "gpos it = g" "pc_first it = ppc_map d ! nat (ppc_mappos it)"
    by (auto simp: rep_def)
  then show ?thesis
  proof cases
    case canon
    show ?thesis
    proof (cases "g mod 16 = 15")
      case True
      note sw = succ_wrap[OF True]
      from hi b(7) have "g < 16 * ppc_mappos (t_finish d) + 15" by simp
      from div16_upper_strict[OF this True] have lt: "g div 16 < ppc_mappos (t_finish d)" .
      from rs True lt sw canon
      show ?thesis by (simp add: deque_iterator_next_def iter_at_def Let_def)
    next
      case False
      note sn = succ_nowrap[OF False]
      with canon show ?thesis by (simp add: deque_iterator_next_def iter_at_def Let_def)
    qed
  next
    case after
    from after have g: "g = 16 * ppc_mappos it + 16" by (simp add: gpos_def)
    note ad = after_divmod[OF g]
    from g hi b(7) have lt: "ppc_mappos it < ppc_mappos (t_finish d)" by simp
    from rs after lt ad
    show ?thesis by (simp add: deque_iterator_next_def iter_at_def Let_def)
  qed
qed

lemma prev_rep:
  assumes wf: "wf_deque d" and r: "rep d it g"
    and lo: "gpos (t_start d) < g" and hi: "g \<le> gpos (t_finish d)"
  shows "deque_iterator_prev d it = Inr (iter_at d (g - 1))"
proof -
  note b = wf_bounds[OF wf]
  from lo hi have rd: "ppc_mappos (t_start d) \<le> (g - 1) div 16"
    "(g - 1) div 16 \<le> ppc_mappos (t_finish d)"
    using run_div[OF wf, of "g - 1"] by simp_all
  note rs = read_slot_run[OF wf rd]
  from r consider (canon) "it = iter_at d g"
    | (after) "pc_corepos it = 16" "gpos it = g" "pc_first it = ppc_map d ! nat (ppc_mappos it)"
    by (auto simp: rep_def)
  then show ?thesis
  proof cases
    case canon
    show ?thesis
    proof (cases "g mod 16 = 0")
      case True
      note pw = pred_wrap[OF True]
      from lo b(4) have "16 * ppc_mappos (t_start d) < g" by simp
      from div16_lower_strict[OF this True] have gt: "ppc_mappos (t_start d) < g div 16" .
      from rs True gt pw canon
      show ?thesis by (simp add: deque_iterator_prev_def iter_at_def Let_def)
    next
      case False
      note pn = pred_nowrap[OF False]
      with canon show ?thesis by (simp add: deque_iterator_prev_def iter_at_def Let_def)
    qed
  next
    case after
    from after have g: "g = 16 * ppc_mappos it + 16" by (simp add: gpos_def)
    note ad = after_divmod[OF g]
    with after show ?thesis by (simp add: deque_iterator_prev_def iter_at_def Let_def)
  qed
qed

lemma equal_rep:
  assumes "rep d a g" "rep d b h"
  shows "deque_iterator_equal a b \<longleftrightarrow> g = h"
proof
  assume "deque_iterator_equal a b"
  then have "gpos a = gpos b" by (rule deque_iterator_equal_gpos)
  with assms show "g = h" by (simp add: rep_gpos)
next
  assume gh: "g = h"
  from assms gh consider (cc) "a = iter_at d g" "b = iter_at d g"
    | (ca) "a = iter_at d g" "pc_corepos b = 16" "gpos b = g"
    | (ac) "pc_corepos a = 16" "gpos a = g" "b = iter_at d g"
    | (aa) "pc_corepos a = 16" "gpos a = g" "pc_first a = ppc_map d ! nat (ppc_mappos a)"
           "pc_corepos b = 16" "gpos b = g" "pc_first b = ppc_map d ! nat (ppc_mappos b)"
    by (auto simp: rep_def)
  then show "deque_iterator_equal a b"
  proof cases
    case cc
    then show ?thesis by (simp add: deque_iterator_equal_def)
  next
    case ca
    from ca(2,3) have g: "g = 16 * ppc_mappos b + 16" by (simp add: gpos_def)
    note ad = after_divmod[OF g]
    with ca show ?thesis by (simp add: deque_iterator_equal_def iter_at_def)
  next
    case ac
    from ac(1,2) have g: "g = 16 * ppc_mappos a + 16" by (simp add: gpos_def)
    note ad = after_divmod[OF g]
    with ac show ?thesis by (simp add: deque_iterator_equal_def iter_at_def)
  next
    case aa
    from aa have "ppc_mappos a = ppc_mappos b" by (simp add: gpos_def)
    with aa show ?thesis by (simp add: deque_iterator_equal_def)
  qed
qed

lemma ptr_rep:
  assumes wf: "wf_deque d" and r: "rep d it g"
    and lo: "gpos (t_start d) \<le> g" and hi: "g < gpos (t_finish d)"
  shows "deque_iterator_get_pointer_auxiliary d it = Inr (ptr_at d g)"
proof -
  note b = wf_bounds[OF wf]
  from equal_rep[OF r finish_rep[OF wf]] hi
  have ne: "\<not> deque_iterator_equal it (deque_end d)" by (simp add: deque_end_def)
  from lo hi have rd: "ppc_mappos (t_start d) \<le> g div 16" "g div 16 \<le> ppc_mappos (t_finish d)"
    using run_div[OF wf, of g] by simp_all
  from wf_slot[OF wf rd] obtain a where a: "ppc_map d ! nat (g div 16) = Some a" by auto
  have m16: "g mod 16 \<noteq> 16" using pos_mod_bound[of 16 g] by simp
  from r consider (canon) "it = iter_at d g"
    | (after) "pc_corepos it = 16" "gpos it = g" "pc_first it = ppc_map d ! nat (ppc_mappos it)"
    by (auto simp: rep_def)
  then show ?thesis
  proof cases
    case canon
    with ne a m16 show ?thesis
      by (simp add: deque_iterator_get_pointer_auxiliary_def iter_at_def ptr_at_def)
  next
    case after
    from after have g: "g = 16 * ppc_mappos it + 16" by (simp add: gpos_def)
    note ad = after_divmod[OF g]
    from read_slot_run[OF wf rd] ad a after ne show ?thesis
      by (simp add: deque_iterator_get_pointer_auxiliary_def ptr_at_def)
  qed
qed


lemma less_walk_rep:
  assumes wf: "wf_deque d" and rb: "rep d b h"
  shows "rep d a g \<Longrightarrow> gpos (t_start d) \<le> g \<Longrightarrow> g \<le> gpos (t_finish d) \<Longrightarrow>
         less_walk d a b = Inr (g \<le> h \<and> h \<le> gpos (t_finish d))"
proof (induction "nat (gpos (t_finish d) - g)" arbitrary: a g)
  case 0
  then have g: "g = gpos (t_finish d)" by simp
  with equal_rep[OF "0.prems"(1) finish_rep[OF wf]]
  have e: "deque_iterator_equal a (t_finish d)" by simp
  from equal_rep[OF rb finish_rep[OF wf]] e g show ?case
    by (subst less_walk.simps) auto
next
  case (Suc n)
  then have lt: "g < gpos (t_finish d)" by simp
  with equal_rep[OF Suc.prems(1) finish_rep[OF wf]]
  have ne: "\<not> deque_iterator_equal a (t_finish d)" by simp
  show ?case
  proof (cases "g = h")
    case True
    with equal_rep[OF Suc.prems(1) rb] have "deque_iterator_equal a b" by simp
    with ne True lt show ?thesis by (subst less_walk.simps) simp
  next
    case False
    with equal_rep[OF Suc.prems(1) rb] have nb: "\<not> deque_iterator_equal a b" by simp
    from rep_gpos[OF Suc.prems(1)] lt have nd: "\<not> (gpos (t_finish d) \<le> gpos a \<and> gpos b \<le> gpos a)"
      by simp
    note nx = next_rep[OF wf Suc.prems(1,2) lt]
    from Suc.hyps(2) have n: "n = nat (gpos (t_finish d) - (g + 1))" by simp
    from Suc.hyps(1)[OF n rep_iter_at] Suc.prems(2) lt
    have "less_walk d (iter_at d (g + 1)) b = Inr (g + 1 \<le> h \<and> h \<le> gpos (t_finish d))"
      by simp
    with ne nb nd nx False show ?thesis
      by (subst less_walk.simps) auto
  qed
qed

lemma less_rep:
  assumes "wf_deque d" "rep d a g" "rep d b h"
    "gpos (t_start d) \<le> g" "g \<le> gpos (t_finish d)"
  shows "deque_iterator_less d a b = Inr (g < h \<and> h \<le> gpos (t_finish d))"
  using less_walk_rep[OF assms(1,3,2,4,5)] equal_rep[OF assms(2,3)]
  by (auto simp: deque_iterator_less_def)

lemma minus_rep:
  assumes wf: "wf_deque d" and ra: "rep d a g" and rb: "rep d b h"
    and "gpos (t_start d) \<le> g" "g \<le> gpos (t_finish d)" "h \<le> gpos (t_finish d)"
  shows "deque_iterator_minus d a b = Inr (g - h)"
proof -
  from less_rep[OF wf ra rb assms(4,5)] assms(6)
  have l: "deque_iterator_before d a b = Inr (g < h)"
    by (simp add: deque_iterator_before_def)
  from rep_gpos[OF ra] rep_gpos[OF rb]
  have gp: "ppc_mappos a * 16 + pc_corepos a = g" "ppc_mappos b * 16 + pc_corepos b = h"
    by (simp_all add: gpos_def)
  show ?thesis
  proof (cases "g < h")
    case True
    with l gp show ?thesis by (simp add: deque_iterator_minus_def Let_def algebra_simps)
  next
    case False
    with l gp equal_rep[OF ra rb] show ?thesis
      by (auto simp: deque_iterator_minus_def Let_def algebra_simps)
  qed
qed

lemma distance_rep:
  assumes "wf_deque d" "rep d a g" "rep d b h"
    "g \<le> gpos (t_finish d)" "gpos (t_start d) \<le> h" "h \<le> gpos (t_finish d)"
  shows "iterator_distance d a b = Inr (h - g)"
  using minus_rep[OF assms(1,3,2,5,6,4)] by (simp add: iterator_distance_def)

lemma deque_size_wf:
  assumes "wf_deque d"
  shows "deque_size d = Inr (gpos (t_finish d) - gpos (t_start d))"
  using distance_rep[OF assms start_rep[OF assms] finish_rep[OF assms]] wf_bounds(8)[OF assms]
  by (simp add: deque_size_def)

lemma next_times_rep:
  assumes wf: "wf_deque d"
  shows "rep d it g \<Longrightarrow> gpos (t_start d) \<le> g \<Longrightarrow> g + int n \<le> gpos (t_finish d) \<Longrightarrow>
         iter_next_times d n it = Inr (if n = 0 then it else iter_at d (g + int n))"
proof (induction n arbitrary: it g)
  case 0
  show ?case by simp
next
  case (Suc n)
  then have lt: "g < gpos (t_finish d)" by simp
  note nx = next_rep[OF wf Suc.prems(1,2) lt]
  from Suc.IH[OF rep_iter_at, of "g + 1"] Suc.prems
  have "iter_next_times d n (iter_at d (g + 1)) =
          Inr (if n = 0 then iter_at d (g + 1) else iter_at d (g + 1 + int n))" by simp
  with nx show ?case by (simp add: add.commute add.left_commute)
qed

lemma prev_times_rep:
  assumes wf: "wf_deque d"
  shows "rep d it g \<Longrightarrow> gpos (t_start d) \<le> g - int n \<Longrightarrow> g \<le> gpos (t_finish d) \<Longrightarrow>
         iter_prev_times d n it = Inr (if n = 0 then it else iter_at d (g - int n))"
proof (induction n arbitrary: it g)
  case 0
  show ?case by simp
next
  case (Suc n)
  then have gt: "gpos (t_start d) < g" by simp
  note pv = prev_rep[OF wf Suc.prems(1) gt Suc.prems(3)]
  from Suc.IH[OF rep_iter_at, of "g - 1"] Suc.prems
  have "iter_prev_times d n (iter_at d (g - 1)) =
          Inr (if n = 0 then iter_at d (g - 1) else iter_at d (g - 1 - int n))" by simp
  with pv show ?case by (simp add: algebra_simps)
qed


section \<open>Example states\<close>

text \<open>
  The state of an \<open>int\<close> deque after \<open>deque_init_n\<close> with count 0 and three
  \<open>push_back\<close> calls (values 1, 2, 3), with an empty event log: the directory has 16
  slots, the blocks stand in slots 7 and 8, the first block is still empty.
\<close>

definition ex_deque :: "int deque" where
  "ex_deque =
     \<lparr>heap = (\<lambda>_. [])(0 := replicate 16 Raw, 1 := [Live 1, Live 2, Live 3] @ replicate 13 Raw),
      next_addr = 2,
      ppc_map = [None, None, None, None, None, None, None, Some 0, Some 1,
                 None, None, None, None, None, None, None],
      t_mapsize = 16,
      t_start = \<lparr>ppc_mappos = 7, pc_first = Some 0, pc_corepos = 16\<rparr>,
      t_finish = \<lparr>ppc_mappos = 8, pc_first = Some 1, pc_corepos = 3\<rparr>,
      sz_typename = ''int'', pt_type = 1, t_style = TYPE_C_BUILTIN,
      t_typeinit = 0, t_typeless = (<), evlog = []\<rparr>"

text \<open>
  The state of an \<open>int\<close> deque after \<open>deque_init_n\<close> with count 209 (empty event
  log): 15 of the 16 directory slots hold a block.  The begin iterator stands after
  the last slot of the first block, which holds no element; the 209 elements are the
  cells of the 13 blocks that follow and the first cell of the last block.
\<close>

definition ex_full :: "int deque" where
  "ex_full =
     \<lparr>heap = (\<lambda>a. if a = 0 then replicate 16 Raw
                  else if a < 14 then replicate 16 (Live 0)
                  else if a = 14 then Live 0 # replicate 15 Raw
                  else []),
      next_addr = 15,
      ppc_map = [Some 0, Some 1, Some 2, Some 3, Some 4, Some 5, Some 6, Some 7, Some 8,
                 Some 9, Some 10, Some 11, Some 12, Some 13, Some 14, None],
      t_mapsize = 16,
      t_start = \<lparr>ppc_mappos = 0, pc_first = Some 0, pc_corepos = 16\<rparr>,
      t_finish = \<lparr>ppc_mappos = 14, pc_first = Some 14, pc_corepos = 1\<rparr>,
      sz_typename = ''int'', pt_type = 1, t_style = TYPE_C_BUILTIN,
      t_typeinit = 0, t_typeless = (<), evlog = []\<rparr>"


text \<open>
  Two states have the same memory when they agree on the directory, the iterators, the
  type descriptor and the blocks handed out so far; the event log is not compared.
\<close>

definition same_memory :: "'a deque \<Rightarrow> 'a deque \<Rightarrow> bool" where
  "same_memory d e \<longleftrightarrow>
     ppc_map d = ppc_map e \<and> t_mapsize d = t_mapsize e \<and>
     t_start d = t_start e \<and> t_finish d = t_finish e \<and> next_addr d = next_addr e \<and>
     map (heap d) [0..<Suc (next_addr e)] = map (heap e) [0..<Suc (next_addr e)] \<and>
     sz_typename d = sz_typename e \<and> pt_type d = pt_type e \<and> t_style d = t_style e \<and>
     t_typeinit d = t_typeinit e"

definition built_by_push_back :: "int deque \<Rightarrow> bool" where
  "built_by_push_back e \<longleftrightarrow>
     (case deque_init_n (create_deque ''int'' 1 TYPE_C_BUILTIN 0 (<)) 0 of
        Inl _ \<Rightarrow> False
      | Inr d0 \<Rightarrow>
          (case deque_push_back d0 1 of
             Inl _ \<Rightarrow> False
           | Inr d1 \<Rightarrow>
               (case deque_push_back d1 2 of
                  Inl _ \<Rightarrow> False
                | Inr d2 \<Rightarrow>
                    (case deque_push_back d2 3 of
                       Inl _ \<Rightarrow> False
                     | Inr d3 \<Rightarrow> same_memory d3 e))))"

definition built_by_init_n :: "nat \<Rightarrow> int deque \<Rightarrow> bool" where
  "built_by_init_n n e \<longleftrightarrow>
     (case deque_init_n (create_deque ''int'' 1 TYPE_C_BUILTIN 0 (<)) n of
        Inl _ \<Rightarrow> False
      | Inr d \<Rightarrow> same_memory d e)"

lemma ex_deque_built: "built_by_push_back ex_deque"
  by code_simp

lemma ex_full_built: "built_by_init_n 209 ex_full"
  by code_simp

text \<open>The state \<open>ex_deque\<close> for a deque of another element type.\<close>

definition ex_long :: "int deque" where
  "ex_long = ex_deque\<lparr>sz_typename := ''long'', pt_type := 2\<rparr>"

section \<open>Comparing deques of different element types\<close>

lemma ex_types_differ: "\<not> deque_same_type ex_deque ex_long"
  by (simp add: deque_same_type_def type_is_same_def ex_deque_def ex_long_def)

text \<open>
  Claim C4, as stated: comparing two deques whose element types differ, with
  \<open>deque_equal\<close> or with \<open>deque_less\<close>, is a contract error detected by an assertion
  and is not reported through a return value.  For \<open>deque_equal\<close> this is not what the
  code does: the two example deques differ in their element type and \<open>deque_equal\<close>
  returns \<open>false\<close>.
\<close>

theorem C4_equal_returns_false_counterexample:
  "\<not> deque_same_type ex_deque ex_long \<and> deque_equal ex_deque ex_long = Inr False"
  by (simp add: deque_same_type_def type_is_same_def deque_equal_def ex_deque_def ex_long_def)

text \<open>
  Claim C4, amended: for two deques whose element types differ, \<open>deque_less\<close> is a
  contract error detected by an assertion, while \<open>deque_equal\<close> (on initialised deques)
  has an explicit type guard and returns \<open>false\<close>.
\<close>

theorem C4_type_mismatch:
  assumes "\<not> deque_same_type d1 d2"
  shows "deque_less d1 d2 = Inl AssertFail \<and>
         (0 < t_mapsize d1 \<and> 0 < t_mapsize d2 \<longrightarrow> deque_equal d1 d2 = Inr False)"
  using assms by (simp add: deque_less_def deque_equal_def)

theorem C4_type_mismatch_witness:
  "\<not> deque_same_type ex_deque ex_long \<and> deque_less ex_deque ex_long = Inl AssertFail \<and>
   0 < t_mapsize ex_deque \<and> 0 < t_mapsize ex_long \<and> deque_equal ex_deque ex_long = Inr False"
  using C4_type_mismatch[OF ex_types_differ] ex_types_differ
  by (simp add: ex_deque_def ex_long_def)


section \<open>Erasing an empty range\<close>

lemma deque_iterator_equal_refl [simp]: "deque_iterator_equal p p"
  by (simp add: deque_iterator_equal_def)

lemma iterator_distance_same: "iterator_distance d p p = Inr 0"
  by (simp add: iterator_distance_def deque_iterator_minus_def deque_iterator_before_def
      deque_iterator_less_def)

lemma for_range_empty: "deque_iterator_equal a e \<Longrightarrow> for_range body a e d = Inr d"
  by (subst for_range.simps) simp

lemma free_blocks_up_empty: "l < p \<Longrightarrow> free_blocks_up d p l = Inr d"
  by (subst free_blocks_up.simps) simp

lemma shrink_at_end_zero:
  assumes "wf_deque d"
  shows "shrink_at_end d 0 = Inr d"
proof -
  from deque_size_wf[OF assms] wf_bounds(8)[OF assms]
  obtain n where n: "deque_size d = Inr n" "0 \<le> n" by simp
  then have "(if int 0 < n then int 0 else n) = 0" by simp
  with n show ?thesis
    by (simp add: shrink_at_end_def Let_def deque_iterator_prev_n_def deque_iterator_next_n_def
        deque_end_def for_range_empty free_blocks_up_empty)
qed

lemma ex_deque_wf: "wf_deque ex_deque"
  by (simp add: wf_deque_def ex_deque_def valid_run_def block_ok_def gpos_def)

text \<open>
  Claim C10: for every (well-formed) deque \<open>d\<close> and every position \<open>p\<close>,
  \<open>erase_range(d, p, p)\<close> leaves the deque completely unchanged and returns \<open>p\<close>:
  the move engine is called with move size 0 and copies nothing, \<open>_shrink_at_end\<close>
  is called with 0 and neither destroys an element nor frees a block.
\<close>

theorem C10_erase_empty_range:
  assumes "wf_deque d"
  shows "deque_erase_range d p p = Inr (d, p)"
  using shrink_at_end_zero[OF assms]
  by (simp add: deque_erase_range_def iterator_distance_same move_elem_to_begin_def
      deque_iterator_prev_n_def deque_iterator_next_n_def)

theorem C10_erase_empty_range_witness:
  "wf_deque ex_deque \<and>
   deque_erase_range ex_deque (t_start ex_deque) (t_start ex_deque) =
     Inr (ex_deque, t_start ex_deque)"
  using C10_erase_empty_range[OF ex_deque_wf] ex_deque_wf by simp



section \<open>The capacity of the directory\<close>

lemma for_range_invariant:
  "for_range body t e d = Inr d' \<Longrightarrow>
   (\<And>t d d'. body t d = Inr d' \<Longrightarrow> P d \<Longrightarrow> P d') \<Longrightarrow> P d \<Longrightarrow> P d'"
proof (induction body t e d rule: for_range.induct)
  case (1 body t e d)
  note run = "1.prems"(1)[unfolded for_range.simps[of body t e d]]
  show ?case
  proof (cases "deque_iterator_equal t e")
    case True
    with run "1.prems"(3) show ?thesis by simp
  next
    case False
    with run have ndiv: "\<not> gpos e \<le> gpos t" by (auto split: if_splits)
    from False ndiv run obtain d1 t1 where
      b: "body t d = Inr d1" and n: "deque_iterator_next d1 t = Inr t1" and
      r: "for_range body t1 e d1 = Inr d'"
      by (auto split: sum.splits)
    from "1.prems"(2)[OF b "1.prems"(3)] have "P d1" .
    from "1.IH"[OF False ndiv b n r "1.prems"(2) this] show ?thesis by simp
  qed
qed

lemma write_cell_same_dir: "write_cell d p c = Inr d' \<Longrightarrow> same_dir d d' \<and> evlog d' = evlog d"
  by (auto simp: write_cell_def same_dir_def split: option.splits if_splits)

lemma init_at_same_dir: "init_at t d = Inr d' \<Longrightarrow> same_dir d d'"
  by (auto simp: init_at_def init_elem_def same_dir_def dest!: write_cell_same_dir
      split: sum.splits)

lemma destroy_at_same_dir: "destroy_at t d = Inr d' \<Longrightarrow> same_dir d d'"
  by (auto simp: destroy_at_def destroy_elem_def same_dir_def dest!: write_cell_same_dir
      split: sum.splits)

lemma store_at_same_dir: "store_at v t d = Inr d' \<Longrightarrow> same_dir d d'"
  by (auto simp: store_at_def store_elem_def same_dir_def dest!: write_cell_same_dir
      split: sum.splits)

lemma copy_at_same_dir: "copy_at d a b = Inr d' \<Longrightarrow> same_dir d d'"
  by (auto simp: copy_at_def copy_elem_def same_dir_def dest!: write_cell_same_dir
      split: sum.splits)

lemma for_range_same_dir:
  assumes "for_range body t e d = Inr d'"
    and "\<And>t d d'. body t d = Inr d' \<Longrightarrow> same_dir d d'"
  shows "same_dir d d'"
  by (rule for_range_invariant[OF assms(1), where P = "same_dir d"])
     (auto dest: assms(2) intro: same_dir_trans)

lemma same_dir_mapsize: "same_dir d d' \<Longrightarrow> t_mapsize d' = t_mapsize d"
  by (simp add: same_dir_def)

lemma alloc_blocks_up_mapsize:
  "alloc_blocks_up d n p = Inr d' \<Longrightarrow> t_mapsize d' = t_mapsize d"
  by (induction n arbitrary: d p)
     (auto simp: write_slot_def allocate_block_def split: sum.splits if_splits)

lemma alloc_blocks_down_mapsize:
  "alloc_blocks_down d n p = Inr d' \<Longrightarrow> t_mapsize d' = t_mapsize d"
  by (induction n arbitrary: d p)
     (auto simp: write_slot_def allocate_block_def split: sum.splits if_splits)

lemma free_blocks_up_mapsize:
  "free_blocks_up d p l = Inr d' \<Longrightarrow> t_mapsize d' = t_mapsize d"
proof (induction d p l rule: free_blocks_up.induct)
  case (1 d p l)
  from "1.prems" show ?case
    by (subst (asm) free_blocks_up.simps)
       (auto simp: write_slot_def deallocate_block_def dest!: "1.IH"
             split: if_splits sum.splits option.splits)
qed

lemma free_blocks_down_mapsize:
  "free_blocks_down d p l = Inr d' \<Longrightarrow> t_mapsize d' = t_mapsize d"
proof (induction d p l rule: free_blocks_down.induct)
  case (1 d p l)
  from "1.prems" show ?case
    by (subst (asm) free_blocks_down.simps)
       (auto simp: write_slot_def deallocate_block_def dest!: "1.IH"
             split: if_splits sum.splits option.splits)
qed


lemma move_fwd_same_dir:
  "move_fwd d tb te b e = Inr (d', tb', b') \<Longrightarrow> same_dir d d'"
proof (induction d tb te b e rule: move_fwd.induct)
  case (1 d tb te b e)
  note run = "1.prems"[unfolded move_fwd.simps[of d tb te b e]]
  show ?case
  proof (cases "deque_iterator_less d tb te = Inr True \<and> deque_iterator_less d b e = Inr True")
    case False
    with run have "d' = d" by (auto split: sum.splits if_splits)
    then show ?thesis by simp
  next
    case True
    with run obtain d1 tb1 b1 where
      c: "copy_at d tb b = Inr d1" and n1: "deque_iterator_next d1 tb = Inr tb1"
      and n2: "deque_iterator_next d1 b = Inr b1"
      and r: "move_fwd d1 tb1 te b1 e = Inr (d', tb', b')"
      by (auto split: sum.splits)
    from True have l1: "deque_iterator_less d tb te = Inr True"
      and l2: "deque_iterator_less d b e = Inr True" by simp_all
    from "1.IH"[OF l1 _ l2 _ c n1 n2 r] have "same_dir d1 d'" by simp
    with copy_at_same_dir[OF c] show ?thesis by (rule same_dir_trans)
  qed
qed

lemma move_bwd_same_dir:
  "move_bwd d tb te b e = Inr (d', te', e') \<Longrightarrow> same_dir d d'"
proof (induction d tb te b e rule: move_bwd.induct)
  case (1 d tb te b e)
  note run = "1.prems"[unfolded move_bwd.simps[of d tb te b e]]
  show ?case
  proof (cases "deque_iterator_less d te tb = Inr False \<and> deque_iterator_less d e b = Inr False")
    case False
    with run have "d' = d" by (auto split: sum.splits if_splits)
    then show ?thesis by simp
  next
    case True
    with run obtain d1 te1 e1 where
      c: "copy_at d te e = Inr d1" and n1: "deque_iterator_prev d1 te = Inr te1"
      and n2: "deque_iterator_prev d1 e = Inr e1"
      and r: "move_bwd d1 tb te1 b e1 = Inr (d', te', e')"
      by (auto split: sum.splits)
    from True have l1: "deque_iterator_less d te tb = Inr False"
      and l2: "deque_iterator_less d e b = Inr False" by simp_all
    from "1.IH"[OF l1 _ l2 _ c n1 n2 r] have "same_dir d1 d'" by simp
    with copy_at_same_dir[OF c] show ?thesis by (rule same_dir_trans)
  qed
qed

lemma store_times_same_dir:
  "store_times v n t d = Inr d' \<Longrightarrow> same_dir d d'"
proof (induction n arbitrary: t d)
  case 0
  then show ?case by simp
next
  case (Suc n)
  from Suc.prems obtain d1 t1 where s: "store_at v t d = Inr d1"
    and r: "store_times v n t1 d1 = Inr d'"
    by (auto split: sum.splits)
  from store_at_same_dir[OF s] Suc.IH[OF r] show ?case by (rule same_dir_trans)
qed

lemma move_elem_to_begin_same_dir:
  "move_elem_to_begin d b e k = Inr (d', t) \<Longrightarrow> same_dir d d'"
  by (auto simp: move_elem_to_begin_def dest: move_fwd_same_dir
      split: if_splits sum.splits prod.splits)

lemma move_elem_to_end_same_dir:
  "move_elem_to_end d b e k = Inr (d', t) \<Longrightarrow> same_dir d d'"
  by (auto simp: move_elem_to_end_def dest: move_bwd_same_dir
      split: if_splits sum.splits prod.splits)

lemma shrink_at_end_mapsize:
  "shrink_at_end d k = Inr d' \<Longrightarrow> t_mapsize d' = t_mapsize d"
  by (auto simp: shrink_at_end_def Let_def
      dest!: free_blocks_up_mapsize for_range_same_dir[OF _ destroy_at_same_dir] same_dir_mapsize
      split: sum.splits)

lemma shrink_at_begin_mapsize:
  "shrink_at_begin d k = Inr d' \<Longrightarrow> t_mapsize d' = t_mapsize d"
  by (auto simp: shrink_at_begin_def Let_def
      dest!: free_blocks_down_mapsize for_range_same_dir[OF _ destroy_at_same_dir] same_dir_mapsize
      split: sum.splits)


lemma growsize_for_least:
  "8 dvd growsize_for x" "x \<le> growsize_for x" "growsize_for x < x + 8"
proof -
  have e: "(x + 7) div 8 * 8 + (x + 7) mod 8 = x + 7" by simp
  have m: "0 \<le> (x + 7) mod 8" "(x + 7) mod 8 < 8" by simp_all
  show "8 dvd growsize_for x" by (simp add: growsize_for_def)
  from e m show "x \<le> growsize_for x" "growsize_for x < x + 8"
    unfolding growsize_for_def by linarith+
qed

lemma grow_map_at_end_mapsize:
  "grow_map_at_end d cs oe pos = Inr (d', oe', pp) \<Longrightarrow>
   t_mapsize d' = t_mapsize d + growsize_for (cs - remain_map_size d)"
  unfolding grow_map_at_end_def Let_def by (auto split: sum.splits)

lemma shift_map_at_end_mapsize:
  "shift_map_at_end d cs oe pos = Inr (d', oe', pp) \<Longrightarrow> t_mapsize d' = t_mapsize d"
  unfolding shift_map_at_end_def Let_def by (auto split: sum.splits)

lemma grow_map_at_begin_mapsize:
  "grow_map_at_begin d cs oe pos = Inr (d', oe', pp) \<Longrightarrow>
   t_mapsize d' = t_mapsize d + growsize_for (cs - remain_map_size d)"
  unfolding grow_map_at_begin_def Let_def by (auto split: sum.splits)

lemma shift_map_at_begin_mapsize:
  "shift_map_at_begin d cs oe pos = Inr (d', oe', pp) \<Longrightarrow> t_mapsize d' = t_mapsize d"
  unfolding shift_map_at_begin_def Let_def by (auto split: sum.splits)

lemma expand_at_end_blocks_mapsize:
  assumes "expand_at_end_blocks d nomem oe pos = Inr (d', oe', pp)"
  shows "t_mapsize d' =
     (if remain_map_size d < containers_for nomem
      then t_mapsize d + growsize_for (containers_for nomem - remain_map_size d)
      else t_mapsize d)"
proof -
  let ?cs = "containers_for nomem"
  let ?ph = "if ?cs > remain_map_size d then grow_map_at_end d ?cs oe pos
     else if ?cs > t_mapsize d - ppc_mappos oe - 1 \<and> ?cs \<le> remain_map_size d
     then shift_map_at_end d ?cs oe pos else Inr (d, oe, pos)"
  from assms obtain d1 oe1 pos1 d2 where
    ph: "?ph = Inr (d1, oe1, pos1)"
    and al: "alloc_blocks_up d1 (nat ?cs) (ppc_mappos oe1 + 1) = Inr d2"
    and d': "t_mapsize d' = t_mapsize d2"
    unfolding expand_at_end_blocks_def Let_def
    by (auto split: sum.splits prod.splits)
  from ph have "t_mapsize d1 =
     (if remain_map_size d < ?cs then t_mapsize d + growsize_for (?cs - remain_map_size d)
      else t_mapsize d)"
    by (auto dest: grow_map_at_end_mapsize shift_map_at_end_mapsize split: if_splits)
  with alloc_blocks_up_mapsize[OF al] d' show ?thesis by simp
qed

lemma expand_at_begin_blocks_mapsize:
  assumes "expand_at_begin_blocks d nomem ob pos = Inr (d', ob', pp)"
  shows "t_mapsize d' =
     (if remain_map_size d < containers_for nomem
      then t_mapsize d + growsize_for (containers_for nomem - remain_map_size d)
      else t_mapsize d)"
proof -
  let ?cs = "containers_for nomem"
  let ?ph = "if ?cs > remain_map_size d then grow_map_at_begin d ?cs ob pos
     else if ?cs > ppc_mappos ob \<and> ?cs \<le> remain_map_size d
     then shift_map_at_begin d ?cs ob pos else Inr (d, ob, pos)"
  from assms obtain d1 ob1 pos1 d2 where
    ph: "?ph = Inr (d1, ob1, pos1)"
    and al: "alloc_blocks_down d1 (nat ?cs) (ppc_mappos ob1 - 1) = Inr d2"
    and d': "t_mapsize d' = t_mapsize d2"
    unfolding expand_at_begin_blocks_def Let_def
    by (auto split: sum.splits prod.splits)
  from ph have "t_mapsize d1 =
     (if remain_map_size d < ?cs then t_mapsize d + growsize_for (?cs - remain_map_size d)
      else t_mapsize d)"
    by (auto dest: grow_map_at_begin_mapsize shift_map_at_begin_mapsize split: if_splits)
  with alloc_blocks_down_mapsize[OF al] d' show ?thesis by simp
qed

lemma expand_at_end_mapsize:
  assumes "expand_at_end d t pos = Inr (d', oe, pp)"
  shows "t_mapsize d' =
     (if int t < DEQUE_ELEM_COUNT - pc_corepos (t_finish d) then t_mapsize d
      else if remain_map_size d
              < containers_for (int t - (DEQUE_ELEM_COUNT - pc_corepos (t_finish d)))
      then t_mapsize d + growsize_for
             (containers_for (int t - (DEQUE_ELEM_COUNT - pc_corepos (t_finish d)))
              - remain_map_size d)
      else t_mapsize d)"
proof -
  let ?r = "DEQUE_ELEM_COUNT - pc_corepos (t_finish d)"
  let ?ph = "if int t < ?r
     then Inr (d\<lparr>t_finish := (t_finish d)\<lparr>pc_corepos := pc_corepos (t_finish d) + int t\<rparr>\<rparr>,
               t_finish d, pos)
     else expand_at_end_blocks d (int t - ?r) (t_finish d) pos"
  from assms obtain d1 oe1 pos1 where ph: "?ph = Inr (d1, oe1, pos1)"
    and it: "deque_init_elem_range_auxiliary d1 oe1 (deque_end d1) = Inr d'"
    unfolding expand_at_end_def Let_def deque_end_def
    by (auto split: sum.splits prod.splits)
  from it have "same_dir d1 d'"
    unfolding deque_init_elem_range_auxiliary_def
    by (rule for_range_same_dir) (rule init_at_same_dir)
  then have m: "t_mapsize d' = t_mapsize d1" by (rule same_dir_mapsize)
  show ?thesis
  proof (cases "int t < ?r")
    case True
    with ph m show ?thesis by auto
  next
    case False
    with ph have "expand_at_end_blocks d (int t - ?r) (t_finish d) pos = Inr (d1, oe1, pos1)"
      by simp
    from expand_at_end_blocks_mapsize[OF this] m False show ?thesis by simp
  qed
qed

lemma expand_at_begin_mapsize:
  assumes "expand_at_begin d t pos = Inr (d', ob, pp)"
  shows "t_mapsize d' =
     (if int t < pc_corepos (t_start d) then t_mapsize d
      else if remain_map_size d < containers_for (int t - pc_corepos (t_start d))
      then t_mapsize d + growsize_for
             (containers_for (int t - pc_corepos (t_start d)) - remain_map_size d)
      else t_mapsize d)"
proof -
  let ?r = "pc_corepos (t_start d)"
  let ?ph = "if int t < ?r
     then Inr (d\<lparr>t_start := (t_start d)\<lparr>pc_corepos := pc_corepos (t_start d) - int t\<rparr>\<rparr>,
               t_start d, pos)
     else expand_at_begin_blocks d (int t - ?r) (t_start d) pos"
  from assms obtain d1 ob1 pos1 ob2 where ph: "?ph = Inr (d1, ob1, pos1)"
    and it: "deque_init_elem_range_auxiliary d1 (deque_begin d1) ob2 = Inr d'"
    unfolding expand_at_begin_def Let_def deque_begin_def
    by (auto split: sum.splits prod.splits)
  from it have "same_dir d1 d'"
    unfolding deque_init_elem_range_auxiliary_def
    by (rule for_range_same_dir) (rule init_at_same_dir)
  then have m: "t_mapsize d' = t_mapsize d1" by (rule same_dir_mapsize)
  show ?thesis
  proof (cases "int t < ?r")
    case True
    with ph m show ?thesis by auto
  next
    case False
    with ph have "expand_at_begin_blocks d (int t - ?r) (t_start d) pos = Inr (d1, ob1, pos1)"
      by simp
    from expand_at_begin_blocks_mapsize[OF this] m False show ?thesis by simp
  qed
qed


lemma growsize_for_pos: "0 < x \<Longrightarrow> 0 < growsize_for x"
  using growsize_for_least(2)[of x] by simp

lemma expand_at_end_mono:
  "expand_at_end d t pos = Inr (d', oe, pp) \<Longrightarrow>
   t_mapsize d' = t_mapsize d \<or> t_mapsize d < t_mapsize d'"
  by (drule expand_at_end_mapsize) (auto simp: growsize_for_pos split: if_splits)

lemma expand_at_begin_mono:
  "expand_at_begin d t pos = Inr (d', oe, pp) \<Longrightarrow>
   t_mapsize d' = t_mapsize d \<or> t_mapsize d < t_mapsize d'"
  by (drule expand_at_begin_mapsize) (auto simp: growsize_for_pos split: if_splits)

lemma deque_push_back_mono: "deque_push_back d v = Inr d' \<Longrightarrow> t_mapsize d \<le> t_mapsize d'"
  by (auto simp: deque_push_back_def
      dest!: expand_at_end_mono store_at_same_dir same_dir_mapsize split: sum.splits prod.splits)

lemma deque_push_front_mono: "deque_push_front d v = Inr d' \<Longrightarrow> t_mapsize d \<le> t_mapsize d'"
  by (auto simp: deque_push_front_def
      dest!: expand_at_begin_mono store_at_same_dir same_dir_mapsize split: sum.splits prod.splits)

lemma deque_pop_back_mapsize: "deque_pop_back d = Inr d' \<Longrightarrow> t_mapsize d' = t_mapsize d"
  by (auto simp: deque_pop_back_def dest!: shrink_at_end_mapsize split: sum.splits if_splits)

lemma deque_pop_front_mapsize: "deque_pop_front d = Inr d' \<Longrightarrow> t_mapsize d' = t_mapsize d"
  by (auto simp: deque_pop_front_def dest!: shrink_at_begin_mapsize split: sum.splits if_splits)

lemma deque_insert_n_varg_mono:
  assumes "deque_insert_n_varg d p n v = Inr (d', t)"
  shows "t_mapsize d \<le> t_mapsize d'"
proof -
  from assms consider
    (front) d1 ob pp p1 d2 g where "expand_at_begin d n (Some p) = Inr (d1, ob, pp)"
      "move_elem_to_begin d1 ob p1 n = Inr (d2, g)" "for_range (store_at v) g p1 d2 = Inr d'"
  | (atback) d1 oe pp p1 d2 g where "expand_at_end d n (Some p) = Inr (d1, oe, pp)"
      "move_elem_to_end d1 p1 oe n = Inr (d2, g)" "store_times v n p1 d2 = Inr d'"
    unfolding deque_insert_n_varg_def
    by (auto split: sum.splits prod.splits option.splits if_splits)
  then show ?thesis
  proof cases
    case front
    from expand_at_begin_mono[OF front(1)]
      same_dir_mapsize[OF move_elem_to_begin_same_dir[OF front(2)]]
      same_dir_mapsize[OF for_range_same_dir[OF front(3) store_at_same_dir]]
    show ?thesis by auto
  next
    case atback
    from expand_at_end_mono[OF atback(1)]
      same_dir_mapsize[OF move_elem_to_end_same_dir[OF atback(2)]]
      same_dir_mapsize[OF store_times_same_dir[OF atback(3)]]
    show ?thesis by auto
  qed
qed

lemma deque_erase_mapsize:
  assumes "deque_erase d p = Inr (d', t)"
  shows "t_mapsize d' = t_mapsize d"
proof -
  from assms consider (front) "deque_pop_front d = Inr d'" | (atback) "deque_pop_back d = Inr d'"
    | (mid) p' d1 x where "move_elem_to_begin d p' (deque_end d) 1 = Inr (d1, x)"
        "shrink_at_end d1 1 = Inr d'"
    unfolding deque_erase_def
    by (auto split: sum.splits prod.splits if_splits)
  then show ?thesis
  proof cases
    case front
    then show ?thesis by (rule deque_pop_front_mapsize)
  next
    case atback
    then show ?thesis by (rule deque_pop_back_mapsize)
  next
    case mid
    from same_dir_mapsize[OF move_elem_to_begin_same_dir[OF mid(1)]]
      shrink_at_end_mapsize[OF mid(2)]
    show ?thesis by simp
  qed
qed

lemma deque_erase_range_mapsize:
  assumes "deque_erase_range d b e = Inr (d', t)"
  shows "t_mapsize d' = t_mapsize d"
proof -
  from assms obtain n d1 x n1 where "move_elem_to_begin d e (deque_end d) n = Inr (d1, x)"
    "shrink_at_end d1 n1 = Inr d'"
    unfolding deque_erase_range_def
    by (auto split: sum.splits prod.splits if_splits)
  with same_dir_mapsize[OF move_elem_to_begin_same_dir] shrink_at_end_mapsize
  show ?thesis by metis
qed

lemma deque_resize_mono: "deque_resize d n = Inr d' \<Longrightarrow> t_mapsize d \<le> t_mapsize d'"
  unfolding deque_resize_def map_sum_def
  by (auto dest!: shrink_at_end_mapsize expand_at_end_mono split: sum.splits if_splits prod.splits)

lemma deque_clear_mapsize: "deque_clear d = Inr d' \<Longrightarrow> t_mapsize d' = t_mapsize d"
  unfolding deque_clear_def map_sum_def
  by (auto dest!: deque_erase_range_mapsize split: sum.splits)

definition only_nulled :: "nat option list \<Rightarrow> nat option list \<Rightarrow> bool" where
  "only_nulled m m' = list_all2 (\<lambda>a b. b = a \<or> b = None) m m'"

lemma only_nulled_refl [simp]: "only_nulled m m"
  by (simp add: only_nulled_def list_all2_same)

lemma only_nulled_trans: "only_nulled a b \<Longrightarrow> only_nulled b c \<Longrightarrow> only_nulled a c"
  by (fastforce simp: only_nulled_def list_all2_conv_all_nth)

lemma only_nulled_update: "only_nulled m (m[i := None])"
proof -
  have "(m[i := None]) ! j = m ! j \<or> (m[i := None]) ! j = None" if "j < length m" for j
    using that by (cases "j = i") simp_all
  then show ?thesis by (simp add: only_nulled_def list_all2_conv_all_nth)
qed

lemma free_blocks_up_only_nulled:
  "free_blocks_up d p l = Inr d' \<Longrightarrow> only_nulled (ppc_map d) (ppc_map d')"
proof (induction d p l rule: free_blocks_up.induct)
  case (1 d p l)
  note run = "1.prems"[unfolded free_blocks_up.simps[of d p l]]
  show ?case
  proof (cases "p \<le> l")
    case False
    with run show ?thesis by simp
  next
    case True
    with run obtain b d1 where rs: "read_slot d p = Inr b"
      and ws: "write_slot (deallocate_block d b) p None = Inr d1"
      and r: "free_blocks_up d1 (p + 1) l = Inr d'"
      by (auto split: sum.splits)
    from ws have "ppc_map d1 = (ppc_map d)[nat p := None]"
      by (auto simp: write_slot_def deallocate_block_def split: if_splits option.splits)
    then have "only_nulled (ppc_map d) (ppc_map d1)" by (simp add: only_nulled_update)
    from only_nulled_trans[OF this "1.IH"[OF True rs ws r]] show ?thesis .
  qed
qed

lemma free_blocks_down_only_nulled:
  "free_blocks_down d p l = Inr d' \<Longrightarrow> only_nulled (ppc_map d) (ppc_map d')"
proof (induction d p l rule: free_blocks_down.induct)
  case (1 d p l)
  note run = "1.prems"[unfolded free_blocks_down.simps[of d p l]]
  show ?case
  proof (cases "p \<ge> l")
    case False
    with run show ?thesis by simp
  next
    case True
    with run obtain b d1 where rs: "read_slot d p = Inr b"
      and ws: "write_slot (deallocate_block d b) p None = Inr d1"
      and r: "free_blocks_down d1 (p - 1) l = Inr d'"
      by (auto split: sum.splits)
    from ws have "ppc_map d1 = (ppc_map d)[nat p := None]"
      by (auto simp: write_slot_def deallocate_block_def split: if_splits option.splits)
    then have "only_nulled (ppc_map d) (ppc_map d1)" by (simp add: only_nulled_update)
    from only_nulled_trans[OF this "1.IH"[OF True rs ws r]] show ?thesis .
  qed
qed

lemma shrink_at_end_only_nulled:
  assumes "shrink_at_end d k = Inr d'"
  shows "only_nulled (ppc_map d) (ppc_map d')"
proof -
  from assms obtain ne d1 where dl: "for_range destroy_at ne (deque_end d) d = Inr d1"
    and fr: "free_blocks_up (d1\<lparr>t_finish := ne\<rparr>) (ppc_mappos ne + 1)
               (ppc_mappos (deque_end d)) = Inr d'"
    unfolding shrink_at_end_def Let_def by (auto split: sum.splits)
  from for_range_same_dir[OF dl destroy_at_same_dir] have "ppc_map d1 = ppc_map d"
    by (simp add: same_dir_def)
  with free_blocks_up_only_nulled[OF fr] show ?thesis by simp
qed

lemma shrink_at_begin_only_nulled:
  assumes "shrink_at_begin d k = Inr d'"
  shows "only_nulled (ppc_map d) (ppc_map d')"
proof -
  from assms obtain nb d1 where dl: "for_range destroy_at (deque_begin d) nb d = Inr d1"
    and fr: "free_blocks_down (d1\<lparr>t_start := nb\<rparr>) (ppc_mappos nb - 1)
               (ppc_mappos (deque_begin d)) = Inr d'"
    unfolding shrink_at_begin_def Let_def by (auto split: sum.splits)
  from for_range_same_dir[OF dl destroy_at_same_dir] have "ppc_map d1 = ppc_map d"
    by (simp add: same_dir_def)
  with free_blocks_down_only_nulled[OF fr] show ?thesis by simp
qed

text \<open>The directory has as many slots as \<open>_t_mapsize\<close> says, also after an expansion.\<close>

lemma copy_slots_length: "copy_slots dst doff src soff n = Inr m \<Longrightarrow> length m = length dst"
  by (auto simp: copy_slots_def split: if_splits)

lemma alloc_blocks_up_length:
  "alloc_blocks_up d n p = Inr d' \<Longrightarrow> length (ppc_map d') = length (ppc_map d)"
  by (induction n arbitrary: d p)
     (auto simp: write_slot_def allocate_block_def split: sum.splits if_splits)

lemma alloc_blocks_down_length:
  "alloc_blocks_down d n p = Inr d' \<Longrightarrow> length (ppc_map d') = length (ppc_map d)"
  by (induction n arbitrary: d p)
     (auto simp: write_slot_def allocate_block_def split: sum.splits if_splits)

lemma grow_map_at_end_length:
  assumes "grow_map_at_end d cs oe pos = Inr (d', oe', pp)"
    and "int (length (ppc_map d)) = t_mapsize d" and "remain_map_size d < cs"
  shows "int (length (ppc_map d')) = t_mapsize d'"
proof -
  from assms(3) growsize_for_pos[of "cs - remain_map_size d"]
  have "0 < growsize_for (cs - remain_map_size d)" by simp
  with assms(2) have "0 \<le> t_mapsize d + growsize_for (cs - remain_map_size d)" by simp
  with assms(1) show ?thesis
    unfolding grow_map_at_end_def Let_def
    by (auto dest!: copy_slots_length split: sum.splits)
qed

lemma grow_map_at_begin_length:
  assumes "grow_map_at_begin d cs ob pos = Inr (d', ob', pp)"
    and "int (length (ppc_map d)) = t_mapsize d" and "remain_map_size d < cs"
  shows "int (length (ppc_map d')) = t_mapsize d'"
proof -
  from assms(3) growsize_for_pos[of "cs - remain_map_size d"]
  have "0 < growsize_for (cs - remain_map_size d)" by simp
  with assms(2) have "0 \<le> t_mapsize d + growsize_for (cs - remain_map_size d)" by simp
  with assms(1) show ?thesis
    unfolding grow_map_at_begin_def Let_def
    by (auto dest!: copy_slots_length split: sum.splits)
qed

lemma shift_map_at_end_length:
  "shift_map_at_end d cs oe pos = Inr (d', oe', pp) \<Longrightarrow>
   int (length (ppc_map d)) = t_mapsize d \<Longrightarrow> int (length (ppc_map d')) = t_mapsize d'"
  unfolding shift_map_at_end_def Let_def
  by (auto dest!: copy_slots_length split: sum.splits)

lemma shift_map_at_begin_length:
  "shift_map_at_begin d cs ob pos = Inr (d', ob', pp) \<Longrightarrow>
   int (length (ppc_map d)) = t_mapsize d \<Longrightarrow> int (length (ppc_map d')) = t_mapsize d'"
  unfolding shift_map_at_begin_def Let_def
  by (auto dest!: copy_slots_length split: sum.splits)

lemma expand_at_end_length:
  assumes "expand_at_end d t pos = Inr (d', oe, pp)"
    and len: "int (length (ppc_map d)) = t_mapsize d"
  shows "int (length (ppc_map d')) = t_mapsize d'"
proof -
  let ?r = "DEQUE_ELEM_COUNT - pc_corepos (t_finish d)"
  let ?ph = "if int t < ?r
     then Inr (d\<lparr>t_finish := (t_finish d)\<lparr>pc_corepos := pc_corepos (t_finish d) + int t\<rparr>\<rparr>,
               t_finish d, pos)
     else expand_at_end_blocks d (int t - ?r) (t_finish d) pos"
  from assms obtain d1 oe1 pos1 where ph: "?ph = Inr (d1, oe1, pos1)"
    and it: "deque_init_elem_range_auxiliary d1 oe1 (deque_end d1) = Inr d'"
    unfolding expand_at_end_def Let_def deque_end_def
    by (auto split: sum.splits prod.splits)
  from it have "same_dir d1 d'"
    unfolding deque_init_elem_range_auxiliary_def
    by (rule for_range_same_dir) (rule init_at_same_dir)
  then have m: "t_mapsize d' = t_mapsize d1" "ppc_map d' = ppc_map d1" by (simp_all add: same_dir_def)
  have "int (length (ppc_map d1)) = t_mapsize d1"
  proof (cases "int t < ?r")
    case True
    with ph len show ?thesis by auto
  next
    case False
    let ?cs = "containers_for (int t - ?r)"
    let ?pre = "if ?cs > remain_map_size d then grow_map_at_end d ?cs (t_finish d) pos
       else if ?cs > t_mapsize d - ppc_mappos (t_finish d) - 1 \<and> ?cs \<le> remain_map_size d
       then shift_map_at_end d ?cs (t_finish d) pos else Inr (d, t_finish d, pos)"
    from False ph have "expand_at_end_blocks d (int t - ?r) (t_finish d) pos = Inr (d1, oe1, pos1)"
      by simp
    then obtain d0 oe0 pos0 d2 where
      pre: "?pre = Inr (d0, oe0, pos0)"
      and al: "alloc_blocks_up d0 (nat ?cs) (ppc_mappos oe0 + 1) = Inr d2"
      and d1: "t_mapsize d1 = t_mapsize d2" "ppc_map d1 = ppc_map d2"
      unfolding expand_at_end_blocks_def Let_def
      by (auto split: sum.splits prod.splits)
    from pre len have "int (length (ppc_map d0)) = t_mapsize d0"
      by (auto dest: grow_map_at_end_length shift_map_at_end_length split: if_splits)
    with alloc_blocks_up_length[OF al] alloc_blocks_up_mapsize[OF al] d1 show ?thesis by simp
  qed
  with m show ?thesis by simp
qed

lemma expand_at_begin_length:
  assumes "expand_at_begin d t pos = Inr (d', ob, pp)"
    and len: "int (length (ppc_map d)) = t_mapsize d"
  shows "int (length (ppc_map d')) = t_mapsize d'"
proof -
  let ?r = "pc_corepos (t_start d)"
  let ?ph = "if int t < ?r
     then Inr (d\<lparr>t_start := (t_start d)\<lparr>pc_corepos := pc_corepos (t_start d) - int t\<rparr>\<rparr>,
               t_start d, pos)
     else expand_at_begin_blocks d (int t - ?r) (t_start d) pos"
  from assms obtain d1 ob1 pos1 ob2 where ph: "?ph = Inr (d1, ob1, pos1)"
    and it: "deque_init_elem_range_auxiliary d1 (deque_begin d1) ob2 = Inr d'"
    unfolding expand_at_begin_def Let_def deque_begin_def
    by (auto split: sum.splits prod.splits)
  from it have "same_dir d1 d'"
    unfolding deque_init_elem_range_auxiliary_def
    by (rule for_range_same_dir) (rule init_at_same_dir)
  then have m: "t_mapsize d' = t_mapsize d1" "ppc_map d' = ppc_map d1" by (simp_all add: same_dir_def)
  have "int (length (ppc_map d1)) = t_mapsize d1"
  proof (cases "int t < ?r")
    case True
    with ph len show ?thesis by auto
  next
    case False
    let ?cs = "containers_for (int t - ?r)"
    let ?pre = "if ?cs > remain_map_size d then grow_map_at_begin d ?cs (t_start d) pos
       else if ?cs > ppc_mappos (t_start d) \<and> ?cs \<le> remain_map_size d
       then shift_map_at_begin d ?cs (t_start d) pos else Inr (d, t_start d, pos)"
    from False ph have "expand_at_begin_blocks d (int t - ?r) (t_start d) pos = Inr (d1, ob1, pos1)"
      by simp
    then obtain d0 ob0 pos0 d2 where
      pre: "?pre = Inr (d0, ob0, pos0)"
      and al: "alloc_blocks_down d0 (nat ?cs) (ppc_mappos ob0 - 1) = Inr d2"
      and d1: "t_mapsize d1 = t_mapsize d2" "ppc_map d1 = ppc_map d2"
      unfolding expand_at_begin_blocks_def Let_def
      by (auto split: sum.splits prod.splits)
    from pre len have "int (length (ppc_map d0)) = t_mapsize d0"
      by (auto dest: grow_map_at_begin_length shift_map_at_begin_length split: if_splits)
    with alloc_blocks_down_length[OF al] alloc_blocks_down_mapsize[OF al] d1 show ?thesis by simp
  qed
  with m show ?thesis by simp
qed

lemma ex_full_end: "\<not> isl (expand_at_end ex_full 32 None)"
  by code_simp

lemma ex_full_begin: "\<not> isl (expand_at_begin ex_full 33 None)"
  by code_simp


section \<open>Cells at linear positions\<close>

definition set_cell :: "'a deque \<Rightarrow> int \<Rightarrow> 'a cell \<Rightarrow> 'a deque" where
  "set_cell d g c =
     (case ppc_map d ! nat (g div 16) of
        None \<Rightarrow> d
      | Some a \<Rightarrow> d\<lparr>heap := (heap d)(a := (heap d a)[nat (g mod 16) := c])\<rparr>)"

definition in_blocks :: "'a deque \<Rightarrow> int \<Rightarrow> bool" where
  "in_blocks d g \<longleftrightarrow>
     ppc_mappos (t_start d) \<le> g div 16 \<and> g div 16 \<le> ppc_mappos (t_finish d)"

lemma in_blocks_run:
  "wf_deque d \<Longrightarrow> gpos (t_start d) \<le> g \<Longrightarrow> g \<le> gpos (t_finish d) \<Longrightarrow> in_blocks d g"
  using run_div[of d g] by (simp add: in_blocks_def)

lemma same_dir_in_blocks: "same_dir d d' \<Longrightarrow> in_blocks d' = in_blocks d"
  by (simp add: same_dir_def in_blocks_def fun_eq_iff)

lemma set_cell_same_dir [simp]: "same_dir d (set_cell d g c)"
  by (simp add: set_cell_def same_dir_def split: option.splits)

lemma set_cell_evlog [simp]: "evlog (set_cell d g c) = evlog d"
  by (simp add: set_cell_def split: option.splits)

lemma write_cell_ptr_at:
  assumes "wf_deque d" "in_blocks d g"
  shows "write_cell d (ptr_at d g) c = Inr (set_cell d g c)"
proof -
  from assms wf_slot[of d "g div 16"] obtain a where
    a: "ppc_map d ! nat (g div 16) = Some a" "length (heap d a) = 16"
    by (auto simp: in_blocks_def)
  have "0 \<le> g mod 16" "g mod 16 < 16" by simp_all
  with a show ?thesis by (simp add: write_cell_def ptr_at_def set_cell_def)
qed

lemma read_cell_ptr_at:
  assumes "wf_deque d" "in_blocks d g"
  shows "read_cell d (ptr_at d g) = Inr (cell_at d g)"
proof -
  from assms wf_slot[of d "g div 16"] obtain a where
    a: "ppc_map d ! nat (g div 16) = Some a" "length (heap d a) = 16"
    by (auto simp: in_blocks_def)
  have "0 \<le> g mod 16" "g mod 16 < 16" by simp_all
  with a show ?thesis by (simp add: read_cell_def ptr_at_def cell_at_def)
qed

lemma cell_at_set_cell:
  assumes wf: "wf_deque d" and g: "in_blocks d g" and h: "in_blocks d h"
  shows "cell_at (set_cell d g c) h = (if h = g then c else cell_at d h)"
proof -
  from wf g wf_slot[of d "g div 16"] obtain a where
    a: "ppc_map d ! nat (g div 16) = Some a" "length (heap d a) = 16"
    by (auto simp: in_blocks_def)
  from wf h wf_slot[of d "h div 16"] obtain b where
    b: "ppc_map d ! nat (h div 16) = Some b" "length (heap d b) = 16"
    by (auto simp: in_blocks_def)
  have mg: "0 \<le> g mod 16" "g mod 16 < 16" and mh: "0 \<le> h mod 16" "h mod 16 < 16" by simp_all
  show ?thesis
  proof (cases "h div 16 = g div 16")
    case True
    with a b have ab: "b = a" by simp
    show ?thesis
    proof (cases "h mod 16 = g mod 16")
      case True
      with \<open>h div 16 = g div 16\<close> have "h = g"
        by (metis mult_div_mod_eq)
      with a mg show ?thesis by (simp add: cell_at_def set_cell_def)
    next
      case False
      then have "h \<noteq> g" by auto
      moreover from False mg mh have "nat (h mod 16) \<noteq> nat (g mod 16)" by simp
      ultimately show ?thesis using a b ab by (simp add: cell_at_def set_cell_def)
    qed
  next
    case False
    then have ne: "h \<noteq> g" by auto
    from wf_slot_inj[OF wf, of "g div 16" "h div 16"] g h False a b
    have "a \<noteq> b" by (auto simp: in_blocks_def)
    with a b ne show ?thesis by (simp add: cell_at_def set_cell_def)
  qed
qed

text \<open>The element operations at a linear position.\<close>

definition init_pos :: "'a deque \<Rightarrow> int \<Rightarrow> 'a deque" where
  "init_pos d g =
     (set_cell d g (Live (t_typeinit d)))\<lparr>evlog := evlog d @ [EvInit (ptr_at d g)]\<rparr>"

definition destroy_pos :: "'a deque \<Rightarrow> int \<Rightarrow> 'a deque" where
  "destroy_pos d g = (set_cell d g Raw)\<lparr>evlog := evlog d @ [EvDestroy (ptr_at d g)]\<rparr>"

definition store_pos :: "'a \<Rightarrow> 'a deque \<Rightarrow> int \<Rightarrow> 'a deque" where
  "store_pos v d g = (set_cell d g (Live v))\<lparr>evlog := evlog d @ [EvStore (ptr_at d g)]\<rparr>"

definition copy_pos :: "int \<Rightarrow> 'a deque \<Rightarrow> int \<Rightarrow> 'a deque" where
  "copy_pos k d g =
     (set_cell d (g - k) (cell_at d g))
       \<lparr>evlog := evlog d @ [EvCopy (ptr_at d (g - k)) (ptr_at d g)]\<rparr>"

lemma cell_at_evlog_update [simp]: "cell_at (d\<lparr>evlog := l\<rparr>) h = cell_at d h"
  by (simp add: cell_at_def split: option.splits)

lemma same_dir_evlog_update [simp]: "same_dir d (d'\<lparr>evlog := l\<rparr>) = same_dir d d'"
  by (simp add: same_dir_def)

lemma pos_same_dir [simp]:
  "same_dir d (init_pos d g)" "same_dir d (destroy_pos d g)" "same_dir d (store_pos v d g)"
  "same_dir d (copy_pos k d g)"
  by (simp_all add: init_pos_def destroy_pos_def store_pos_def copy_pos_def)

lemma init_at_rep:
  assumes "wf_deque d" "rep d it g" "gpos (t_start d) \<le> g" "g < gpos (t_finish d)"
  shows "init_at it d = Inr (init_pos d g)"
  using ptr_rep[OF assms] write_cell_ptr_at[OF assms(1) in_blocks_run[OF assms(1,3)], of _ ] assms(4)
  by (simp add: init_at_def init_elem_def init_pos_def)

lemma destroy_at_rep:
  assumes "wf_deque d" "rep d it g" "gpos (t_start d) \<le> g" "g < gpos (t_finish d)"
  shows "destroy_at it d = Inr (destroy_pos d g)"
  using ptr_rep[OF assms] write_cell_ptr_at[OF assms(1) in_blocks_run[OF assms(1,3)], of _ ] assms(4)
  by (simp add: destroy_at_def destroy_elem_def destroy_pos_def)

lemma store_at_rep:
  assumes "wf_deque d" "rep d it g" "gpos (t_start d) \<le> g" "g < gpos (t_finish d)"
  shows "store_at v it d = Inr (store_pos v d g)"
  using ptr_rep[OF assms] write_cell_ptr_at[OF assms(1) in_blocks_run[OF assms(1,3)], of _ ] assms(4)
  by (simp add: store_at_def store_elem_def store_pos_def)


lemma same_dir_ends:
  "same_dir d d' \<Longrightarrow> t_start d' = t_start d \<and> t_finish d' = t_finish d"
  by (simp add: same_dir_def)

lemma for_range_fold:
  assumes wf: "wf_deque d"
    and body: "\<And>d1 it g. same_dir d d1 \<Longrightarrow> rep d it g \<Longrightarrow> gpos (t_start d) \<le> g \<Longrightarrow>
                 g < gpos (t_finish d) \<Longrightarrow> body it d1 = Inr (f d1 g)"
    and pres: "\<And>d1 g. same_dir d1 (f d1 g)"
    and re: "rep d e ge" and hi: "ge \<le> gpos (t_finish d)"
  shows "rep d it g \<Longrightarrow> gpos (t_start d) \<le> g \<Longrightarrow> g \<le> ge \<Longrightarrow> same_dir d d1 \<Longrightarrow>
         for_range body it e d1 = Inr (foldl f d1 [g..ge - 1])"
proof (induction "nat (ge - g)" arbitrary: it g d1)
  case 0
  then have "g = ge" by simp
  with equal_rep[OF "0.prems"(1) re] show ?case
    by (subst for_range.simps) simp
next
  case (Suc n)
  then have lt: "g < ge" by simp
  with equal_rep[OF Suc.prems(1) re] have ne: "\<not> deque_iterator_equal it e" by simp
  from rep_gpos[OF Suc.prems(1)] rep_gpos[OF re] lt have nd: "\<not> gpos e \<le> gpos it" by simp
  from lt hi have gf: "g < gpos (t_finish d)" by simp
  note b = body[OF Suc.prems(4,1,2) gf]
  let ?d2 = "f d1 g"
  from Suc.prems(4) pres[of d1 g] have sd: "same_dir d ?d2" by (rule same_dir_trans)
  from same_dir_wf[OF sd wf] have wf2: "wf_deque ?d2" .
  from same_dir_rep[OF sd] Suc.prems(1) have r2: "rep ?d2 it g" by simp
  from same_dir_ends[OF sd] Suc.prems(2) gf
  have "gpos (t_start ?d2) \<le> g" "g < gpos (t_finish ?d2)" by simp_all
  from next_rep[OF wf2 r2 this] same_dir_iter_at[OF sd]
  have nx: "deque_iterator_next ?d2 it = Inr (iter_at d (g + 1))" by simp
  from Suc.hyps(2) have n: "n = nat (ge - (g + 1))" by simp
  from Suc.hyps(1)[OF n rep_iter_at _ _ sd] Suc.prems(2) lt
  have "for_range body (iter_at d (g + 1)) e ?d2 = Inr (foldl f ?d2 [g + 1..ge - 1])" by simp
  moreover from lt have "[g..ge - 1] = g # [g + 1..ge - 1]" by (simp add: upto_rec1)
  ultimately show ?case using ne nd b nx
    by (subst for_range.simps) simp
qed

lemma foldl_same_dir:
  assumes "\<And>d g. same_dir d (f d g)"
  shows "same_dir d (foldl f d gs)"
proof (induction gs arbitrary: d)
  case Nil
  show ?case by simp
next
  case (Cons g gs)
  from assms[of d g] Cons[of "f d g"] show ?case by (auto intro: same_dir_trans)
qed




section \<open>Expansion inside the boundary block\<close>


lemma step_over_afterlast_rep:
  assumes wf: "wf_deque d" and r: "rep d it g"
    and lo: "gpos (t_start d) \<le> g" and hi: "g \<le> gpos (t_finish d)"
  shows "step_over_afterlast d it = Inr (if pc_corepos it = 16 then iter_at d g else it)"
proof (cases "pc_corepos it = 16")
  case False
  then show ?thesis by (simp add: step_over_afterlast_def)
next
  case True
  have "g mod 16 \<noteq> 16" using pos_mod_bound[of 16 g] by simp
  with r True have g: "g = 16 * ppc_mappos it + 16"
    by (auto simp: rep_def iter_at_def gpos_def)
  note ad = after_divmod[OF g]
  from run_div[OF wf lo hi] ad
  have rd: "ppc_mappos (t_start d) \<le> ppc_mappos it + 1" "ppc_mappos it + 1 \<le> ppc_mappos (t_finish d)"
    by simp_all
  from wf_slot[OF wf rd] obtain a where a: "ppc_map d ! nat (ppc_mappos it + 1) = Some a" by auto
  from read_slot_run[OF wf rd] a True ad show ?thesis
    by (simp add: step_over_afterlast_def iter_at_def)
qed

lemma block_ok_heap_cong: "heap d' = heap d \<Longrightarrow> block_ok d' = block_ok d"
  by (auto simp: block_ok_def fun_eq_iff split: option.splits)

lemma block_ok_updates [simp]:
  "block_ok (d\<lparr>t_start := x\<rparr>) = block_ok d" "block_ok (d\<lparr>t_finish := y\<rparr>) = block_ok d"
  by (simp_all add: block_ok_def fun_eq_iff split: option.splits)



lemma init_range_fold:
  assumes wf: "wf_deque d" and ri: "rep d it g" and re: "rep d e ge"
    and "gpos (t_start d) \<le> g" "g \<le> ge" "ge \<le> gpos (t_finish d)"
  shows "deque_init_elem_range_auxiliary d it e = Inr (foldl init_pos d [g..ge - 1])"
  unfolding deque_init_elem_range_auxiliary_def
proof (rule for_range_fold[OF wf _ _ re assms(6) ri assms(4,5)])
  fix d1 it g
  assume sd: "same_dir d d1" and r: "rep d it g"
    and b: "gpos (t_start d) \<le> g" "g < gpos (t_finish d)"
  from same_dir_ends[OF sd] b have "gpos (t_start d1) \<le> g" "g < gpos (t_finish d1)" by simp_all
  from init_at_rep[OF same_dir_wf[OF sd wf] _ this] same_dir_rep[OF sd] r
  show "init_at it d1 = Inr (init_pos d1 g)" by simp
qed simp_all




lemma in_blocks_iff: "in_blocks d g \<longleftrightarrow>
    16 * ppc_mappos (t_start d) \<le> g \<and> g < 16 * ppc_mappos (t_finish d) + 16"
proof -
  obtain q r where qr: "g = 16 * q + r" "0 \<le> r" "r < 16" "g div 16 = q" "g mod 16 = r"
    by (rule dm16_decomp)
  then show ?thesis by (auto simp: in_blocks_def)
qed



lemma iter_at_updates [simp]:
  "iter_at (d\<lparr>t_start := x\<rparr>) g = iter_at d g" "iter_at (d\<lparr>t_finish := y\<rparr>) g = iter_at d g"
  "iter_at (d\<lparr>evlog := l\<rparr>) g = iter_at d g"
  by (simp_all add: iter_at_def)

definition pos_valid :: "'a deque \<Rightarrow> iter option \<Rightarrow> bool" where
  "pos_valid d pt_pos =
     (case pt_pos of
        None \<Rightarrow> True
      | Some p \<Rightarrow> rep d p (gpos p) \<and> gpos (t_start d) \<le> gpos p \<and> gpos p \<le> gpos (t_finish d))"








section \<open>Shrinking at either end\<close>

lemma valid_run_nth:
  assumes "0 \<le> ppc_mappos (t_start d)" "ppc_mappos (t_finish d) < int (length (ppc_map d))"
    "k < nat (ppc_mappos (t_finish d) - ppc_mappos (t_start d) + 1)"
  shows "k < length (valid_run d)"
    "valid_run d ! k = ppc_map d ! nat (ppc_mappos (t_start d) + int k)"
  using assms by (auto simp: valid_run_def nat_add_distrib)

lemma valid_run_length:
  assumes "0 \<le> ppc_mappos (t_start d)" "ppc_mappos (t_finish d) < int (length (ppc_map d))"
  shows "length (valid_run d) = nat (ppc_mappos (t_finish d) - ppc_mappos (t_start d) + 1)"
  using assms by (auto simp: valid_run_def)

lemma wf_dequeI:
  assumes len: "int (length (ppc_map d)) = t_mapsize d"
    and b: "0 \<le> ppc_mappos (t_start d)" "ppc_mappos (t_start d) \<le> ppc_mappos (t_finish d)"
      "ppc_mappos (t_finish d) < t_mapsize d"
    and slots: "\<And>i. ppc_mappos (t_start d) \<le> i \<Longrightarrow> i \<le> ppc_mappos (t_finish d) \<Longrightarrow>
        \<exists>a. ppc_map d ! nat i = Some a \<and> length (heap d a) = 16"
    and inj: "\<And>i j. ppc_mappos (t_start d) \<le> i \<Longrightarrow> i \<le> ppc_mappos (t_finish d) \<Longrightarrow>
        ppc_mappos (t_start d) \<le> j \<Longrightarrow> j \<le> ppc_mappos (t_finish d) \<Longrightarrow>
        ppc_map d ! nat i = ppc_map d ! nat j \<Longrightarrow> i = j"
    and firsts: "pc_first (t_start d) = ppc_map d ! nat (ppc_mappos (t_start d))"
      "pc_first (t_finish d) = ppc_map d ! nat (ppc_mappos (t_finish d))"
    and cs: "0 \<le> pc_corepos (t_start d)" "pc_corepos (t_start d) \<le> 16"
      "0 \<le> pc_corepos (t_finish d)" "pc_corepos (t_finish d) < 16"
    and ord: "gpos (t_start d) \<le> gpos (t_finish d)"
  shows "wf_deque d"
proof -
  let ?ms = "ppc_mappos (t_start d)" and ?mf = "ppc_mappos (t_finish d)"
  from len b have bl: "?mf < int (length (ppc_map d))" by simp
  note vl = valid_run_length[OF b(1) bl]
  note vn = valid_run_nth(2)[OF b(1) bl]
  have la: "list_all (block_ok d) (valid_run d)"
    unfolding list_all_length
  proof (intro allI impI)
    fix k assume k: "k < length (valid_run d)"
    with vl have k': "k < nat (?mf - ?ms + 1)" by simp
    then have "?ms \<le> ?ms + int k" "?ms + int k \<le> ?mf" by simp_all
    from slots[OF this] vn[OF k'] show "block_ok d (valid_run d ! k)"
      by (auto simp: block_ok_def)
  qed
  have di: "distinct (valid_run d)"
    unfolding distinct_conv_nth
  proof (intro allI impI)
    fix k l assume k: "k < length (valid_run d)" and l: "l < length (valid_run d)" and ne: "k \<noteq> l"
    from k l vl have k': "k < nat (?mf - ?ms + 1)" and l': "l < nat (?mf - ?ms + 1)" by simp_all
    then have r: "?ms \<le> ?ms + int k" "?ms + int k \<le> ?mf" "?ms \<le> ?ms + int l" "?ms + int l \<le> ?mf"
      by simp_all
    show "valid_run d ! k \<noteq> valid_run d ! l"
    proof
      assume "valid_run d ! k = valid_run d ! l"
      with vn[OF k'] vn[OF l'] have "ppc_map d ! nat (?ms + int k) = ppc_map d ! nat (?ms + int l)"
        by simp
      from inj[OF r this] ne show False by simp
    qed
  qed
  from len b la di firsts cs ord show ?thesis by (simp add: wf_deque_def)
qed

text \<open>One step of the loops that free blocks: deallocate the block of a slot, null the slot.\<close>

definition free_slot :: "'a deque \<Rightarrow> int \<Rightarrow> 'a deque" where
  "free_slot x i = (deallocate_block x (ppc_map x ! nat i))\<lparr>ppc_map := (ppc_map x)[nat i := None]\<rparr>"

lemma free_slot_fields [simp]:
  "length (ppc_map (free_slot x i)) = length (ppc_map x)"
  "t_start (free_slot x i) = t_start x" "t_finish (free_slot x i) = t_finish x"
  "t_mapsize (free_slot x i) = t_mapsize x" "next_addr (free_slot x i) = next_addr x"
  "t_typeinit (free_slot x i) = t_typeinit x"
  by (simp_all add: free_slot_def deallocate_block_def split: option.splits)

lemma free_step:
  assumes "0 \<le> i" "i < int (length (ppc_map x))"
  shows "read_slot x i = Inr (ppc_map x ! nat i)"
    "write_slot (deallocate_block x (ppc_map x ! nat i)) i None = Inr (free_slot x i)"
  using assms
  by (simp_all add: read_slot_def write_slot_def free_slot_def deallocate_block_def
      split: option.splits)

lemma free_blocks_up_fold:
  "0 \<le> p \<Longrightarrow> l < int (length (ppc_map x)) \<Longrightarrow>
   free_blocks_up x p l = Inr (foldl free_slot x [p..l])"
proof (induction "nat (l + 1 - p)" arbitrary: x p)
  case 0
  then have "l < p" by simp
  then show ?case by (subst free_blocks_up.simps) simp
next
  case (Suc n)
  then have le: "p \<le> l" by simp
  with Suc.prems have pl: "p < int (length (ppc_map x))" by simp
  note st = free_step[OF Suc.prems(1) pl]
  from Suc.hyps(2) have n: "n = nat (l + 1 - (p + 1))" by simp
  from Suc.hyps(1)[OF n, of "free_slot x p"] Suc.prems
  have "free_blocks_up (free_slot x p) (p + 1) l = Inr (foldl free_slot (free_slot x p) [p + 1..l])"
    by simp
  moreover from le have "[p..l] = p # [p + 1..l]" by (simp add: upto_rec1)
  ultimately show ?case using le st by (subst free_blocks_up.simps) simp
qed

lemma free_blocks_down_fold:
  "0 \<le> l \<Longrightarrow> p < int (length (ppc_map x)) \<Longrightarrow>
   free_blocks_down x p l = Inr (foldl free_slot x (rev [l..p]))"
proof (induction "nat (p + 1 - l)" arbitrary: x p)
  case 0
  then have "p < l" by simp
  then show ?case by (subst free_blocks_down.simps) simp
next
  case (Suc n)
  then have le: "l \<le> p" by simp
  with Suc.prems have p0: "0 \<le> p" by simp
  note st = free_step[OF p0 Suc.prems(2)]
  from Suc.hyps(2) have n: "n = nat (p - 1 + 1 - l)" by simp
  from Suc.hyps(1)[OF n, of "free_slot x p"] Suc.prems
  have "free_blocks_down (free_slot x p) (p - 1) l =
          Inr (foldl free_slot (free_slot x p) (rev [l..p - 1]))"
    by simp
  moreover from le have "[l..p] = [l..p - 1] @ [p]" by (simp add: upto_rec2)
  ultimately show ?case using le st by (subst free_blocks_down.simps) simp
qed


lemma foldl_free_slot_fields:
  "length (ppc_map (foldl free_slot x is)) = length (ppc_map x)"
  "t_start (foldl free_slot x is) = t_start x" "t_finish (foldl free_slot x is) = t_finish x"
  "t_mapsize (foldl free_slot x is) = t_mapsize x" "next_addr (foldl free_slot x is) = next_addr x"
  "t_typeinit (foldl free_slot x is) = t_typeinit x"
  by (induction "is" arbitrary: x; simp)+

lemma free_slot_map_nth:
  assumes "0 \<le> i" "0 \<le> j" "nat j < length (ppc_map x)"
  shows "ppc_map (free_slot x i) ! nat j = (if j = i then None else ppc_map x ! nat j)"
  using assms by (auto simp: free_slot_def deallocate_block_def split: option.splits)

lemma foldl_free_slot_map_nth:
  assumes "\<forall>i \<in> set is. 0 \<le> i" "0 \<le> j" "nat j < length (ppc_map x)"
  shows "ppc_map (foldl free_slot x is) ! nat j = (if j \<in> set is then None else ppc_map x ! nat j)"
  using assms
proof (induction "is" arbitrary: x)
  case Nil
  show ?case by simp
next
  case (Cons i "is")
  from Cons.prems have i0: "0 \<le> i" and r: "\<forall>i \<in> set is. 0 \<le> i" by simp_all
  from Cons.prems(3) have l: "nat j < length (ppc_map (free_slot x i))" by simp
  from Cons.IH[OF r Cons.prems(2) l] free_slot_map_nth[OF i0 Cons.prems(2,3)]
  show ?case by auto
qed

lemma free_slot_heap:
  assumes "ppc_map x ! nat i \<noteq> Some a"
  shows "heap (free_slot x i) a = heap x a"
  using assms by (auto simp: free_slot_def deallocate_block_def split: option.splits)

lemma foldl_free_slot_heap:
  assumes "\<forall>i \<in> set is. 0 \<le> i \<and> nat i < length (ppc_map x) \<and> ppc_map x ! nat i \<noteq> Some a"
  shows "heap (foldl free_slot x is) a = heap x a"
  using assms
proof (induction "is" arbitrary: x)
  case Nil
  show ?case by simp
next
  case (Cons i "is")
  from Cons.prems have i: "0 \<le> i" "ppc_map x ! nat i \<noteq> Some a" by simp_all
  have "\<forall>j \<in> set is. 0 \<le> j \<and> nat j < length (ppc_map (free_slot x i)) \<and>
          ppc_map (free_slot x i) ! nat j \<noteq> Some a"
  proof
    fix j assume j: "j \<in> set is"
    with Cons.prems have jj: "0 \<le> j" "nat j < length (ppc_map x)" "ppc_map x ! nat j \<noteq> Some a"
      by simp_all
    from free_slot_map_nth[OF i(1) jj(1,2)] jj
    show "0 \<le> j \<and> nat j < length (ppc_map (free_slot x i)) \<and>
          ppc_map (free_slot x i) ! nat j \<noteq> Some a" by auto
  qed
  from Cons.IH[OF this] free_slot_heap[OF i(2)] show ?case by simp
qed

lemma free_slot_evlog: "evlog (free_slot x i) = evlog x @ [EvFree (ppc_map x ! nat i)]"
  by (simp add: free_slot_def deallocate_block_def split: option.splits)

lemma foldl_free_slot_evlog:
  assumes "\<forall>i \<in> set is. 0 \<le> i \<and> nat i < length (ppc_map x)" "distinct is"
  shows "evlog (foldl free_slot x is) = evlog x @ map (\<lambda>i. EvFree (ppc_map x ! nat i)) is"
  using assms
proof (induction "is" arbitrary: x)
  case Nil
  show ?case by simp
next
  case (Cons i "is")
  from Cons.prems have i: "0 \<le> i" "i \<notin> set is" "distinct is" by simp_all
  have r: "\<forall>j \<in> set is. 0 \<le> j \<and> nat j < length (ppc_map (free_slot x i))"
    using Cons.prems by simp
  have "map (\<lambda>j. EvFree (ppc_map (free_slot x i) ! nat j)) is =
        map (\<lambda>j. EvFree (ppc_map x ! nat j)) is"
  proof (rule map_cong[OF refl])
    fix j assume j: "j \<in> set is"
    with Cons.prems have jj: "0 \<le> j" "nat j < length (ppc_map x)" by simp_all
    from j i(2) have "j \<noteq> i" by auto
    with free_slot_map_nth[OF i(1) jj]
    show "EvFree (ppc_map (free_slot x i) ! nat j) = EvFree (ppc_map x ! nat j)" by simp
  qed
  with Cons.IH[OF r i(3)] show ?case by (simp add: free_slot_evlog)
qed

lemma foldl_free_slot_freed:
  assumes "\<forall>i \<in> set is. 0 \<le> i \<and> nat i < length (ppc_map x)" "distinct is"
    "i \<in> set is" "ppc_map x ! nat i = Some a"
  shows "heap (foldl free_slot x is) a = []"
  using assms
proof (induction "is" arbitrary: x i)
  case Nil
  then show ?case by simp
next
  case (Cons j "is")
  from Cons.prems have j: "0 \<le> j" "j \<notin> set is" "distinct is" by simp_all
  have r: "\<forall>l \<in> set is. 0 \<le> l \<and> nat l < length (ppc_map (free_slot x j))"
    using Cons.prems by simp
  show ?case
  proof (cases "i = j")
    case False
    with Cons.prems have ii: "i \<in> set is" "0 \<le> i" "nat i < length (ppc_map x)" by auto
    from free_slot_map_nth[OF j(1) ii(2,3)] False Cons.prems(4)
    have "ppc_map (free_slot x j) ! nat i = Some a" by simp
    from Cons.IH[OF r j(3) ii(1) this] show ?thesis by simp
  next
    case True
    with Cons.prems(4) have h0: "heap (free_slot x j) a = []"
      by (simp add: free_slot_def deallocate_block_def)
    show ?thesis
    proof (cases "\<exists>l \<in> set is. ppc_map (free_slot x j) ! nat l = Some a")
      case False
      with r have "\<forall>l \<in> set is. 0 \<le> l \<and> nat l < length (ppc_map (free_slot x j)) \<and>
          ppc_map (free_slot x j) ! nat l \<noteq> Some a" by auto
      from foldl_free_slot_heap[OF this] h0 show ?thesis by simp
    next
      case True
      then obtain l where l: "l \<in> set is" "ppc_map (free_slot x j) ! nat l = Some a" by auto
      from Cons.IH[OF r j(3) l] show ?thesis by simp
    qed
  qed
qed


lemma foldl_destroy_pos_cells:
  assumes wf: "wf_deque d" and "\<forall>g \<in> set gs. in_blocks d g" and "in_blocks d h"
  shows "cell_at (foldl destroy_pos d gs) h = (if h \<in> set gs then Raw else cell_at d h)"
  using assms
proof (induction gs arbitrary: d)
  case Nil
  show ?case by simp
next
  case (Cons g gs)
  let ?d1 = "destroy_pos d g"
  have sd: "same_dir d ?d1" by simp
  from same_dir_wf[OF sd Cons.prems(1)] have wf1: "wf_deque ?d1" .
  from same_dir_in_blocks[OF sd] Cons.prems
  have ib: "\<forall>g \<in> set gs. in_blocks ?d1 g" "in_blocks ?d1 h" by simp_all
  from Cons.prems have "in_blocks d g" by simp
  from cell_at_set_cell[OF Cons.prems(1) this Cons.prems(3)]
  have c1: "cell_at ?d1 h = (if h = g then Raw else cell_at d h)"
    by (simp add: destroy_pos_def)
  from Cons.IH[OF wf1 ib] c1 show ?case by auto
qed

lemma foldl_destroy_pos_evlog:
  "evlog (foldl destroy_pos d gs) = evlog d @ map (\<lambda>g. EvDestroy (ptr_at d g)) gs"
proof (induction gs arbitrary: d)
  case Nil
  show ?case by simp
next
  case (Cons g gs)
  have "ptr_at (destroy_pos d g) = ptr_at d" by (rule same_dir_ptr_at) simp
  with Cons[of "destroy_pos d g"] show ?case by (simp add: destroy_pos_def)
qed

lemma destroy_range_fold:
  assumes wf: "wf_deque d" and ri: "rep d it g" and re: "rep d e ge"
    and "gpos (t_start d) \<le> g" "g \<le> ge" "ge \<le> gpos (t_finish d)"
  shows "for_range destroy_at it e d = Inr (foldl destroy_pos d [g..ge - 1])"
proof (rule for_range_fold[OF wf _ _ re assms(6) ri assms(4,5)])
  fix d1 it g
  assume sd: "same_dir d d1" and r: "rep d it g"
    and b: "gpos (t_start d) \<le> g" "g < gpos (t_finish d)"
  from same_dir_ends[OF sd] b have "gpos (t_start d1) \<le> g" "g < gpos (t_finish d1)" by simp_all
  from destroy_at_rep[OF same_dir_wf[OF sd wf] _ this] same_dir_rep[OF sd] r
  show "destroy_at it d1 = Inr (destroy_pos d1 g)" by simp
qed simp_all

lemma prev_n_finish:
  assumes wf: "wf_deque d" and "0 \<le> k" "k \<le> gpos (t_finish d) - gpos (t_start d)"
  shows "deque_iterator_prev_n d (t_finish d) k = Inr (iter_at d (gpos (t_finish d) - k))"
proof (cases "k = 0")
  case True
  with finish_iter_at[OF wf] show ?thesis
    by (simp add: deque_iterator_prev_n_def deque_iterator_next_n_def)
next
  case False
  with assms have k: "0 < k" by simp
  from prev_times_rep[OF wf finish_rep[OF wf], of "nat k"] assms k
  show ?thesis by (simp add: deque_iterator_prev_n_def deque_iterator_next_n_def)
qed

lemma next_n_start:
  assumes wf: "wf_deque d" and "0 \<le> k" "k \<le> gpos (t_finish d) - gpos (t_start d)"
  shows "deque_iterator_next_n d (t_start d) k =
           Inr (if k = 0 then t_start d else iter_at d (gpos (t_start d) + k))"
  using next_times_rep[OF wf start_rep[OF wf], of "nat k"] assms
  by (simp add: deque_iterator_next_n_def)

lemma take_upto:
  assumes "0 \<le> m" "a + m - 1 \<le> b"
  shows "take (nat m) [a..b] = [a..a + m - 1]"
proof (rule nth_equalityI)
  from assms show "length (take (nat m) [a..b]) = length [a..a + m - 1]" by simp
next
  fix i assume "i < length (take (nat m) [a..b])"
  with assms have i: "int i < m" by simp
  with assms show "take (nat m) [a..b] ! i = [a..a + m - 1] ! i" by simp
qed

lemma drop_upto:
  assumes "0 \<le> m"
  shows "drop (nat m) [a..b] = [a + m..b]"
proof (rule nth_equalityI)
  from assms show "length (drop (nat m) [a..b]) = length [a + m..b]" by simp
next
  fix i assume "i < length (drop (nat m) [a..b])"
  with assms have i: "a + m + int i \<le> b" by simp
  with assms show "drop (nat m) [a..b] ! i = [a + m..b] ! i" by (simp add: add.assoc)
qed


lemma shrink_at_end_wf:
  fixes d :: "'a deque" and k :: nat
  assumes wf: "wf_deque d"
  defines "gs \<equiv> gpos (t_start d)" and "gf \<equiv> gpos (t_finish d)"
  defines "k' \<equiv> min (int k) (gpos (t_finish d) - gpos (t_start d))"
  defines "ne \<equiv> iter_at d (gpos (t_finish d) - k')"
  defines "d' \<equiv> foldl free_slot
      ((foldl destroy_pos d [gf - k'..gf - 1])\<lparr>t_finish := ne\<rparr>)
      [ppc_mappos ne + 1..ppc_mappos (t_finish d)]"
  shows "shrink_at_end d k = Inr d'"
    and "t_start d' = t_start d" and "t_finish d' = ne" and "t_mapsize d' = t_mapsize d"
    and "next_addr d' = next_addr d"
    and "wf_deque d'"
    and "elems d' = take (nat (gf - gs - k')) (elems d)"
    and "evlog d' = evlog d @ map (\<lambda>g. EvDestroy (ptr_at d g)) [gf - k'..gf - 1] @
           map (\<lambda>i. EvFree (ppc_map d ! nat i)) [ppc_mappos ne + 1..ppc_mappos (t_finish d)]"
    and "length (ppc_map d') = length (ppc_map d)"
    and "\<And>i. 0 \<le> i \<Longrightarrow> i < t_mapsize d \<Longrightarrow> ppc_map d' ! nat i =
           (if ppc_mappos ne < i \<and> i \<le> ppc_mappos (t_finish d) then None else ppc_map d ! nat i)"
    and "\<And>i a. ppc_mappos ne < i \<Longrightarrow> i \<le> ppc_mappos (t_finish d) \<Longrightarrow>
           ppc_map d ! nat i = Some a \<Longrightarrow> heap d' a = []"
proof -
  let ?ms = "ppc_mappos (t_start d)" and ?mf = "ppc_mappos (t_finish d)"
  let ?mne = "ppc_mappos ne"
  let ?d1 = "foldl destroy_pos d [gf - k'..gf - 1]"
  let ?d2 = "?d1\<lparr>t_finish := ne\<rparr>"
  let ?fr = "[?mne + 1..?mf]"
  note b = wf_bounds[OF wf]
  from wf have len: "int (length (ppc_map d)) = t_mapsize d" by (simp add: wf_deque_def)
  from b(8) have k0: "0 \<le> k'" "k' \<le> gf - gs" by (simp_all add: k'_def gf_def gs_def)
  have kk: "(if int k < gf - gs then int k else gf - gs) = k'"
    by (simp add: k'_def min_def gf_def gs_def)
  have mne: "?mne = (gf - k') div 16" by (simp add: ne_def iter_at_def gf_def)
  from k0 have rng: "gs \<le> gf - k'" "gf - k' \<le> gf" by simp_all
  from run_div[OF wf, of "gf - k'"] rng mne
  have mr: "?ms \<le> ?mne" "?mne \<le> ?mf" by (simp_all add: gs_def gf_def)
  have sd: "same_dir d ?d1" by (rule foldl_same_dir) simp
  then have m1: "ppc_map ?d1 = ppc_map d" by (simp add: same_dir_def)
  have m2: "ppc_map ?d2 = ppc_map d" using m1 by simp
  \<comment> \<open>the call\<close>
  from deque_size_wf[OF wf] have sz: "deque_size d = Inr (gf - gs)" by (simp add: gf_def gs_def)
  from prev_n_finish[OF wf, of k'] k0
  have pn: "deque_iterator_prev_n d (deque_end d) k' = Inr ne"
    by (simp add: deque_end_def ne_def gf_def gs_def)
  from destroy_range_fold[OF wf rep_iter_at finish_rep[OF wf], of "gf - k'"] rng
  have dl: "for_range destroy_at ne (deque_end d) d = Inr ?d1"
    by (simp add: ne_def deque_end_def gf_def gs_def)
  from mr b len m2 have "0 \<le> ?mne + 1" "?mf < int (length (ppc_map ?d2))" by simp_all
  from free_blocks_up_fold[OF this]
  have fb: "free_blocks_up ?d2 (?mne + 1) ?mf = Inr d'" by (simp add: d'_def)
  from sz kk pn dl fb show "shrink_at_end d k = Inr d'"
    by (simp add: shrink_at_end_def Let_def deque_end_def)
  \<comment> \<open>fields\<close>
  from sd show "t_start d' = t_start d" "t_finish d' = ne" "t_mapsize d' = t_mapsize d"
    "next_addr d' = next_addr d"
    by (simp_all add: d'_def foldl_free_slot_fields same_dir_def)
  from m2 show lm: "length (ppc_map d') = length (ppc_map d)"
    by (simp add: d'_def foldl_free_slot_fields)
  \<comment> \<open>the directory\<close>
  have fr0: "\<forall>i \<in> set ?fr. 0 \<le> i" using mr b by auto
  have frb: "\<forall>i \<in> set ?fr. 0 \<le> i \<and> nat i < length (ppc_map ?d2)"
    using mr b len m2 by auto
  show mp: "ppc_map d' ! nat i =
      (if ?mne < i \<and> i \<le> ?mf then None else ppc_map d ! nat i)"
    if "0 \<le> i" "i < t_mapsize d" for i
  proof -
    from that len m2 have "nat i < length (ppc_map ?d2)" by simp
    from foldl_free_slot_map_nth[OF fr0 that(1) this] m2 show ?thesis
      by (auto simp: d'_def)
  qed
  have keep: "heap d' a = heap ?d1 a" if "?ms \<le> i" "i \<le> ?mne" "ppc_map d ! nat i = Some a" for i a
  proof -
    have "\<forall>j \<in> set ?fr. 0 \<le> j \<and> nat j < length (ppc_map ?d2) \<and> ppc_map ?d2 ! nat j \<noteq> Some a"
    proof
      fix j assume j: "j \<in> set ?fr"
      then have jr: "?mne < j" "j \<le> ?mf" by simp_all
      have "ppc_map d ! nat j \<noteq> Some a"
      proof
        assume "ppc_map d ! nat j = Some a"
        with that(3) have "ppc_map d ! nat i = ppc_map d ! nat j" by simp
        from wf_slot_inj[OF wf that(1) _ _ jr(2) this] that(2) mr jr show False by simp
      qed
      with frb j m2 show "0 \<le> j \<and> nat j < length (ppc_map ?d2) \<and> ppc_map ?d2 ! nat j \<noteq> Some a"
        by simp
    qed
    from foldl_free_slot_heap[OF this] show ?thesis by (simp add: d'_def)
  qed
  show "heap d' a = []" if "?mne < i" "i \<le> ?mf" "ppc_map d ! nat i = Some a" for i a
  proof -
    from that have "i \<in> set ?fr" by simp
    moreover from that(3) m2 have "ppc_map ?d2 ! nat i = Some a" by simp
    ultimately show ?thesis
      using foldl_free_slot_freed[OF frb distinct_upto] by (simp add: d'_def)
  qed
  \<comment> \<open>the event log\<close>
  from foldl_free_slot_evlog[OF frb distinct_upto] m2 foldl_destroy_pos_evlog[of d "[gf - k'..gf - 1]"]
  show "evlog d' = evlog d @ map (\<lambda>g. EvDestroy (ptr_at d g)) [gf - k'..gf - 1] @
           map (\<lambda>i. EvFree (ppc_map d ! nat i)) ?fr"
    by (simp add: d'_def)
  \<comment> \<open>the invariant\<close>
  have st: "t_start d' = t_start d" "t_finish d' = ne" "t_mapsize d' = t_mapsize d"
    using sd by (simp_all add: d'_def foldl_free_slot_fields same_dir_def)
  have kept: "ppc_map d' ! nat i = ppc_map d ! nat i" if "?ms \<le> i" "i \<le> ?mne" for i
    using mp[of i] that mr b len by simp
  show wf': "wf_deque d'"
  proof (rule wf_dequeI)
    from lm len st show "int (length (ppc_map d')) = t_mapsize d'" by simp
    from b st show "0 \<le> ppc_mappos (t_start d')" by simp
    from mr st show "ppc_mappos (t_start d') \<le> ppc_mappos (t_finish d')" by simp
    from mr b len st show "ppc_mappos (t_finish d') < t_mapsize d'" by simp
  next
    fix i assume "ppc_mappos (t_start d') \<le> i" "i \<le> ppc_mappos (t_finish d')"
    with st have i: "?ms \<le> i" "i \<le> ?mne" by simp_all
    with mr have "i \<le> ?mf" by simp
    from wf_slot[OF wf i(1) this] obtain a where
      a: "ppc_map d ! nat i = Some a" "length (heap d a) = 16" by auto
    from sd have "length (heap ?d1 a) = length (heap d a)" by (simp add: same_dir_def)
    with keep[OF i a(1)] kept[OF i] a
    show "\<exists>a. ppc_map d' ! nat i = Some a \<and> length (heap d' a) = 16" by simp
  next
    fix i j
    assume "ppc_mappos (t_start d') \<le> i" "i \<le> ppc_mappos (t_finish d')"
      "ppc_mappos (t_start d') \<le> j" "j \<le> ppc_mappos (t_finish d')"
      "ppc_map d' ! nat i = ppc_map d' ! nat j"
    with st have ij: "?ms \<le> i" "i \<le> ?mne" "?ms \<le> j" "j \<le> ?mne"
      and e: "ppc_map d' ! nat i = ppc_map d' ! nat j" by simp_all
    from e kept[OF ij(1,2)] kept[OF ij(3,4)]
    have "ppc_map d ! nat i = ppc_map d ! nat j" by simp
    from wf_slot_inj[OF wf ij(1) _ ij(3) _ this] ij mr show "i = j" by simp
  next
    from wf have "pc_first (t_start d) = ppc_map d ! nat ?ms" by (simp add: wf_deque_def)
    with kept[of ?ms] mr st
    show "pc_first (t_start d') = ppc_map d' ! nat (ppc_mappos (t_start d'))" by simp
    have "pc_first ne = ppc_map d ! nat ?mne" by (simp add: ne_def iter_at_def)
    with kept[of ?mne] mr st
    show "pc_first (t_finish d') = ppc_map d' ! nat (ppc_mappos (t_finish d'))" by simp
    from wf st show "0 \<le> pc_corepos (t_start d')" "pc_corepos (t_start d') \<le> 16"
      by (simp_all add: wf_deque_def)
    from st show "0 \<le> pc_corepos (t_finish d')" "pc_corepos (t_finish d') < 16"
      by (simp_all add: ne_def iter_at_def)
    from st rng show "gpos (t_start d') \<le> gpos (t_finish d')"
      by (simp add: ne_def gs_def gf_def)
  qed
  \<comment> \<open>the sequence\<close>
  have cells: "cell_at d' h = cell_at d h" if "gs \<le> h" "h < gf - k'" for h
  proof -
    from that rng have hr: "gpos (t_start d) \<le> h" "h \<le> gpos (t_finish d)"
      by (simp_all add: gs_def gf_def)
    from run_div[OF wf hr] have q: "?ms \<le> h div 16" "h div 16 \<le> ?mf" .
    from that(2) have "h div 16 \<le> (gf - k') div 16" by (simp add: zdiv_mono1)
    with mne have q2: "h div 16 \<le> ?mne" by simp
    from wf_slot[OF wf q] obtain a where a: "ppc_map d ! nat (h div 16) = Some a" by auto
    from keep[OF q(1) q2 a] kept[OF q(1) q2] a m1
    have "cell_at d' h = cell_at ?d1 h" by (simp add: cell_at_def)
    moreover have "\<forall>g \<in> set [gf - k'..gf - 1]. in_blocks d g"
      using in_blocks_run[OF wf] rng by (auto simp: gs_def gf_def)
    from foldl_destroy_pos_cells[OF wf this in_blocks_run[OF wf hr]] that
    have "cell_at ?d1 h = cell_at d h" by simp
    ultimately show ?thesis by simp
  qed
  have "elems d' = map (cell_at d') [gs..gf - k' - 1]"
    using st by (simp add: elems_def ne_def gs_def gf_def)
  also have "\<dots> = map (cell_at d) [gs..gf - k' - 1]"
    by (rule map_cong[OF refl]) (simp add: cells)
  also have "[gs..gf - k' - 1] = take (nat (gf - gs - k')) [gs..gf - 1]"
    using take_upto[of "gf - gs - k'" gs "gf - 1"] k0 by (simp add: algebra_simps)
  finally show "elems d' = take (nat (gf - gs - k')) (elems d)"
    by (simp add: elems_def take_map gs_def gf_def)
qed


lemma shrink_at_begin_wf:
  fixes d :: "'a deque" and k :: nat
  assumes wf: "wf_deque d"
  defines "gs \<equiv> gpos (t_start d)" and "gf \<equiv> gpos (t_finish d)"
  defines "k' \<equiv> min (int k) (gpos (t_finish d) - gpos (t_start d))"
  defines "nb \<equiv> (if k' = 0 then t_start d else iter_at d (gpos (t_start d) + k'))"
  defines "d' \<equiv> foldl free_slot
      ((foldl destroy_pos d [gs..gs + k' - 1])\<lparr>t_start := nb\<rparr>)
      (rev [ppc_mappos (t_start d)..ppc_mappos nb - 1])"
  shows "shrink_at_begin d k = Inr d'"
    and "t_start d' = nb" and "t_finish d' = t_finish d" and "t_mapsize d' = t_mapsize d"
    and "next_addr d' = next_addr d"
    and "wf_deque d'"
    and "elems d' = drop (nat k') (elems d)"
    and "evlog d' = evlog d @ map (\<lambda>g. EvDestroy (ptr_at d g)) [gs..gs + k' - 1] @
           map (\<lambda>i. EvFree (ppc_map d ! nat i)) (rev [ppc_mappos (t_start d)..ppc_mappos nb - 1])"
    and "length (ppc_map d') = length (ppc_map d)"
    and "\<And>i. 0 \<le> i \<Longrightarrow> i < t_mapsize d \<Longrightarrow> ppc_map d' ! nat i =
           (if ppc_mappos (t_start d) \<le> i \<and> i < ppc_mappos nb then None else ppc_map d ! nat i)"
    and "\<And>i a. ppc_mappos (t_start d) \<le> i \<Longrightarrow> i < ppc_mappos nb \<Longrightarrow>
           ppc_map d ! nat i = Some a \<Longrightarrow> heap d' a = []"
proof -
  let ?ms = "ppc_mappos (t_start d)" and ?mf = "ppc_mappos (t_finish d)"
  let ?mnb = "ppc_mappos nb"
  let ?d1 = "foldl destroy_pos d [gs..gs + k' - 1]"
  let ?d2 = "?d1\<lparr>t_start := nb\<rparr>"
  let ?fr = "rev [?ms..?mnb - 1]"
  note b = wf_bounds[OF wf]
  from wf have len: "int (length (ppc_map d)) = t_mapsize d" by (simp add: wf_deque_def)
  from b(8) have k0: "0 \<le> k'" "k' \<le> gf - gs" by (simp_all add: k'_def gf_def gs_def)
  have kk: "(if int k < gf - gs then int k else gf - gs) = k'"
    by (simp add: k'_def min_def gf_def gs_def)
  from k0 have rng: "gs \<le> gs + k'" "gs + k' \<le> gf" by simp_all
  have gnb: "gpos nb = gs + k'" by (simp add: nb_def gs_def)
  have rnb: "rep d nb (gs + k')"
    using start_rep[OF wf] rep_iter_at[of d "gs + k'"] by (simp add: nb_def gs_def)
  have mr: "?ms \<le> ?mnb" "?mnb \<le> ?mf"
  proof -
    from run_div[OF wf, of "gs + k'"] rng
    have "?ms \<le> (gs + k') div 16" "(gs + k') div 16 \<le> ?mf" by (simp_all add: gs_def gf_def)
    with b(2) show "?ms \<le> ?mnb" "?mnb \<le> ?mf" by (simp_all add: nb_def iter_at_def gs_def)
  qed
  have mlow: "?mnb \<le> h div 16" if "gs + k' \<le> h" "h \<le> gf" for h
  proof (cases "k' = 0")
    case True
    with run_div(1)[OF wf, of h] that show ?thesis by (simp add: nb_def gs_def gf_def)
  next
    case False
    from that(1) have "(gs + k') div 16 \<le> h div 16" by (simp add: zdiv_mono1)
    with False show ?thesis by (simp add: nb_def iter_at_def gs_def)
  qed
  have sd: "same_dir d ?d1" by (rule foldl_same_dir) simp
  then have m1: "ppc_map ?d1 = ppc_map d" by (simp add: same_dir_def)
  have m2: "ppc_map ?d2 = ppc_map d" using m1 by simp
  \<comment> \<open>the call\<close>
  from deque_size_wf[OF wf] have sz: "deque_size d = Inr (gf - gs)" by (simp add: gf_def gs_def)
  from next_n_start[OF wf, of k'] k0
  have pn: "deque_iterator_next_n d (deque_begin d) k' = Inr nb"
    by (simp add: deque_begin_def nb_def gf_def gs_def)
  from destroy_range_fold[OF wf start_rep[OF wf] rnb] rng
  have dl: "for_range destroy_at (deque_begin d) nb d = Inr ?d1"
    by (simp add: deque_begin_def gf_def gs_def)
  from mr b len m2 have "0 \<le> ?ms" "?mnb - 1 < int (length (ppc_map ?d2))" by simp_all
  from free_blocks_down_fold[OF this]
  have fb: "free_blocks_down ?d2 (?mnb - 1) ?ms = Inr d'" by (simp add: d'_def)
  from sz kk pn dl fb show "shrink_at_begin d k = Inr d'"
    by (simp add: shrink_at_begin_def Let_def deque_begin_def)
  \<comment> \<open>fields\<close>
  from sd show "t_start d' = nb" "t_finish d' = t_finish d" "t_mapsize d' = t_mapsize d"
    "next_addr d' = next_addr d"
    by (simp_all add: d'_def foldl_free_slot_fields same_dir_def)
  from m2 show lm: "length (ppc_map d') = length (ppc_map d)"
    by (simp add: d'_def foldl_free_slot_fields)
  \<comment> \<open>the directory\<close>
  have fr0: "\<forall>i \<in> set ?fr. 0 \<le> i" using mr b by auto
  have frb: "\<forall>i \<in> set ?fr. 0 \<le> i \<and> nat i < length (ppc_map ?d2)"
    using mr b len m2 by auto
  have dfr: "distinct ?fr" by simp
  show mp: "ppc_map d' ! nat i =
      (if ?ms \<le> i \<and> i < ?mnb then None else ppc_map d ! nat i)"
    if "0 \<le> i" "i < t_mapsize d" for i
  proof -
    from that len m2 have "nat i < length (ppc_map ?d2)" by simp
    from foldl_free_slot_map_nth[OF fr0 that(1) this] m2 show ?thesis
      by (auto simp: d'_def)
  qed
  have keep: "heap d' a = heap ?d1 a" if "?mnb \<le> i" "i \<le> ?mf" "ppc_map d ! nat i = Some a" for i a
  proof -
    have "\<forall>j \<in> set ?fr. 0 \<le> j \<and> nat j < length (ppc_map ?d2) \<and> ppc_map ?d2 ! nat j \<noteq> Some a"
    proof
      fix j assume j: "j \<in> set ?fr"
      then have jr: "?ms \<le> j" "j < ?mnb" by simp_all
      have "ppc_map d ! nat j \<noteq> Some a"
      proof
        assume "ppc_map d ! nat j = Some a"
        with that(3) have "ppc_map d ! nat j = ppc_map d ! nat i" by simp
        from wf_slot_inj[OF wf jr(1) _ _ that(2) this] that(1) mr jr show False by simp
      qed
      with frb j m2 show "0 \<le> j \<and> nat j < length (ppc_map ?d2) \<and> ppc_map ?d2 ! nat j \<noteq> Some a"
        by simp
    qed
    from foldl_free_slot_heap[OF this] show ?thesis by (simp add: d'_def)
  qed
  show "heap d' a = []" if "?ms \<le> i" "i < ?mnb" "ppc_map d ! nat i = Some a" for i a
  proof -
    from that have "i \<in> set ?fr" by simp
    moreover from that(3) m2 have "ppc_map ?d2 ! nat i = Some a" by simp
    ultimately show ?thesis
      using foldl_free_slot_freed[OF frb dfr] by (simp add: d'_def)
  qed
  \<comment> \<open>the event log\<close>
  from foldl_free_slot_evlog[OF frb dfr] m2 foldl_destroy_pos_evlog[of d "[gs..gs + k' - 1]"]
  show "evlog d' = evlog d @ map (\<lambda>g. EvDestroy (ptr_at d g)) [gs..gs + k' - 1] @
           map (\<lambda>i. EvFree (ppc_map d ! nat i)) ?fr"
    by (simp add: d'_def)
  \<comment> \<open>the invariant\<close>
  have st: "t_start d' = nb" "t_finish d' = t_finish d" "t_mapsize d' = t_mapsize d"
    using sd by (simp_all add: d'_def foldl_free_slot_fields same_dir_def)
  have kept: "ppc_map d' ! nat i = ppc_map d ! nat i" if "?mnb \<le> i" "i \<le> ?mf" for i
    using mp[of i] that mr b len by simp
  show wf': "wf_deque d'"
  proof (rule wf_dequeI)
    from lm len st show "int (length (ppc_map d')) = t_mapsize d'" by simp
    from b mr st show "0 \<le> ppc_mappos (t_start d')" by simp
    from mr st show "ppc_mappos (t_start d') \<le> ppc_mappos (t_finish d')" by simp
    from mr b len st show "ppc_mappos (t_finish d') < t_mapsize d'" by simp
  next
    fix i assume "ppc_mappos (t_start d') \<le> i" "i \<le> ppc_mappos (t_finish d')"
    with st have i: "?mnb \<le> i" "i \<le> ?mf" by simp_all
    with mr have "?ms \<le> i" by simp
    from wf_slot[OF wf this i(2)] obtain a where
      a: "ppc_map d ! nat i = Some a" "length (heap d a) = 16" by auto
    from sd have "length (heap ?d1 a) = length (heap d a)" by (simp add: same_dir_def)
    with keep[OF i a(1)] kept[OF i] a
    show "\<exists>a. ppc_map d' ! nat i = Some a \<and> length (heap d' a) = 16" by simp
  next
    fix i j
    assume "ppc_mappos (t_start d') \<le> i" "i \<le> ppc_mappos (t_finish d')"
      "ppc_mappos (t_start d') \<le> j" "j \<le> ppc_mappos (t_finish d')"
      "ppc_map d' ! nat i = ppc_map d' ! nat j"
    with st have ij: "?mnb \<le> i" "i \<le> ?mf" "?mnb \<le> j" "j \<le> ?mf"
      and e: "ppc_map d' ! nat i = ppc_map d' ! nat j" by simp_all
    from e kept[OF ij(1,2)] kept[OF ij(3,4)]
    have "ppc_map d ! nat i = ppc_map d ! nat j" by simp
    from wf_slot_inj[OF wf _ ij(2) _ ij(4) this] ij mr show "i = j" by simp
  next
    from wf have "pc_first (t_start d) = ppc_map d ! nat ?ms" by (simp add: wf_deque_def)
    then have "pc_first nb = ppc_map d ! nat ?mnb" by (simp add: nb_def iter_at_def)
    with kept[of ?mnb] mr st
    show "pc_first (t_start d') = ppc_map d' ! nat (ppc_mappos (t_start d'))" by simp
    from wf have "pc_first (t_finish d) = ppc_map d ! nat ?mf" by (simp add: wf_deque_def)
    with kept[of ?mf] mr st
    show "pc_first (t_finish d') = ppc_map d' ! nat (ppc_mappos (t_finish d'))" by simp
    have "(gs + k') mod 16 < 16" by simp
    then have "(gs + k') mod 16 \<le> 16" by (rule less_imp_le)
    with wf st show "0 \<le> pc_corepos (t_start d')" "pc_corepos (t_start d') \<le> 16"
      by (simp_all add: wf_deque_def nb_def iter_at_def gs_def)
    from wf st show "0 \<le> pc_corepos (t_finish d')" "pc_corepos (t_finish d') < 16"
      by (simp_all add: wf_deque_def)
    from st rng gnb show "gpos (t_start d') \<le> gpos (t_finish d')"
      by (simp add: gf_def)
  qed
  \<comment> \<open>the sequence\<close>
  have cells: "cell_at d' h = cell_at d h" if "gs + k' \<le> h" "h < gf" for h
  proof -
    from that rng have hr: "gpos (t_start d) \<le> h" "h \<le> gpos (t_finish d)"
      by (simp_all add: gs_def gf_def)
    from run_div[OF wf hr] have q: "?ms \<le> h div 16" "h div 16 \<le> ?mf" .
    from mlow[of h] that have q2: "?mnb \<le> h div 16" by simp
    from wf_slot[OF wf q] obtain a where a: "ppc_map d ! nat (h div 16) = Some a" by auto
    from keep[OF q2 q(2) a] kept[OF q2 q(2)] a m1
    have "cell_at d' h = cell_at ?d1 h" by (simp add: cell_at_def)
    moreover have "\<forall>g \<in> set [gs..gs + k' - 1]. in_blocks d g"
      using in_blocks_run[OF wf] rng by (auto simp: gs_def gf_def)
    from foldl_destroy_pos_cells[OF wf this in_blocks_run[OF wf hr]] that
    have "cell_at ?d1 h = cell_at d h" by simp
    ultimately show ?thesis by simp
  qed
  have "elems d' = map (cell_at d') [gs + k'..gf - 1]"
    using st gnb by (simp add: elems_def gf_def)
  also have "\<dots> = map (cell_at d) [gs + k'..gf - 1]"
    by (rule map_cong[OF refl]) (simp add: cells)
  also have "[gs + k'..gf - 1] = drop (nat k') [gs..gf - 1]"
    using drop_upto[of k' gs "gf - 1"] k0 by simp
  finally show "elems d' = drop (nat k') (elems d)"
    by (simp add: elems_def drop_map gs_def gf_def)
qed


lemma ex_full_wf: "wf_deque ex_full"
  by code_simp

text \<open>
  Claim C5, as stated: a shrink deallocates exactly the blocks that lie wholly outside
  the new range \<open>[start, end)\<close>.  The block the new end iterator points into is kept
  even when no element of the new range lies in it: the example deque holds 209
  elements, the last one alone in the block of directory slot 14; after a shrink by
  one at the end the end iterator is at offset 0 of that block, every element of the
  new range lies in an earlier block, and slot 14 still holds the block, which is
  still allocated.
\<close>

theorem C5_end_block_kept_counterexample:
  "\<not> isl (shrink_at_end ex_full 1) \<and>
   gpos (t_start (projr (shrink_at_end ex_full 1))) = 16 \<and>
   gpos (t_finish (projr (shrink_at_end ex_full 1))) = 16 * 14 \<and>
   ppc_map (projr (shrink_at_end ex_full 1)) ! 14 = Some 14 \<and>
   length (heap (projr (shrink_at_end ex_full 1)) 14) = 16"
  by code_simp

text \<open>
  Claim C5, amended.  On a deque that satisfies the data invariant and holds \<open>n\<close>
  elements, \<open>shrink_at_end d k\<close> (respectively \<open>shrink_at_begin d k\<close>) returns a deque
  \<open>d'\<close> that satisfies the invariant again, and with \<open>k' = min k n\<close>:
  the new size is \<open>n - k'\<close> and the sequence is the old one without its last
  (respectively first) \<open>k'\<close> elements; the other boundary iterator is unchanged and the
  moved one is \<open>k'\<close> positions further inward; the events of the call are the
  destructions of the \<open>k'\<close> positions at that end, in ascending order, followed by the
  deallocations of the blocks of the directory slots strictly beyond the slot of the new
  end iterator (respectively strictly before the slot of the new begin iterator); exactly
  these directory slots of the old valid run become null and their blocks are gone
  from the heap; every slot of the new valid run keeps its block.
\<close>

theorem C5_shrink_clamps_destroys_frees:
  assumes "wf_deque d"
  shows "(\<exists>d' n. deque_size d = Inr n \<and> shrink_at_end d k = Inr d' \<and> wf_deque d' \<and>
           deque_size d' = Inr (n - min (int k) n) \<and>
           elems d' = take (nat (n - min (int k) n)) (elems d) \<and>
           t_start d' = t_start d \<and>
           gpos (t_finish d') = gpos (t_finish d) - min (int k) n \<and>
           evlog d' = evlog d @
             map (\<lambda>g. EvDestroy (ptr_at d g))
               [gpos (t_finish d) - min (int k) n..gpos (t_finish d) - 1] @
             map (\<lambda>i. EvFree (ppc_map d ! nat i))
               [ppc_mappos (t_finish d') + 1..ppc_mappos (t_finish d)] \<and>
           (\<forall>i. 0 \<le> i \<and> i < t_mapsize d \<longrightarrow> ppc_map d' ! nat i =
              (if ppc_mappos (t_finish d') < i \<and> i \<le> ppc_mappos (t_finish d) then None
               else ppc_map d ! nat i)) \<and>
           (\<forall>i a. ppc_mappos (t_finish d') < i \<and> i \<le> ppc_mappos (t_finish d) \<and>
              ppc_map d ! nat i = Some a \<longrightarrow> heap d' a = []) \<and>
           (\<forall>i. ppc_mappos (t_start d') \<le> i \<and> i \<le> ppc_mappos (t_finish d') \<longrightarrow>
              (\<exists>a. ppc_map d' ! nat i = Some a \<and> length (heap d' a) = 16))) \<and>
         (\<exists>d' n. deque_size d = Inr n \<and> shrink_at_begin d k = Inr d' \<and> wf_deque d' \<and>
           deque_size d' = Inr (n - min (int k) n) \<and>
           elems d' = drop (nat (min (int k) n)) (elems d) \<and>
           t_finish d' = t_finish d \<and>
           gpos (t_start d') = gpos (t_start d) + min (int k) n \<and>
           evlog d' = evlog d @
             map (\<lambda>g. EvDestroy (ptr_at d g))
               [gpos (t_start d)..gpos (t_start d) + min (int k) n - 1] @
             map (\<lambda>i. EvFree (ppc_map d ! nat i))
               (rev [ppc_mappos (t_start d)..ppc_mappos (t_start d') - 1]) \<and>
           (\<forall>i. 0 \<le> i \<and> i < t_mapsize d \<longrightarrow> ppc_map d' ! nat i =
              (if ppc_mappos (t_start d) \<le> i \<and> i < ppc_mappos (t_start d') then None
               else ppc_map d ! nat i)) \<and>
           (\<forall>i a. ppc_mappos (t_start d) \<le> i \<and> i < ppc_mappos (t_start d') \<and>
              ppc_map d ! nat i = Some a \<longrightarrow> heap d' a = []) \<and>
           (\<forall>i. ppc_mappos (t_start d') \<le> i \<and> i \<le> ppc_mappos (t_finish d') \<longrightarrow>
              (\<exists>a. ppc_map d' ! nat i = Some a \<and> length (heap d' a) = 16)))"
proof (rule conjI)
  let ?n = "gpos (t_finish d) - gpos (t_start d)"
  let ?k = "min (int k) ?n"
  note wf = assms
  note sz = deque_size_wf[OF wf]
  note b = wf_bounds[OF wf]
  from b(8) have k0: "0 \<le> ?k" "?k \<le> ?n" by simp_all
  {
    let ?ne = "iter_at d (gpos (t_finish d) - ?k)"
    let ?d' = "foldl free_slot
      ((foldl destroy_pos d [gpos (t_finish d) - ?k..gpos (t_finish d) - 1])\<lparr>t_finish := ?ne\<rparr>)
      [ppc_mappos ?ne + 1..ppc_mappos (t_finish d)]"
    note e = shrink_at_end_wf[OF wf, where k = k]
    have gf: "gpos (t_finish ?d') = gpos (t_finish d) - ?k" by (simp add: e(3))
    have s': "deque_size ?d' = Inr (?n - ?k)"
      using deque_size_wf[OF e(6)] gf by (simp add: e(2))
    have sl: "\<forall>i. ppc_mappos (t_start ?d') \<le> i \<and> i \<le> ppc_mappos (t_finish ?d') \<longrightarrow>
              (\<exists>a. ppc_map ?d' ! nat i = Some a \<and> length (heap ?d' a) = 16)"
      using wf_slot[OF e(6)] by blast
    have mp: "\<forall>i. 0 \<le> i \<and> i < t_mapsize d \<longrightarrow> ppc_map ?d' ! nat i =
              (if ppc_mappos (t_finish ?d') < i \<and> i \<le> ppc_mappos (t_finish d) then None
               else ppc_map d ! nat i)"
      using e(10) by (simp add: e(3))
    have fr: "\<forall>i a. ppc_mappos (t_finish ?d') < i \<and> i \<le> ppc_mappos (t_finish d) \<and>
              ppc_map d ! nat i = Some a \<longrightarrow> heap ?d' a = []"
      using e(11) by (simp add: e(3)) blast
    have ev: "evlog ?d' = evlog d @
             map (\<lambda>g. EvDestroy (ptr_at d g)) [gpos (t_finish d) - ?k..gpos (t_finish d) - 1] @
             map (\<lambda>i. EvFree (ppc_map d ! nat i))
               [ppc_mappos (t_finish ?d') + 1..ppc_mappos (t_finish d)]"
      using e(8) by (simp add: e(3))
    have el: "elems ?d' = take (nat (?n - ?k)) (elems d)"
      using e(7) by (simp add: algebra_simps)
    from sz e(1) e(6) s' el e(2) gf ev mp fr sl
    show "\<exists>d' n. deque_size d = Inr n \<and> shrink_at_end d k = Inr d' \<and> wf_deque d' \<and>
           deque_size d' = Inr (n - min (int k) n) \<and>
           elems d' = take (nat (n - min (int k) n)) (elems d) \<and>
           t_start d' = t_start d \<and>
           gpos (t_finish d') = gpos (t_finish d) - min (int k) n \<and>
           evlog d' = evlog d @
             map (\<lambda>g. EvDestroy (ptr_at d g))
               [gpos (t_finish d) - min (int k) n..gpos (t_finish d) - 1] @
             map (\<lambda>i. EvFree (ppc_map d ! nat i))
               [ppc_mappos (t_finish d') + 1..ppc_mappos (t_finish d)] \<and>
           (\<forall>i. 0 \<le> i \<and> i < t_mapsize d \<longrightarrow> ppc_map d' ! nat i =
              (if ppc_mappos (t_finish d') < i \<and> i \<le> ppc_mappos (t_finish d) then None
               else ppc_map d ! nat i)) \<and>
           (\<forall>i a. ppc_mappos (t_finish d') < i \<and> i \<le> ppc_mappos (t_finish d) \<and>
              ppc_map d ! nat i = Some a \<longrightarrow> heap d' a = []) \<and>
           (\<forall>i. ppc_mappos (t_start d') \<le> i \<and> i \<le> ppc_mappos (t_finish d') \<longrightarrow>
              (\<exists>a. ppc_map d' ! nat i = Some a \<and> length (heap d' a) = 16))"
      by (intro exI[of _ ?d'] exI[of _ ?n] conjI)
  }
  {
    let ?nb = "if ?k = 0 then t_start d else iter_at d (gpos (t_start d) + ?k)"
    let ?d' = "foldl free_slot
      ((foldl destroy_pos d [gpos (t_start d)..gpos (t_start d) + ?k - 1])\<lparr>t_start := ?nb\<rparr>)
      (rev [ppc_mappos (t_start d)..ppc_mappos ?nb - 1])"
    note e = shrink_at_begin_wf[OF wf, where k = k]
    have gs: "gpos (t_start ?d') = gpos (t_start d) + ?k" by (simp add: e(2))
    have s': "deque_size ?d' = Inr (?n - ?k)"
      using deque_size_wf[OF e(6)] gs by (simp add: e(3))
    have sl: "\<forall>i. ppc_mappos (t_start ?d') \<le> i \<and> i \<le> ppc_mappos (t_finish ?d') \<longrightarrow>
              (\<exists>a. ppc_map ?d' ! nat i = Some a \<and> length (heap ?d' a) = 16)"
      using wf_slot[OF e(6)] by blast
    have mp: "\<forall>i. 0 \<le> i \<and> i < t_mapsize d \<longrightarrow> ppc_map ?d' ! nat i =
              (if ppc_mappos (t_start d) \<le> i \<and> i < ppc_mappos (t_start ?d') then None
               else ppc_map d ! nat i)"
      using e(10) unfolding e(2) by blast
    have fr: "\<forall>i a. ppc_mappos (t_start d) \<le> i \<and> i < ppc_mappos (t_start ?d') \<and>
              ppc_map d ! nat i = Some a \<longrightarrow> heap ?d' a = []"
      using e(11) unfolding e(2) by blast
    have ev: "evlog ?d' = evlog d @
             map (\<lambda>g. EvDestroy (ptr_at d g)) [gpos (t_start d)..gpos (t_start d) + ?k - 1] @
             map (\<lambda>i. EvFree (ppc_map d ! nat i))
               (rev [ppc_mappos (t_start d)..ppc_mappos (t_start ?d') - 1])"
      unfolding e(2) by (rule e(8))
    from sz e(1) e(6) s' e(7) e(3) gs ev mp fr sl
    show "\<exists>d' n. deque_size d = Inr n \<and> shrink_at_begin d k = Inr d' \<and> wf_deque d' \<and>
           deque_size d' = Inr (n - min (int k) n) \<and>
           elems d' = drop (nat (min (int k) n)) (elems d) \<and>
           t_finish d' = t_finish d \<and>
           gpos (t_start d') = gpos (t_start d) + min (int k) n \<and>
           evlog d' = evlog d @
             map (\<lambda>g. EvDestroy (ptr_at d g))
               [gpos (t_start d)..gpos (t_start d) + min (int k) n - 1] @
             map (\<lambda>i. EvFree (ppc_map d ! nat i))
               (rev [ppc_mappos (t_start d)..ppc_mappos (t_start d') - 1]) \<and>
           (\<forall>i. 0 \<le> i \<and> i < t_mapsize d \<longrightarrow> ppc_map d' ! nat i =
              (if ppc_mappos (t_start d) \<le> i \<and> i < ppc_mappos (t_start d') then None
               else ppc_map d ! nat i)) \<and>
           (\<forall>i a. ppc_mappos (t_start d) \<le> i \<and> i < ppc_mappos (t_start d') \<and>
              ppc_map d ! nat i = Some a \<longrightarrow> heap d' a = []) \<and>
           (\<forall>i. ppc_mappos (t_start d') \<le> i \<and> i \<le> ppc_mappos (t_finish d') \<longrightarrow>
              (\<exists>a. ppc_map d' ! nat i = Some a \<and> length (heap d' a) = 16))"
      by (intro exI[of _ ?d'] exI[of _ ?n] conjI)
  }
qed

theorem C5_shrink_clamps_destroys_frees_witness:
  "wf_deque ex_full \<and> deque_size ex_full = Inr 209 \<and>
   (\<exists>d'. shrink_at_end ex_full 20 = Inr d' \<and> wf_deque d' \<and> deque_size d' = Inr 189 \<and>
      elems d' = take 189 (elems ex_full) \<and> gpos (t_finish d') = gpos (t_finish ex_full) - 20) \<and>
   (\<exists>d'. shrink_at_begin ex_full 20 = Inr d' \<and> wf_deque d' \<and> deque_size d' = Inr 189 \<and>
      elems d' = drop 20 (elems ex_full) \<and> gpos (t_start d') = gpos (t_start ex_full) + 20)"
proof -
  have sz: "deque_size ex_full = Inr 209" by code_simp
  from C5_shrink_clamps_destroys_frees[OF ex_full_wf, of 20] sz
  have "\<exists>d'. shrink_at_end ex_full 20 = Inr d' \<and> wf_deque d' \<and> deque_size d' = Inr 189 \<and>
      elems d' = take 189 (elems ex_full) \<and> gpos (t_finish d') = gpos (t_finish ex_full) - 20"
    "\<exists>d'. shrink_at_begin ex_full 20 = Inr d' \<and> wf_deque d' \<and> deque_size d' = Inr 189 \<and>
      elems d' = drop 20 (elems ex_full) \<and> gpos (t_start d') = gpos (t_start ex_full) + 20"
    by auto
  with ex_full_wf sz show ?thesis by simp
qed


section \<open>Moving a range toward the front\<close>

lemma copy_at_rep:
  assumes wf: "wf_deque d" and "rep d t gt" "rep d s gsrc"
    and "gpos (t_start d) \<le> gt" "gt < gpos (t_finish d)"
    and "gpos (t_start d) \<le> gsrc" "gsrc < gpos (t_finish d)"
  shows "copy_at d t s = Inr (copy_pos (gsrc - gt) d gsrc)"
proof -
  from ptr_rep[OF wf assms(2,4,5)] ptr_rep[OF wf assms(3,6,7)]
  have p: "deque_iterator_get_pointer_auxiliary d t = Inr (ptr_at d gt)"
    "deque_iterator_get_pointer_auxiliary d s = Inr (ptr_at d gsrc)" .
  from assms have ib: "in_blocks d gt" "in_blocks d gsrc"
    by (simp_all add: in_blocks_run)
  from read_cell_ptr_at[OF wf ib(2)] write_cell_ptr_at[OF wf ib(1)] p show ?thesis
    by (simp add: copy_at_def copy_elem_def copy_pos_def)
qed

lemma upto_snoc: "a \<le> b \<Longrightarrow> [a..b] = [a..b - 1] @ [b]"
  using upto_rec2[of a b] by simp

lemma foldl_copy_pos_evlog:
  "evlog (foldl (copy_pos k) d gs) =
     evlog d @ map (\<lambda>g. EvCopy (ptr_at d (g - k)) (ptr_at d g)) gs"
proof (induction gs arbitrary: d)
  case Nil
  show ?case by simp
next
  case (Cons g gs)
  have "ptr_at (copy_pos k d g) = ptr_at d" by (rule same_dir_ptr_at) simp
  with Cons[of "copy_pos k d g"] show ?case by (simp add: copy_pos_def)
qed

lemma foldl_copy_pos_cells:
  assumes wf: "wf_deque d" and k: "0 < k"
    and lo: "gpos (t_start d) \<le> gb - k"
  shows "gb \<le> ge \<Longrightarrow> ge \<le> gpos (t_finish d) \<Longrightarrow> in_blocks d h \<Longrightarrow>
         cell_at (foldl (copy_pos k) d [gb..ge - 1]) h =
           (if gb - k \<le> h \<and> h < ge - k then cell_at d (h + k) else cell_at d h)"
proof (induction "nat (ge - gb)" arbitrary: ge h)
  case 0
  then show ?case by auto
next
  case (Suc n)
  let ?d1 = "foldl (copy_pos k) d [gb..ge - 1 - 1]"
  from Suc.hyps(2) Suc.prems have lt: "gb \<le> ge - 1" "n = nat (ge - 1 - gb)"
    "ge - 1 \<le> gpos (t_finish d)" by simp_all
  note IH = Suc.hyps(1)[OF lt(2) lt(1) lt(3)]
  have sd: "same_dir d ?d1" by (rule foldl_same_dir) simp
  note wf1 = same_dir_wf[OF sd wf]
  note ib1 = same_dir_in_blocks[OF sd]
  from lt k lo have "gpos (t_start d) \<le> ge - 1" "gpos (t_start d) \<le> ge - 1 - k"
    "ge - 1 - k \<le> gpos (t_finish d)" by simp_all
  with lt(3) have ib: "in_blocks d (ge - 1)" "in_blocks d (ge - 1 - k)"
    by (simp_all add: in_blocks_run[OF wf])
  from IH[OF ib(1)] k have src: "cell_at ?d1 (ge - 1) = cell_at d (ge - 1)" by simp
  have "foldl (copy_pos k) d [gb..ge - 1] = copy_pos k ?d1 (ge - 1)"
    by (simp add: upto_snoc[OF lt(1)])
  moreover from cell_at_set_cell[of ?d1 "ge - 1 - k" h "cell_at ?d1 (ge - 1)"] wf1 ib Suc.prems(3) ib1
  have "cell_at (copy_pos k ?d1 (ge - 1)) h =
      (if h = ge - 1 - k then cell_at ?d1 (ge - 1) else cell_at ?d1 h)"
    by (simp add: copy_pos_def)
  ultimately show ?case using src IH[OF Suc.prems(3)] lt(1) by (auto simp: algebra_simps)
qed

lemma move_fwd_fold:
  assumes wf: "wf_deque d" and k: "0 < k"
    and rte: "rep d te (ge - k)" and re: "rep d e ge" and hi: "ge \<le> gpos (t_finish d)"
  shows "rep d tb (gb - k) \<Longrightarrow> rep d b gb \<Longrightarrow> gpos (t_start d) \<le> gb - k \<Longrightarrow> gb \<le> ge \<Longrightarrow>
         same_dir d d1 \<Longrightarrow>
         move_fwd d1 tb te b e =
           Inr (foldl (copy_pos k) d1 [gb..ge - 1],
                if gb = ge then tb else iter_at d (ge - k),
                if gb = ge then b else iter_at d ge)"
proof (induction "nat (ge - gb)" arbitrary: d1 tb b gb)
  case 0
  then have eq: "gb = ge" by simp
  note wf1 = same_dir_wf[OF "0.prems"(5) wf]
  note e1 = same_dir_ends[OF "0.prems"(5)]
  note r1 = same_dir_rep[OF "0.prems"(5)]
  from less_rep[OF wf1, of tb "gb - k" te "ge - k"] "0.prems" rte hi k eq r1 e1
  have "deque_iterator_less d1 tb te = Inr False" by simp
  with eq show ?case by (subst move_fwd.simps) simp
next
  case (Suc n)
  from Suc.hyps(2) have lt: "gb < ge" by simp
  note sd = Suc.prems(5)
  note wf1 = same_dir_wf[OF sd wf]
  note e1 = same_dir_ends[OF sd]
  note r1 = same_dir_rep[OF sd]
  from less_rep[OF wf1, of tb "gb - k" te "ge - k"] Suc.prems rte hi k lt r1 e1
  have l1: "deque_iterator_less d1 tb te = Inr True" by simp
  from less_rep[OF wf1, of b gb e ge] Suc.prems re hi k lt r1 e1
  have l2: "deque_iterator_less d1 b e = Inr True" by simp
  let ?d2 = "copy_pos k d1 gb"
  from copy_at_rep[OF wf1, of tb "gb - k" b gb] Suc.prems r1 e1 hi lt k
  have cp: "copy_at d1 tb b = Inr ?d2" by simp
  have sd12: "same_dir d1 ?d2" by simp
  note sd2 = same_dir_trans[OF sd sd12]
  note wf2 = same_dir_wf[OF sd2 wf]
  note e2 = same_dir_ends[OF sd2]
  note r2 = same_dir_rep[OF sd2]
  note i2 = same_dir_iter_at[OF sd2]
  from next_rep[OF wf2, of tb "gb - k"] Suc.prems r2 e2 hi lt k i2
  have n1: "deque_iterator_next ?d2 tb = Inr (iter_at d (gb + 1 - k))"
    by (simp add: algebra_simps)
  from next_rep[OF wf2, of b gb] Suc.prems r2 e2 hi lt k i2
  have n2: "deque_iterator_next ?d2 b = Inr (iter_at d (gb + 1))" by simp
  from Suc.hyps(2) have "n = nat (ge - (gb + 1))" by simp
  from Suc.hyps(1)[OF this _ _ _ _ sd2, of "iter_at d (gb + 1 - k)" "iter_at d (gb + 1)"]
    Suc.prems lt
  have rec: "move_fwd ?d2 (iter_at d (gb + 1 - k)) te (iter_at d (gb + 1)) e =
      Inr (foldl (copy_pos k) ?d2 [gb + 1..ge - 1],
           if gb + 1 = ge then iter_at d (gb + 1 - k) else iter_at d (ge - k),
           if gb + 1 = ge then iter_at d (gb + 1) else iter_at d ge)"
    by simp
  have it: "(if gb + 1 = ge then iter_at d (gb + 1 - k) else iter_at d (ge - k)) = iter_at d (ge - k)"
    "(if gb + 1 = ge then iter_at d (gb + 1) else iter_at d ge) = iter_at d ge"
    by auto
  from lt have "[gb..ge - 1] = gb # [gb + 1..ge - 1]" by (simp add: upto_rec1)
  with l1 l2 cp n1 n2 rec it lt show ?case
    by (subst move_fwd.simps) simp
qed

lemma move_elem_to_begin_fold:
  assumes wf: "wf_deque d" and k: "0 < k"
    and rb: "rep d b gb" and re: "rep d e ge"
    and lo: "gpos (t_start d) \<le> gb - int k" and le: "gb \<le> ge" and hi: "ge \<le> gpos (t_finish d)"
  shows "move_elem_to_begin d b e k =
           Inr (foldl (copy_pos (int k)) d [gb..ge - 1], iter_at d (ge - int k))"
proof (cases "gb = ge")
  case True
  from prev_times_rep[OF wf re, of k] lo le hi k True
  have "deque_iterator_prev_n d e (int k) = Inr (iter_at d (ge - int k))"
    by (simp add: deque_iterator_prev_n_def deque_iterator_next_n_def)
  with True equal_rep[OF rb re] show ?thesis by (simp add: move_elem_to_begin_def)
next
  case False
  with le have lt: "gb < ge" by simp
  from equal_rep[OF rb re] False have ne: "\<not> deque_iterator_equal b e" by simp
  from less_rep[OF wf rb re] lo le hi k lt
  have b1: "deque_iterator_before d b e = Inr True" by (simp add: deque_iterator_before_def)
  from prev_times_rep[OF wf rb, of k] lo le hi k
  have p1: "deque_iterator_prev_n d b (int k) = Inr (iter_at d (gb - int k))"
    by (simp add: deque_iterator_prev_n_def deque_iterator_next_n_def)
  from prev_times_rep[OF wf re, of k] lo le hi k
  have p2: "deque_iterator_prev_n d e (int k) = Inr (iter_at d (ge - int k))"
    by (simp add: deque_iterator_prev_n_def deque_iterator_next_n_def)
  from less_rep[OF wf, of "iter_at d (gb - int k)" "gb - int k" "iter_at d (ge - int k)" "ge - int k"]
    lo le hi k lt
  have b2: "deque_iterator_before d (iter_at d (gb - int k)) (iter_at d (ge - int k)) = Inr True"
    by (simp add: deque_iterator_before_def)
  from move_fwd_fold[where k = "int k" and te = "iter_at d (ge - int k)"
      and tb = "iter_at d (gb - int k)", OF wf _ _ re hi _ rb lo le same_dir_refl] k False
  have mv: "move_fwd d (iter_at d (gb - int k)) (iter_at d (ge - int k)) b e =
      Inr (foldl (copy_pos (int k)) d [gb..ge - 1], iter_at d (ge - int k), iter_at d ge)"
    by simp
  from equal_rep[OF rep_iter_at re, of ge]
  have q: "deque_iterator_equal (iter_at d ge) e" by simp
  from ne k b1 p1 p2 b2 mv q show ?thesis
    by (simp add: move_elem_to_begin_def assert_res_def)
qed


section \<open>Erasing one element\<close>

lemma map_upto_shift: "map f [a + 1..b + 1] = map (\<lambda>h. f (h + 1)) [a..b]"
proof (rule nth_equalityI)
  show "length (map f [a + 1..b + 1]) = length (map (\<lambda>h. f (h + 1)) [a..b])" by simp
next
  fix i assume "i < length (map f [a + 1..b + 1])"
  then have "i < nat (b - a + 1)" by simp
  then have "a + 1 + int i \<le> b + 1" "a + int i \<le> b" by simp_all
  then show "map f [a + 1..b + 1] ! i = map (\<lambda>h. f (h + 1)) [a..b] ! i"
    by (simp add: algebra_simps)
qed

lemma upto_split_at:
  assumes "a \<le> g" "g \<le> b + 1"
  shows "[a..b] = [a..g - 1] @ [g..b]"
proof (cases "g \<le> b")
  case True
  with assms(1) show ?thesis by (rule upto_split1)
next
  case False
  with assms(2) have "g = b + 1" by simp
  then show ?thesis by simp
qed

lemma no_copy_in_shrink:
  assumes "l' = l @ map (\<lambda>g. EvDestroy (f g)) xs @ map (\<lambda>i. EvFree (h i)) ys"
  shows "\<forall>a b. EvCopy a b \<notin> set (drop (length l) l')"
  using assms by auto

lemma shrink_at_end_seq:
  assumes wf: "wf_deque d"
  shows "\<exists>d'. shrink_at_end d k = Inr d' \<and> wf_deque d' \<and>
           elems d' = take (length (elems d) - k) (elems d) \<and>
           (\<forall>a b. EvCopy a b \<notin> set (drop (length (evlog d)) (evlog d')))"
proof -
  note e = shrink_at_end_wf[OF wf, where k = k]
  note b = wf_bounds[OF wf]
  have "nat (gpos (t_finish d) - gpos (t_start d) -
      min (int k) (gpos (t_finish d) - gpos (t_start d))) = length (elems d) - k"
    using b(8) by (auto simp: elems_def min_def nat_diff_distrib)
  with e(7) no_copy_in_shrink[OF e(8)] e(1) e(6) show ?thesis by simp
qed

lemma shrink_at_begin_seq:
  assumes wf: "wf_deque d"
  shows "\<exists>d'. shrink_at_begin d k = Inr d' \<and> wf_deque d' \<and>
           elems d' = drop k (elems d) \<and>
           (\<forall>a b. EvCopy a b \<notin> set (drop (length (evlog d)) (evlog d')))"
proof -
  note e = shrink_at_begin_wf[OF wf, where k = k]
  note b = wf_bounds[OF wf]
  have "drop (nat (min (int k) (gpos (t_finish d) - gpos (t_start d)))) (elems d) =
      drop k (elems d)"
    using b(8) by (auto simp: elems_def min_def)
  with e(7) no_copy_in_shrink[OF e(8)] e(1) e(6) show ?thesis by simp
qed

lemma erase_first:
  assumes wf: "wf_deque d" and r: "rep d p (gpos (t_start d))"
    and ne: "gpos (t_start d) < gpos (t_finish d)"
  shows "\<exists>d'. deque_pop_front d = Inr d' \<and> deque_erase d p = Inr (d', deque_begin d') \<and>
           wf_deque d' \<and> elems d' = tl (elems d) \<and>
           (\<forall>a b. EvCopy a b \<notin> set (drop (length (evlog d)) (evlog d')))"
proof -
  from shrink_at_begin_seq[OF wf, of 1] obtain d' where
    e: "shrink_at_begin d 1 = Inr d'" "wf_deque d'" "elems d' = drop 1 (elems d)"
      "\<forall>a b. EvCopy a b \<notin> set (drop (length (evlog d)) (evlog d'))" by blast
  from equal_rep[OF r finish_rep[OF wf]] ne
  have n1: "\<not> deque_iterator_equal p (deque_end d)" by (simp add: deque_end_def)
  from equal_rep[OF r start_rep[OF wf]]
  have n2: "deque_iterator_equal p (deque_begin d)" by (simp add: deque_begin_def)
  from deque_size_wf[OF wf] ne e(1)
  have pf: "deque_pop_front d = Inr d'" by (simp add: deque_pop_front_def)
  from e(3) have el: "elems d' = tl (elems d)" by (simp add: drop_Suc)
  from n1 n2 pf have "deque_erase d p = Inr (d', deque_begin d')"
    by (simp add: deque_erase_def)
  with pf e(2) el e(4) show ?thesis by blast
qed

lemma erase_last:
  assumes wf: "wf_deque d" and r: "rep d p (gpos (t_finish d) - 1)"
    and ne: "gpos (t_start d) < gpos (t_finish d) - 1"
  shows "\<exists>d'. deque_pop_back d = Inr d' \<and> deque_erase d p = Inr (d', deque_end d') \<and>
           wf_deque d' \<and> elems d' = butlast (elems d) \<and>
           (\<forall>a b. EvCopy a b \<notin> set (drop (length (evlog d)) (evlog d')))"
proof -
  from shrink_at_end_seq[OF wf, of 1] obtain d' where
    e: "shrink_at_end d 1 = Inr d'" "wf_deque d'" "elems d' = take (length (elems d) - 1) (elems d)"
      "\<forall>a b. EvCopy a b \<notin> set (drop (length (evlog d)) (evlog d'))" by blast
  from equal_rep[OF r finish_rep[OF wf]]
  have n1: "\<not> deque_iterator_equal p (deque_end d)" by (simp add: deque_end_def)
  from equal_rep[OF r start_rep[OF wf]] ne
  have n2: "\<not> deque_iterator_equal p (deque_begin d)" by (simp add: deque_begin_def)
  from prev_rep[OF wf finish_rep[OF wf]] ne
  have pv: "deque_iterator_prev d (deque_end d) = Inr (iter_at d (gpos (t_finish d) - 1))"
    by (simp add: deque_end_def)
  from equal_rep[OF r rep_iter_at]
  have n3: "deque_iterator_equal p (iter_at d (gpos (t_finish d) - 1))" by simp
  from deque_size_wf[OF wf] ne e(1)
  have pf: "deque_pop_back d = Inr d'" by (simp add: deque_pop_back_def)
  from e(3) have el: "elems d' = butlast (elems d)" by (simp add: butlast_conv_take)
  from n1 n2 pv n3 pf have "deque_erase d p = Inr (d', deque_end d')"
    by (simp add: deque_erase_def)
  with pf e(2) el e(4) show ?thesis by blast
qed

lemma pop_back_single:
  assumes wf: "wf_deque d" and ne: "gpos (t_finish d) = gpos (t_start d) + 1"
  shows "\<exists>d'. deque_pop_back d = Inr d' \<and> elems d' = []"
proof -
  from shrink_at_end_seq[OF wf, of 1] obtain d' where
    e: "shrink_at_end d 1 = Inr d'" "elems d' = take (length (elems d) - 1) (elems d)" by blast
  from deque_size_wf[OF wf] ne e(1)
  have pf: "deque_pop_back d = Inr d'" by (simp add: deque_pop_back_def)
  from ne have "length (elems d) = 1" by (simp add: elems_def)
  with e(2) pf show ?thesis by simp
qed

lemma erase_interior:
  assumes wf: "wf_deque d" and r: "rep d p g"
    and lo: "gpos (t_start d) < g" and hi: "g < gpos (t_finish d) - 1"
  defines "d1 \<equiv> foldl (copy_pos 1) d [g + 1..gpos (t_finish d) - 1]"
  shows "\<exists>t d2. move_elem_to_begin d (iter_at d (g + 1)) (deque_end d) 1 = Inr (d1, t) \<and>
           shrink_at_end d1 1 = Inr d2 \<and> deque_erase d p = Inr (d2, p) \<and> wf_deque d2 \<and>
           elems d2 = take (nat (g - gpos (t_start d))) (elems d) @
                      drop (Suc (nat (g - gpos (t_start d)))) (elems d)"
proof -
  let ?gs = "gpos (t_start d)" and ?gf = "gpos (t_finish d)"
  from equal_rep[OF r finish_rep[OF wf]] hi
  have n1: "\<not> deque_iterator_equal p (deque_end d)" by (simp add: deque_end_def)
  from equal_rep[OF r start_rep[OF wf]] lo
  have n2: "\<not> deque_iterator_equal p (deque_begin d)" by (simp add: deque_begin_def)
  from prev_rep[OF wf finish_rep[OF wf]] lo hi
  have pv: "deque_iterator_prev d (deque_end d) = Inr (iter_at d (?gf - 1))"
    by (simp add: deque_end_def)
  from equal_rep[OF r rep_iter_at, of "?gf - 1"] hi
  have n3: "\<not> deque_iterator_equal p (iter_at d (?gf - 1))" by simp
  from next_rep[OF wf r] lo hi
  have nx: "deque_iterator_next d p = Inr (iter_at d (g + 1))" by simp
  from move_elem_to_begin_fold[OF wf _ rep_iter_at finish_rep[OF wf], of 1 "g + 1"] lo hi
  have mv: "move_elem_to_begin d (iter_at d (g + 1)) (deque_end d) 1 = Inr (d1, iter_at d (?gf - 1))"
    by (simp add: d1_def deque_end_def)
  have sd: "same_dir d d1" unfolding d1_def by (rule foldl_same_dir) simp
  note wf1 = same_dir_wf[OF sd wf]
  note e1 = same_dir_ends[OF sd]
  from shrink_at_end_seq[OF wf1, of 1] obtain d2 where
    s2: "shrink_at_end d1 1 = Inr d2" and w2: "wf_deque d2"
    and el0: "elems d2 = take (length (elems d1) - 1) (elems d1)" by blast
  from lo hi e1 have "length (elems d1) - 1 = nat (?gf - ?gs - 1)"
    by (simp add: elems_def)
  with el0 have el2: "elems d2 = take (nat (?gf - ?gs - 1)) (elems d1)" by simp
  have c1: "cell_at d1 h = (if g \<le> h \<and> h < ?gf - 1 then cell_at d (h + 1) else cell_at d h)"
    if "?gs \<le> h" "h \<le> ?gf" for h
    using foldl_copy_pos_cells[OF wf, of 1 "g + 1" ?gf h] lo hi in_blocks_run[OF wf that]
    by (simp add: d1_def)
  have "take (nat (?gf - ?gs - 1)) (elems d1) = map (cell_at d1) [?gs..?gf - 1 - 1]"
    using take_upto[of "?gf - ?gs - 1" ?gs "?gf - 1"] lo hi e1
    by (simp add: elems_def take_map algebra_simps)
  also have "[?gs..?gf - 1 - 1] = [?gs..g - 1] @ [g..?gf - 1 - 1]"
    using lo hi by (intro upto_split_at) simp_all
  also have "map (cell_at d1) ([?gs..g - 1] @ [g..?gf - 1 - 1]) =
      map (cell_at d) [?gs..g - 1] @ map (\<lambda>h. cell_at d (h + 1)) [g..?gf - 1 - 1]"
    using lo hi by (simp add: c1)
  also have "map (\<lambda>h. cell_at d (h + 1)) [g..?gf - 1 - 1] = map (cell_at d) [g + 1..?gf - 1]"
    using map_upto_shift[of "cell_at d" g "?gf - 1 - 1"] by simp
  also have "[?gs..g - 1] = take (nat (g - ?gs)) [?gs..?gf - 1]"
    using take_upto[of "g - ?gs" ?gs "?gf - 1"] lo hi by simp
  also have "[g + 1..?gf - 1] = drop (Suc (nat (g - ?gs))) [?gs..?gf - 1]"
    using drop_upto[of "g - ?gs + 1" ?gs "?gf - 1"] lo
    by (simp add: algebra_simps Suc_nat_eq_nat_zadd1)
  finally have el: "elems d2 = take (nat (g - ?gs)) (elems d) @ drop (Suc (nat (g - ?gs))) (elems d)"
    using el2 by (simp add: elems_def take_map drop_map)
  from n1 n2 pv n3 nx mv s2 have "deque_erase d p = Inr (d2, p)"
    by (simp add: deque_erase_def)
  with mv s2 w2 el show ?thesis by blast
qed


text \<open>
  An \<open>int\<close> deque of one element, after \<open>deque_init_n\<close> with count 1, and the iterator
  of its last (and first) element.
\<close>

definition ex_one :: "int deque" where
  "ex_one = projr (deque_init_n (create_deque ''int'' 1 TYPE_C_BUILTIN 0 (<)) 1)"

definition ex_one_last :: iter where
  "ex_one_last = projr (deque_iterator_prev ex_one (deque_end ex_one))"

text \<open>
  Claim C6, as stated: for every non-empty deque, \<open>deque_erase\<close> at the last position
  behaves exactly as \<open>deque_pop_back\<close>.  \<open>deque_erase\<close> tests for the first position
  before it tests for the last one, so in a deque of one element it calls
  \<open>deque_pop_front\<close>.  On the example deque the element is the first cell of the block of
  directory slot 8, the begin iterator stands after the last slot of the block of slot
  7.  \<open>deque_erase\<close> at the last position frees the block of slot 7 (address 0), nulls
  the slot and moves the begin iterator into slot 8; \<open>deque_pop_back\<close> frees no block,
  keeps slot 7 and moves the end iterator back by one.
\<close>

theorem C6_single_element_erase_is_not_pop_back_counterexample:
  "\<not> isl (deque_init_n (create_deque ''int'' 1 TYPE_C_BUILTIN (0::int) (<)) 1) \<and>
   wf_deque ex_one \<and> deque_size ex_one = Inr 1 \<and>
   \<not> isl (deque_iterator_prev ex_one (deque_end ex_one)) \<and>
   gpos ex_one_last = gpos (t_finish ex_one) - 1 \<and>
   \<not> isl (deque_erase ex_one ex_one_last) \<and> \<not> isl (deque_pop_back ex_one) \<and>
   ppc_map (fst (projr (deque_erase ex_one ex_one_last))) ! 7 = None \<and>
   ppc_map (projr (deque_pop_back ex_one)) ! 7 = Some 0 \<and>
   heap (fst (projr (deque_erase ex_one ex_one_last))) 0 = [] \<and>
   length (heap (projr (deque_pop_back ex_one)) 0) = 16 \<and>
   t_start (fst (projr (deque_erase ex_one ex_one_last))) \<noteq>
     t_start (projr (deque_pop_back ex_one)) \<and>
   t_finish (fst (projr (deque_erase ex_one ex_one_last))) \<noteq>
     t_finish (projr (deque_pop_back ex_one))"
  by code_simp

text \<open>
  Claim C6, amended.  Let \<open>d\<close> satisfy the data invariant and let the iterator \<open>p\<close>
  designate the linear position \<open>g\<close> of an element of \<open>d\<close>.
  \<^item> If \<open>g\<close> is the first position, \<open>deque_erase\<close> returns the state of \<open>deque_pop_front\<close>
    and its begin iterator; the sequence loses its first element and no copy event
    is logged.
  \<^item> If \<open>g\<close> is the last position and not the first, \<open>deque_erase\<close> returns the state of
    \<open>deque_pop_back\<close> and its end iterator; the sequence loses its last element and no
    copy event is logged.  In a deque of one element the last position is the first
    one: the state is that of \<open>deque_pop_front\<close>, and its sequence is the (empty)
    sequence \<open>deque_pop_back\<close> produces.
  \<^item> Otherwise \<open>deque_erase\<close> copies each cell of \<open>[g + 1, end)\<close> one position backward, in
    ascending order, then shrinks by one at the end, and returns \<open>p\<close>; the sequence is the
    old one without the element at index \<open>g - begin\<close>.
\<close>

theorem C6_erase_delegates_or_shifts:
  assumes "wf_deque d" and "rep d p g"
    and "gpos (t_start d) \<le> g" and "g < gpos (t_finish d)"
  shows "(g = gpos (t_start d) \<longrightarrow>
           (\<exists>d'. deque_pop_front d = Inr d' \<and> deque_erase d p = Inr (d', deque_begin d') \<and>
                 elems d' = tl (elems d) \<and>
                 (\<forall>a b. EvCopy a b \<notin> set (drop (length (evlog d)) (evlog d'))))) \<and>
         (g = gpos (t_finish d) - 1 \<and> gpos (t_start d) < g \<longrightarrow>
           (\<exists>d'. deque_pop_back d = Inr d' \<and> deque_erase d p = Inr (d', deque_end d') \<and>
                 elems d' = butlast (elems d) \<and>
                 (\<forall>a b. EvCopy a b \<notin> set (drop (length (evlog d)) (evlog d'))))) \<and>
         (g = gpos (t_finish d) - 1 \<and> g = gpos (t_start d) \<longrightarrow>
           (\<exists>d' d''. deque_erase d p = Inr (d', deque_begin d') \<and> deque_pop_back d = Inr d'' \<and>
                 elems d' = elems d'' \<and> elems d' = butlast (elems d))) \<and>
         (gpos (t_start d) < g \<and> g < gpos (t_finish d) - 1 \<longrightarrow>
           (\<exists>t d2. move_elem_to_begin d (iter_at d (g + 1)) (deque_end d) 1 =
                      Inr (foldl (copy_pos 1) d [g + 1..gpos (t_finish d) - 1], t) \<and>
                 shrink_at_end (foldl (copy_pos 1) d [g + 1..gpos (t_finish d) - 1]) 1 = Inr d2 \<and>
                 deque_erase d p = Inr (d2, p) \<and>
                 elems d2 = take (nat (g - gpos (t_start d))) (elems d) @
                            drop (Suc (nat (g - gpos (t_start d)))) (elems d)))"
proof (intro conjI impI)
  assume g: "g = gpos (t_start d)"
  from erase_first[OF assms(1), of p] assms(2,4) g
  show "\<exists>d'. deque_pop_front d = Inr d' \<and> deque_erase d p = Inr (d', deque_begin d') \<and>
          elems d' = tl (elems d) \<and>
          (\<forall>a b. EvCopy a b \<notin> set (drop (length (evlog d)) (evlog d')))"
    by blast
next
  assume g: "g = gpos (t_finish d) - 1 \<and> gpos (t_start d) < g"
  from erase_last[OF assms(1), of p] assms(2) g
  show "\<exists>d'. deque_pop_back d = Inr d' \<and> deque_erase d p = Inr (d', deque_end d') \<and>
          elems d' = butlast (elems d) \<and>
          (\<forall>a b. EvCopy a b \<notin> set (drop (length (evlog d)) (evlog d')))"
    by blast
next
  assume g: "g = gpos (t_finish d) - 1 \<and> g = gpos (t_start d)"
  from g have gg: "g = gpos (t_start d)" and g1: "gpos (t_finish d) = gpos (t_start d) + 1"
    by simp_all
  from assms(2,4) gg have "rep d p (gpos (t_start d))" "gpos (t_start d) < gpos (t_finish d)"
    by simp_all
  from erase_first[OF assms(1) this] obtain d' where
    a: "deque_erase d p = Inr (d', deque_begin d')" "elems d' = tl (elems d)" by blast
  note g1
  from pop_back_single[OF assms(1) this] obtain d'' where
    b: "deque_pop_back d = Inr d''" "elems d'' = []" by blast
  from g1 have "length (elems d) = 1" by (simp add: elems_def)
  then have "tl (elems d) = []" "butlast (elems d) = []"
    by (cases "elems d"; simp)+
  with a b show "\<exists>d' d''. deque_erase d p = Inr (d', deque_begin d') \<and>
      deque_pop_back d = Inr d'' \<and> elems d' = elems d'' \<and> elems d' = butlast (elems d)"
    by simp
next
  assume g: "gpos (t_start d) < g \<and> g < gpos (t_finish d) - 1"
  from erase_interior[OF assms(1,2)] g
  show "\<exists>t d2. move_elem_to_begin d (iter_at d (g + 1)) (deque_end d) 1 =
                      Inr (foldl (copy_pos 1) d [g + 1..gpos (t_finish d) - 1], t) \<and>
                 shrink_at_end (foldl (copy_pos 1) d [g + 1..gpos (t_finish d) - 1]) 1 = Inr d2 \<and>
                 deque_erase d p = Inr (d2, p) \<and>
                 elems d2 = take (nat (g - gpos (t_start d))) (elems d) @
                            drop (Suc (nat (g - gpos (t_start d)))) (elems d)"
    by blast
qed

theorem C6_erase_delegates_or_shifts_witness:
  "wf_deque ex_deque \<and> elems ex_deque = [Live 1, Live 2, Live 3] \<and>
   gpos (t_start ex_deque) = 128 \<and> gpos (t_finish ex_deque) = 131 \<and>
   (\<exists>d'. deque_pop_front ex_deque = Inr d' \<and>
         deque_erase ex_deque (iter_at ex_deque 128) = Inr (d', deque_begin d') \<and>
         elems d' = [Live 2, Live 3]) \<and>
   (\<exists>d'. deque_pop_back ex_deque = Inr d' \<and>
         deque_erase ex_deque (iter_at ex_deque 130) = Inr (d', deque_end d') \<and>
         elems d' = [Live 1, Live 2]) \<and>
   (\<exists>d'. deque_erase ex_deque (iter_at ex_deque 129) = Inr (d', iter_at ex_deque 129) \<and>
         elems d' = [Live 1, Live 3])"
proof -
  have v: "elems ex_deque = [Live 1, Live 2, Live 3]"
    "gpos (t_start ex_deque) = 128" "gpos (t_finish ex_deque) = 131"
    by code_simp+
  from C6_erase_delegates_or_shifts[OF ex_deque_wf rep_iter_at, of 128] v
  have a: "\<exists>d'. deque_pop_front ex_deque = Inr d' \<and>
         deque_erase ex_deque (iter_at ex_deque 128) = Inr (d', deque_begin d') \<and>
         elems d' = [Live 2, Live 3]"
    by auto
  from C6_erase_delegates_or_shifts[OF ex_deque_wf rep_iter_at, of 130] v
  have b: "\<exists>d'. deque_pop_back ex_deque = Inr d' \<and>
         deque_erase ex_deque (iter_at ex_deque 130) = Inr (d', deque_end d') \<and>
         elems d' = [Live 1, Live 2]"
    by auto
  from C6_erase_delegates_or_shifts[OF ex_deque_wf rep_iter_at, of 129] v
  have c: "\<exists>d'. deque_erase ex_deque (iter_at ex_deque 129) = Inr (d', iter_at ex_deque 129) \<and>
         elems d' = [Live 1, Live 3]"
    by auto
  from ex_deque_wf v a b c show ?thesis by simp
qed


section \<open>Comparing two deques of one element type\<close>

text \<open>
  The comparison of two sequences as the specification words it: two sequences are
  equal when they have the same length and at no index one element is less than the
  other; a sequence is less than another when, at the first index where one element is
  less than the other, the element of the first sequence is the lesser one, or when
  there is no such index within the shorter length and the first sequence is the
  shorter one.
\<close>

definition equiv_at :: "('a \<Rightarrow> 'a \<Rightarrow> bool) \<Rightarrow> 'a list \<Rightarrow> 'a list \<Rightarrow> nat \<Rightarrow> bool" where
  "equiv_at lt xs ys i \<longleftrightarrow> \<not> lt (xs ! i) (ys ! i) \<and> \<not> lt (ys ! i) (xs ! i)"

definition spec_equal :: "('a \<Rightarrow> 'a \<Rightarrow> bool) \<Rightarrow> 'a list \<Rightarrow> 'a list \<Rightarrow> bool" where
  "spec_equal lt xs ys \<longleftrightarrow>
     length xs = length ys \<and> (\<forall>i < length xs. equiv_at lt xs ys i)"

definition spec_less :: "('a \<Rightarrow> 'a \<Rightarrow> bool) \<Rightarrow> 'a list \<Rightarrow> 'a list \<Rightarrow> bool" where
  "spec_less lt xs ys \<longleftrightarrow>
     (\<exists>i < min (length xs) (length ys).
        lt (xs ! i) (ys ! i) \<and> (\<forall>j < i. equiv_at lt xs ys j)) \<or>
     (length xs < length ys \<and> (\<forall>j < length xs. equiv_at lt xs ys j))"

text \<open>The loops of the code, on the two sequences of values.\<close>

fun equal_walk :: "('a \<Rightarrow> 'a \<Rightarrow> bool) \<Rightarrow> 'a list \<Rightarrow> 'a list \<Rightarrow> bool" where
  "equal_walk lt [] [] = True"
| "equal_walk lt (x # xs) (y # ys) = (if lt x y \<or> lt y x then False else equal_walk lt xs ys)"
| "equal_walk lt _ _ = False"

fun less_walk_seq :: "('a \<Rightarrow> 'a \<Rightarrow> bool) \<Rightarrow> 'a list \<Rightarrow> 'a list \<Rightarrow> bool" where
  "less_walk_seq lt (x # xs) (y # ys) =
     (if lt x y then True else if lt y x then False else less_walk_seq lt xs ys)"
| "less_walk_seq lt xs ys = (length xs < length ys)"

lemma all_less_Suc: "(\<forall>i < Suc n. P i) \<longleftrightarrow> P 0 \<and> (\<forall>i < n. P (Suc i))"
  by (auto simp: less_Suc_eq_0_disj)

lemma ex_less_Suc: "(\<exists>i < Suc n. P i) \<longleftrightarrow> P 0 \<or> (\<exists>i < n. P (Suc i))"
  by (auto simp: less_Suc_eq_0_disj)

lemma equiv_at_Cons [simp]:
  "equiv_at lt (x # xs) (y # ys) 0 \<longleftrightarrow> \<not> lt x y \<and> \<not> lt y x"
  "equiv_at lt (x # xs) (y # ys) (Suc i) \<longleftrightarrow> equiv_at lt xs ys i"
  by (simp_all add: equiv_at_def)

lemma equal_walk_spec: "equal_walk lt xs ys = spec_equal lt xs ys"
proof (induction lt xs ys rule: equal_walk.induct)
  case (1 lt)
  show ?case by (simp add: spec_equal_def)
next
  case (2 lt x xs y ys)
  then show ?case by (auto simp: spec_equal_def all_less_Suc)
qed (simp_all add: spec_equal_def)

lemma less_walk_seq_spec: "less_walk_seq lt xs ys = spec_less lt xs ys"
proof (induction lt xs ys rule: less_walk_seq.induct)
  case (1 lt x xs y ys)
  show ?case
  proof (cases "lt x y")
    case True
    then show ?thesis by (auto simp: spec_less_def)
  next
    case False
    note nxy = this
    show ?thesis
    proof (cases "lt y x")
      case True
      with nxy show ?thesis by (auto simp: spec_less_def ex_less_Suc all_less_Suc)
    next
      case False
      with nxy 1 have "less_walk_seq lt (x # xs) (y # ys) = spec_less lt xs ys" by simp
      also from nxy False have "\<dots> = spec_less lt (x # xs) (y # ys)"
        by (simp add: spec_less_def ex_less_Suc all_less_Suc)
      finally show ?thesis .
    qed
  qed
qed (simp_all add: spec_less_def)


lemma value_at_rep:
  assumes wf: "wf_deque d" and r: "rep d it g"
    and lo: "gpos (t_start d) \<le> g" and hi: "g < gpos (t_finish d)"
    and c: "cell_at d g = Live x"
  shows "value_at d it = Inr x"
proof -
  from lo hi have "in_blocks d g" by (simp add: in_blocks_run[OF wf])
  from read_cell_ptr_at[OF wf this] ptr_rep[OF wf r lo hi] c show ?thesis
    by (simp add: value_at_def read_value_def)
qed

lemma map_upto_Nil: "map f [a..b] = map h [] \<Longrightarrow> b < a"
  by (cases "a \<le> b") (simp_all add: upto_rec1)

lemma map_upto_Cons:
  assumes "map f [a..b] = map h (x # xs)"
  shows "a \<le> b" "f a = h x" "map f [a + 1..b] = map h xs"
proof -
  show ab: "a \<le> b" using assms by (cases "a \<le> b") simp_all
  from assms ab show "f a = h x" "map f [a + 1..b] = map h xs"
    by (simp_all add: upto_rec1)
qed

lemma deque_less_loop_rep:
  assumes wf1: "wf_deque d1" and wf2: "wf_deque d2"
  shows "rep d1 f g1 \<Longrightarrow> rep d2 s g2 \<Longrightarrow>
         gpos (t_start d1) \<le> g1 \<Longrightarrow> g1 \<le> gpos (t_finish d1) \<Longrightarrow>
         gpos (t_start d2) \<le> g2 \<Longrightarrow> g2 \<le> gpos (t_finish d2) \<Longrightarrow>
         g1 - gpos (t_start d1) = g2 - gpos (t_start d2) \<Longrightarrow>
         map (cell_at d1) [g1..gpos (t_finish d1) - 1] = map Live xs \<Longrightarrow>
         map (cell_at d2) [g2..gpos (t_finish d2) - 1] = map Live ys \<Longrightarrow>
         deque_less_loop d1 d2 f s = Inr (less_walk_seq (t_typeless d1) xs ys)"
proof (induction xs arbitrary: ys f s g1 g2)
  case Nil
  from map_upto_Nil[OF Nil.prems(8)] Nil.prems(4) have e1: "g1 = gpos (t_finish d1)" by simp
  from equal_rep[OF Nil.prems(1) finish_rep[OF wf1]] e1
  have q: "deque_iterator_equal f (deque_end d1)" by (simp add: deque_end_def)
  have "length (map (cell_at d2) [g2..gpos (t_finish d2) - 1]) = length ys"
    using Nil.prems(9) by simp
  with Nil.prems(6) have "int (length ys) = gpos (t_finish d2) - g2" by simp
  then have ly: "(0 < length ys) = (g2 < gpos (t_finish d2))" by linarith
  have "less_walk_seq (t_typeless d1) [] ys = (0 < length ys)" by simp
  with q deque_size_wf[OF wf1] deque_size_wf[OF wf2] e1 Nil.prems(7) ly show ?case
    by (subst deque_less_loop.simps) (simp del: less_walk_seq.simps length_greater_0_conv)
next
  case (Cons x xs)
  note c1 = map_upto_Cons[OF Cons.prems(8)]
  from c1(1) have lt1: "g1 < gpos (t_finish d1)" by simp
  from equal_rep[OF Cons.prems(1) finish_rep[OF wf1]] lt1
  have q1: "\<not> deque_iterator_equal f (deque_end d1)" by (simp add: deque_end_def)
  show ?case
  proof (cases ys)
    case Nil
    from map_upto_Nil[OF Cons.prems(9)[unfolded Nil]] Cons.prems(6)
    have e2: "g2 = gpos (t_finish d2)" by simp
    from equal_rep[OF Cons.prems(2) finish_rep[OF wf2]] e2
    have q: "deque_iterator_equal s (deque_end d2)" by (simp add: deque_end_def)
    from q deque_size_wf[OF wf1] deque_size_wf[OF wf2] e2 Cons.prems(7) lt1 Nil show ?thesis
      by (subst deque_less_loop.simps) auto
  next
    case (Cons y ys')
    note c2 = map_upto_Cons[OF Cons.prems(9)[unfolded Cons]]
    from c2(1) have lt2: "g2 < gpos (t_finish d2)" by simp
    from equal_rep[OF Cons.prems(2) finish_rep[OF wf2]] lt2
    have q2: "\<not> deque_iterator_equal s (deque_end d2)" by (simp add: deque_end_def)
    from rep_gpos[OF Cons.prems(1)] lt1
    have nd: "\<not> (gpos (deque_end d1) \<le> gpos f \<and> gpos (deque_end d2) \<le> gpos s)"
      by (simp add: deque_end_def)
    note v1 = value_at_rep[OF wf1 Cons.prems(1,3) lt1 c1(2)]
    note v2 = value_at_rep[OF wf2 Cons.prems(2,5) lt2 c2(2)]
    note n1 = next_rep[OF wf1 Cons.prems(1,3) lt1]
    note n2 = next_rep[OF wf2 Cons.prems(2,5) lt2]
    from Cons.prems(3,5,7) lt1 lt2 c1(3) c2(3)
    have "deque_less_loop d1 d2 (iter_at d1 (g1 + 1)) (iter_at d2 (g2 + 1)) =
        Inr (less_walk_seq (t_typeless d1) xs ys')"
      by (intro Cons.IH[of _ "g1 + 1" _ "g2 + 1"]) simp_all
    with q1 q2 nd v1 v2 n1 n2 Cons show ?thesis
      by (subst deque_less_loop.simps) simp
  qed
qed

lemma deque_equal_loop_rep:
  assumes wf1: "wf_deque d1" and wf2: "wf_deque d2"
  shows "rep d1 f g1 \<Longrightarrow> rep d2 s g2 \<Longrightarrow>
         gpos (t_start d1) \<le> g1 \<Longrightarrow> g1 \<le> gpos (t_finish d1) \<Longrightarrow>
         gpos (t_start d2) \<le> g2 \<Longrightarrow> g2 \<le> gpos (t_finish d2) \<Longrightarrow>
         length xs = length ys \<Longrightarrow>
         map (cell_at d1) [g1..gpos (t_finish d1) - 1] = map Live xs \<Longrightarrow>
         map (cell_at d2) [g2..gpos (t_finish d2) - 1] = map Live ys \<Longrightarrow>
         deque_equal_loop d1 d2 f s = Inr (equal_walk (t_typeless d1) xs ys)"
proof (induction xs arbitrary: ys f s g1 g2)
  case Nil
  then have ys: "ys = []" by simp
  from map_upto_Nil[OF Nil.prems(8)] Nil.prems(4) have e1: "g1 = gpos (t_finish d1)" by simp
  from map_upto_Nil[OF Nil.prems(9)[unfolded ys]] Nil.prems(6)
  have e2: "g2 = gpos (t_finish d2)" by simp
  from equal_rep[OF Nil.prems(1) finish_rep[OF wf1]] e1
  have q1: "deque_iterator_equal f (deque_end d1)" by (simp add: deque_end_def)
  from equal_rep[OF Nil.prems(2) finish_rep[OF wf2]] e2
  have q2: "deque_iterator_equal s (deque_end d2)" by (simp add: deque_end_def)
  from q1 q2 ys show ?case by (subst deque_equal_loop.simps) simp
next
  case (Cons x xs)
  then obtain y ys' where ys: "ys = y # ys'" "length xs = length ys'" by (cases ys) auto
  note c1 = map_upto_Cons[OF Cons.prems(8)]
  note c2 = map_upto_Cons[OF Cons.prems(9)[unfolded ys]]
  from c1(1) have lt1: "g1 < gpos (t_finish d1)" by simp
  from c2(1) have lt2: "g2 < gpos (t_finish d2)" by simp
  from equal_rep[OF Cons.prems(1) finish_rep[OF wf1]] lt1
  have q1: "\<not> deque_iterator_equal f (deque_end d1)" by (simp add: deque_end_def)
  from equal_rep[OF Cons.prems(2) finish_rep[OF wf2]] lt2
  have q2: "\<not> deque_iterator_equal s (deque_end d2)" by (simp add: deque_end_def)
  from rep_gpos[OF Cons.prems(1)] lt1
  have nd: "\<not> (gpos (deque_end d1) \<le> gpos f \<and> gpos (deque_end d2) \<le> gpos s)"
    by (simp add: deque_end_def)
  note v1 = value_at_rep[OF wf1 Cons.prems(1,3) lt1 c1(2)]
  note v2 = value_at_rep[OF wf2 Cons.prems(2,5) lt2 c2(2)]
  note n1 = next_rep[OF wf1 Cons.prems(1,3) lt1]
  note n2 = next_rep[OF wf2 Cons.prems(2,5) lt2]
  from Cons.prems(3,5) lt1 lt2 c1(3) c2(3) ys(2)
  have "deque_equal_loop d1 d2 (iter_at d1 (g1 + 1)) (iter_at d2 (g2 + 1)) =
      Inr (equal_walk (t_typeless d1) xs ys')"
    by (intro Cons.IH[of _ "g1 + 1" _ "g2 + 1"]) simp_all
  with q1 q2 nd v1 v2 n1 n2 ys show ?case
    by (subst deque_equal_loop.simps) simp
qed

lemma elems_length: "elems d = map Live xs \<Longrightarrow> wf_deque d \<Longrightarrow>
    gpos (t_finish d) - gpos (t_start d) = int (length xs)"
proof -
  assume e: "elems d = map Live xs" and wf: "wf_deque d"
  from e have "length (elems d) = length xs" by simp
  with wf_bounds(8)[OF wf] show ?thesis by (simp add: elems_def)
qed

definition ex_other :: "int deque" where
  "ex_other = ex_deque\<lparr>heap := (\<lambda>_. [])(0 := replicate 16 Raw,
     1 := [Live 1, Live 2, Live 4] @ replicate 13 Raw)\<rparr>"

lemma ex_other_wf: "wf_deque ex_other"
  by code_simp

text \<open>
  Claim C3.  Let both deques satisfy the data invariant, have the same element type,
  and let every cell of their ranges hold a constructed value, so that their element
  sequences are \<open>xs\<close> and \<open>ys\<close>.  Then \<open>deque_equal\<close> returns whether the two sequences
  have the same length and no element is less than its counterpart in either
  direction, and \<open>deque_less\<close> returns whether \<open>xs\<close> is lexicographically less than \<open>ys\<close>,
  both under the element comparison of the first deque.
\<close>

theorem C3_equal_and_less_lexicographic:
  assumes "wf_deque d1" and "wf_deque d2" and "deque_same_type d1 d2"
    and "elems d1 = map Live xs" and "elems d2 = map Live ys"
  shows "deque_equal d1 d2 = Inr (spec_equal (t_typeless d1) xs ys) \<and>
         deque_less d1 d2 = Inr (spec_less (t_typeless d1) xs ys)"
proof
  note wf1 = assms(1) and wf2 = assms(2)
  note b1 = wf_bounds[OF wf1] and b2 = wf_bounds[OF wf2]
  note l1 = elems_length[OF assms(4) wf1] and l2 = elems_length[OF assms(5) wf2]
  from wf1 wf2 b1(1,2) b2(1,2) have ms: "t_mapsize d1 > 0" "t_mapsize d2 > 0"
    by (simp_all add: wf_deque_def)
  show "deque_equal d1 d2 = Inr (spec_equal (t_typeless d1) xs ys)"
  proof (cases "length xs = length ys")
    case True
    from deque_equal_loop_rep[OF wf1 wf2 start_rep[OF wf1] start_rep[OF wf2] _ b1(8) _ b2(8) True]
      assms(4,5)
    have "deque_equal_loop d1 d2 (deque_begin d1) (deque_begin d2) =
        Inr (equal_walk (t_typeless d1) xs ys)"
      by (simp add: elems_def deque_begin_def)
    with ms assms(3) deque_size_wf[OF wf1] deque_size_wf[OF wf2] l1 l2 True show ?thesis
      by (simp add: deque_equal_def equal_walk_spec)
  next
    case False
    with ms assms(3) deque_size_wf[OF wf1] deque_size_wf[OF wf2] l1 l2 show ?thesis
      by (simp add: deque_equal_def spec_equal_def)
  qed
  from deque_less_loop_rep[OF wf1 wf2 start_rep[OF wf1] start_rep[OF wf2] _ b1(8) _ b2(8)]
    assms(4,5)
  have "deque_less_loop d1 d2 (deque_begin d1) (deque_begin d2) =
      Inr (less_walk_seq (t_typeless d1) xs ys)"
    by (simp add: elems_def deque_begin_def)
  with assms(3) show "deque_less d1 d2 = Inr (spec_less (t_typeless d1) xs ys)"
    by (simp add: deque_less_def less_walk_seq_spec)
qed

theorem C3_equal_and_less_lexicographic_witness:
  "wf_deque ex_deque \<and> wf_deque ex_other \<and> deque_same_type ex_deque ex_other \<and>
   elems ex_deque = map Live [1, 2, 3] \<and> elems ex_other = map Live [1, 2, 4] \<and>
   deque_equal ex_deque ex_deque = Inr True \<and>
   deque_equal ex_deque ex_other = Inr False \<and>
   deque_less ex_deque ex_other = Inr True \<and>
   deque_less ex_other ex_deque = Inr False"
proof -
  have t: "deque_same_type ex_deque ex_other" "deque_same_type ex_deque ex_deque"
    "deque_same_type ex_other ex_deque" by code_simp+
  have e: "elems ex_deque = map Live [1, 2, 3]" "elems ex_other = map Live [1, 2, 4]"
    by code_simp+
  have lt: "t_typeless ex_deque = (<)" "t_typeless ex_other = (<)"
    by (simp_all add: ex_deque_def ex_other_def)
  have s: "spec_equal (<) [1, 2, 3] [1, 2, 3::int]" "\<not> spec_equal (<) [1, 2, 3] [1, 2, 4::int]"
    "spec_less (<) [1, 2, 3] [1, 2, 4::int]" "\<not> spec_less (<) [1, 2, 4] [1, 2, 3::int]"
    by (simp_all add: equal_walk_spec[symmetric] less_walk_seq_spec[symmetric])
  from C3_equal_and_less_lexicographic[OF ex_deque_wf ex_deque_wf t(2) e(1) e(1)]
    C3_equal_and_less_lexicographic[OF ex_deque_wf ex_other_wf t(1) e(1) e(2)]
    C3_equal_and_less_lexicographic[OF ex_other_wf ex_deque_wf t(3) e(2) e(1)]
    lt s ex_deque_wf ex_other_wf t e
  show ?thesis by simp
qed


section \<open>The remaining operations that change a deque\<close>

text \<open>
  \<open>deque_assign\<close>, \<open>deque_assign_range\<close> and \<open>deque_insert_range\<close> read their elements
  from a second deque \<open>src\<close> (a deque of its own, with its own blocks); the iterators
  of the source range are iterators of \<open>src\<close>.  \<open>copy_from\<close> is the copy function of
  the type descriptor with the target cell in \<open>d\<close> and the source cell in \<open>src\<close>.
\<close>

definition copy_from :: "'a deque \<Rightarrow> 'a deque \<Rightarrow> iter \<Rightarrow> iter \<Rightarrow> error + 'a deque" where
  "copy_from d src t_dest t_src =
     (case deque_iterator_get_pointer_auxiliary d t_dest of
        Inl e \<Rightarrow> Inl e
      | Inr pd \<Rightarrow>
          (case deque_iterator_get_pointer_auxiliary src t_src of
             Inl e \<Rightarrow> Inl e
           | Inr ps \<Rightarrow>
               (case read_cell src ps of
                  Inl e \<Rightarrow> Inl e
                | Inr c \<Rightarrow>
                    (case write_cell d pd c of
                       Inl e \<Rightarrow> Inl e
                     | Inr d' \<Rightarrow> Inr (d'\<lparr>evlog := evlog d' @ [EvCopy pd ps]\<rparr>)))))"

lemma copy_from_same_dir: "copy_from d src a b = Inr d' \<Longrightarrow> same_dir d d'"
  by (auto simp: copy_from_def same_dir_def dest!: write_cell_same_dir split: sum.splits)

text \<open>
  The loop of \<open>deque_assign_range\<close> and of the front branch of \<open>deque_insert_range\<close>:
  two walks in step, one in the target up to \<open>t_destend\<close>, one in the source up to
  \<open>t_end\<close>; it stops when either walk reaches its end, and both are then asserted to
  have reached it.
\<close>

function copy_range_loop ::
  "'a deque \<Rightarrow> 'a deque \<Rightarrow> iter \<Rightarrow> iter \<Rightarrow> iter \<Rightarrow> iter \<Rightarrow> error + 'a deque" where
  "copy_range_loop d src t_dest t_destend t_src t_end =
     (if \<not> deque_iterator_equal t_dest t_destend \<and> \<not> deque_iterator_equal t_src t_end then
        (if gpos t_destend \<le> gpos t_dest \<and> gpos t_end \<le> gpos t_src then Inl Diverges
         else
           (case copy_from d src t_dest t_src of
              Inl e \<Rightarrow> Inl e
            | Inr d' \<Rightarrow>
                (case deque_iterator_next d' t_dest of
                   Inl e \<Rightarrow> Inl e
                 | Inr t_dest' \<Rightarrow>
                     (case deque_iterator_next src t_src of
                        Inl e \<Rightarrow> Inl e
                      | Inr t_src' \<Rightarrow>
                          copy_range_loop d' src t_dest' t_destend t_src' t_end))))
      else if deque_iterator_equal t_dest t_destend \<and> deque_iterator_equal t_src t_end
      then Inr d
      else Inl AssertFail)"
  by pat_completeness auto
termination
proof (relation "measure (\<lambda>(d, src, t, te, s, se).
          nat (max (gpos te - gpos t) (gpos se - gpos s)))", goal_cases)
  case 1
  show ?case by simp
next
  case (2 d src t te s se d' t' s')
  from 2 have "gpos t' = gpos t + 1" "gpos s' = gpos s + 1"
    by (simp_all add: deque_iterator_next_gpos)
  with 2 show ?case by auto
qed

text \<open>
  The loop of the back branch of \<open>deque_insert_range\<close>: it runs until the walk in the
  source reaches \<open>t_end\<close>.
\<close>

function copy_source_loop ::
  "'a deque \<Rightarrow> 'a deque \<Rightarrow> iter \<Rightarrow> iter \<Rightarrow> iter \<Rightarrow> error + 'a deque" where
  "copy_source_loop d src t_pos t_src t_end =
     (if deque_iterator_equal t_src t_end then Inr d
      else if gpos t_end \<le> gpos t_src then Inl Diverges
      else
        (case copy_from d src t_pos t_src of
           Inl e \<Rightarrow> Inl e
         | Inr d' \<Rightarrow>
             (case deque_iterator_next d' t_pos of
                Inl e \<Rightarrow> Inl e
              | Inr t_pos' \<Rightarrow>
                  (case deque_iterator_next src t_src of
                     Inl e \<Rightarrow> Inl e
                   | Inr t_src' \<Rightarrow> copy_source_loop d' src t_pos' t_src' t_end))))"
  by pat_completeness auto
termination
proof (relation "measure (\<lambda>(d, src, p, s, se). nat (gpos se - gpos s))", goal_cases)
  case 1
  show ?case by simp
next
  case (2 d src p s se d' p' s')
  from 2 have "gpos s' = gpos s + 1" by (simp add: deque_iterator_next_gpos)
  with 2 show ?case by auto
qed

declare copy_range_loop.simps [simp del] copy_source_loop.simps [simp del]

text \<open>
  \<open>deque_assign_range\<close>: the target is resized to the length of the source range and
  the range is copied over it.  The length is not negative once the assertion on the
  range has passed.
\<close>

definition deque_assign_range ::
  "'a deque \<Rightarrow> 'a deque \<Rightarrow> iter \<Rightarrow> iter \<Rightarrow> error + 'a deque" where
  "deque_assign_range d src t_begin t_end =
     (if \<not> deque_same_type d src then Inl AssertFail
      else
        (case (if deque_iterator_equal t_begin t_end then Inr ()
               else assert_res (deque_iterator_before src t_begin t_end)) of
           Inl e \<Rightarrow> Inl e
         | Inr _ \<Rightarrow>
             (case iterator_distance src t_begin t_end of
                Inl e \<Rightarrow> Inl e
              | Inr n \<Rightarrow>
                  (case deque_resize d (nat n) of
                     Inl e \<Rightarrow> Inl e
                   | Inr d1 \<Rightarrow>
                       copy_range_loop d1 src (t_start d1) (t_finish d1) t_begin t_end))))"

definition deque_assign :: "'a deque \<Rightarrow> 'a deque \<Rightarrow> error + 'a deque" where
  "deque_assign d src = deque_assign_range d src (deque_begin src) (deque_end src)"

definition deque_assign_elem_varg :: "'a deque \<Rightarrow> nat \<Rightarrow> 'a \<Rightarrow> error + 'a deque" where
  "deque_assign_elem_varg d t_count v =
     (case deque_resize d t_count of
        Inl e \<Rightarrow> Inl e
      | Inr d1 \<Rightarrow>
          if t_count > 0 then for_range (store_at v) (deque_begin d1) (deque_end d1) d1
          else Inr d1)"

definition deque_resize_elem_varg :: "'a deque \<Rightarrow> nat \<Rightarrow> 'a \<Rightarrow> error + 'a deque" where
  "deque_resize_elem_varg d t_resize v =
     (case deque_size d of
        Inl e \<Rightarrow> Inl e
      | Inr n \<Rightarrow>
          if int t_resize < n then shrink_at_end d (nat (n - int t_resize))
          else if int t_resize > n then
            (case expand_at_end d (nat (int t_resize - n)) None of
               Inl e \<Rightarrow> Inl e
             | Inr (d1, t_oldend, _) \<Rightarrow> for_range (store_at v) t_oldend (deque_end d1) d1)
          else Inr d)"

definition deque_insert_range ::
  "'a deque \<Rightarrow> iter \<Rightarrow> 'a deque \<Rightarrow> iter \<Rightarrow> iter \<Rightarrow> error + 'a deque" where
  "deque_insert_range d t_pos src t_begin t_end =
     (if \<not> deque_same_type d src then Inl AssertFail
      else
     (case (if deque_iterator_equal t_begin t_end then Inr ()
            else assert_res (deque_iterator_before src t_begin t_end)) of
        Inl e \<Rightarrow> Inl e
      | Inr _ \<Rightarrow>
     (case iterator_distance src t_begin t_end of
        Inl e \<Rightarrow> Inl e
      | Inr n_elemcount \<Rightarrow>
     (case iterator_distance d (deque_begin d) t_pos of
        Inl e \<Rightarrow> Inl e
      | Inr dist \<Rightarrow>
     (case deque_size d of
        Inl e \<Rightarrow> Inl e
      | Inr n \<Rightarrow>
          if dist < c_half n then
            (case expand_at_begin d (nat n_elemcount) (Some t_pos) of
               Inl e \<Rightarrow> Inl e
             | Inr (d1, t_oldbegin, pp) \<Rightarrow>
            (case pp of
               None \<Rightarrow> Inl BadPointer
             | Some t_pos1 \<Rightarrow>
            (case move_elem_to_begin d1 t_oldbegin t_pos1 (nat n_elemcount) of
               Inl e \<Rightarrow> Inl e
             | Inr (d2, t_gap) \<Rightarrow>
            (case iterator_distance d2 t_gap t_pos1 of
               Inl e \<Rightarrow> Inl e
             | Inr g \<Rightarrow>
                 if g \<noteq> n_elemcount then Inl AssertFail
                 else copy_range_loop d2 src t_gap t_pos1 t_begin t_end))))
          else
            (case expand_at_end d (nat n_elemcount) (Some t_pos) of
               Inl e \<Rightarrow> Inl e
             | Inr (d1, t_oldend, pp) \<Rightarrow>
            (case pp of
               None \<Rightarrow> Inl BadPointer
             | Some t_pos1 \<Rightarrow>
            (case move_elem_to_end d1 t_pos1 t_oldend (nat n_elemcount) of
               Inl e \<Rightarrow> Inl e
             | Inr (d2, _) \<Rightarrow> copy_source_loop d2 src t_pos1 t_begin t_end))))))))"

text \<open>
  \<open>_deque_iterator_set_value\<close> overwrites the element an iterator points to, with the
  copy function of the type descriptor.  (For the element type \<open>char*\<close> the source
  assigns to the string element in place instead; the elements of the model are
  values of one type \<open>'a\<close>, and this branch is not modelled.)
\<close>

definition deque_iterator_set_value :: "'a deque \<Rightarrow> iter \<Rightarrow> 'a \<Rightarrow> error + 'a deque" where
  "deque_iterator_set_value d t_iter v =
     (if deque_iterator_equal t_iter (deque_end d) then Inl AssertFail
      else store_at v t_iter d)"

text \<open>
  \<open>deque_swap\<close> exchanges the two structures as a whole: directory, capacity,
  iterators, blocks and allocator.
\<close>

definition deque_swap :: "'a deque \<Rightarrow> 'a deque \<Rightarrow> error + ('a deque \<times> 'a deque)" where
  "deque_swap d1 d2 = (if \<not> deque_same_type d1 d2 then Inl AssertFail else Inr (d2, d1))"


section \<open>The capacity of the directory over sequences of operations\<close>

lemma copy_range_loop_same_dir:
  "copy_range_loop d src t te s se = Inr d' \<Longrightarrow> same_dir d d'"
proof (induction d src t te s se rule: copy_range_loop.induct)
  case (1 d src t te s se)
  note run = "1.prems"[unfolded copy_range_loop.simps[of d src t te s se]]
  show ?case
  proof (cases "\<not> deque_iterator_equal t te \<and> \<not> deque_iterator_equal s se")
    case False
    with run have "d' = d" by (auto split: if_splits)
    then show ?thesis by simp
  next
    case True
    with run have nd: "\<not> (gpos te \<le> gpos t \<and> gpos se \<le> gpos s)" by (auto split: if_splits)
    from True nd run obtain d1 t1 s1 where
      c: "copy_from d src t s = Inr d1" and n1: "deque_iterator_next d1 t = Inr t1"
      and n2: "deque_iterator_next src s = Inr s1"
      and r: "copy_range_loop d1 src t1 te s1 se = Inr d'"
      by (auto split: sum.splits)
    from "1.IH"[OF True nd c n1 n2 r] have "same_dir d1 d'" .
    with copy_from_same_dir[OF c] show ?thesis by (rule same_dir_trans)
  qed
qed

lemma copy_source_loop_same_dir:
  "copy_source_loop d src p s se = Inr d' \<Longrightarrow> same_dir d d'"
proof (induction d src p s se rule: copy_source_loop.induct)
  case (1 d src p s se)
  note run = "1.prems"[unfolded copy_source_loop.simps[of d src p s se]]
  show ?case
  proof (cases "deque_iterator_equal s se")
    case True
    with run have "d' = d" by simp
    then show ?thesis by simp
  next
    case False
    with run have nd: "\<not> gpos se \<le> gpos s" by (auto split: if_splits)
    from False nd run obtain d1 p1 s1 where
      c: "copy_from d src p s = Inr d1" and n1: "deque_iterator_next d1 p = Inr p1"
      and n2: "deque_iterator_next src s = Inr s1"
      and r: "copy_source_loop d1 src p1 s1 se = Inr d'"
      by (auto split: sum.splits)
    from "1.IH"[OF False nd c n1 n2 r] have "same_dir d1 d'" .
    with copy_from_same_dir[OF c] show ?thesis by (rule same_dir_trans)
  qed
qed

lemma deque_assign_range_mono:
  assumes "deque_assign_range d src b e = Inr d'"
  shows "t_mapsize d \<le> t_mapsize d'"
proof -
  from assms obtain n d1 where r: "deque_resize d n = Inr d1"
    and l: "copy_range_loop d1 src (t_start d1) (t_finish d1) b e = Inr d'"
    unfolding deque_assign_range_def by (auto split: sum.splits if_splits)
  from deque_resize_mono[OF r] same_dir_mapsize[OF copy_range_loop_same_dir[OF l]]
  show ?thesis by simp
qed

lemma deque_assign_mono: "deque_assign d src = Inr d' \<Longrightarrow> t_mapsize d \<le> t_mapsize d'"
  unfolding deque_assign_def by (rule deque_assign_range_mono)

lemma deque_assign_elem_varg_mono:
  assumes "deque_assign_elem_varg d n v = Inr d'"
  shows "t_mapsize d \<le> t_mapsize d'"
proof -
  from assms consider (none) "deque_resize d n = Inr d'"
    | (loop) d1 where "deque_resize d n = Inr d1"
        "for_range (store_at v) (deque_begin d1) (deque_end d1) d1 = Inr d'"
    unfolding deque_assign_elem_varg_def by (auto split: sum.splits if_splits)
  then show ?thesis
  proof cases
    case none
    then show ?thesis by (rule deque_resize_mono)
  next
    case loop
    from deque_resize_mono[OF loop(1)]
      same_dir_mapsize[OF for_range_same_dir[OF loop(2) store_at_same_dir]]
    show ?thesis by simp
  qed
qed

lemma deque_resize_elem_varg_mono:
  assumes "deque_resize_elem_varg d n v = Inr d'"
  shows "t_mapsize d \<le> t_mapsize d'"
proof (cases "deque_size d")
  case (Inl e)
  with assms show ?thesis by (simp add: deque_resize_elem_varg_def)
next
  case (Inr m)
  note run = assms[unfolded deque_resize_elem_varg_def Inr, simplified]
  show ?thesis
  proof (cases "int n < m")
    case True
    with run have "shrink_at_end d (nat (m - int n)) = Inr d'" by simp
    from shrink_at_end_mapsize[OF this] show ?thesis by simp
  next
    case False
    note ge = this
    show ?thesis
    proof (cases "m < int n")
      case False
      with ge run show ?thesis by simp
    next
      case True
      with ge run obtain d1 oe pp where
        x: "expand_at_end d (nat (int n - m)) None = Inr (d1, oe, pp)"
        and l: "for_range (store_at v) oe (deque_end d1) d1 = Inr d'"
        by (auto split: sum.splits prod.splits)
      from expand_at_end_mono[OF x]
        same_dir_mapsize[OF for_range_same_dir[OF l store_at_same_dir]]
      show ?thesis by auto
    qed
  qed
qed

lemma deque_insert_range_mono:
  assumes "deque_insert_range d p src b e = Inr d'"
  shows "t_mapsize d \<le> t_mapsize d'"
proof -
  from assms consider
    (front) k d1 ob p1 d2 gap where "expand_at_begin d k (Some p) = Inr (d1, ob, Some p1)"
        "move_elem_to_begin d1 ob p1 k = Inr (d2, gap)"
        "copy_range_loop d2 src gap p1 b e = Inr d'"
    | (atback) k d1 oe p1 d2 gap where "expand_at_end d k (Some p) = Inr (d1, oe, Some p1)"
        "move_elem_to_end d1 p1 oe k = Inr (d2, gap)"
        "copy_source_loop d2 src p1 b e = Inr d'"
    unfolding deque_insert_range_def
    by (auto split: sum.splits prod.splits option.splits if_splits)
  then show ?thesis
  proof cases
    case front
    from expand_at_begin_mono[OF front(1)]
      same_dir_mapsize[OF move_elem_to_begin_same_dir[OF front(2)]]
      same_dir_mapsize[OF copy_range_loop_same_dir[OF front(3)]]
    show ?thesis by auto
  next
    case atback
    from expand_at_end_mono[OF atback(1)]
      same_dir_mapsize[OF move_elem_to_end_same_dir[OF atback(2)]]
      same_dir_mapsize[OF copy_source_loop_same_dir[OF atback(3)]]
    show ?thesis by auto
  qed
qed

lemma deque_iterator_set_value_mapsize:
  "deque_iterator_set_value d t v = Inr d' \<Longrightarrow> t_mapsize d' = t_mapsize d"
  unfolding deque_iterator_set_value_def
  by (auto dest!: store_at_same_dir same_dir_mapsize split: if_splits)

text \<open>
  The operations that change one deque after its initialisation, all but \<open>deque_swap\<close>
  (\<open>deque_insert\<close> is \<open>_deque_insert_n\<close> with count 1), and their application in sequence.
\<close>

datatype 'a deque_op =
    OpPushBack 'a
  | OpPushFront 'a
  | OpPopBack
  | OpPopFront
  | OpInsertN iter nat 'a
  | OpInsertRange iter "'a deque" iter iter
  | OpErase iter
  | OpEraseRange iter iter
  | OpResize nat
  | OpResizeElem nat 'a
  | OpClear
  | OpAssign "'a deque"
  | OpAssignElem nat 'a
  | OpAssignRange "'a deque" iter iter
  | OpSetValue iter 'a

fun apply_op :: "'a deque \<Rightarrow> 'a deque_op \<Rightarrow> error + 'a deque" where
  "apply_op d (OpPushBack v) = deque_push_back d v"
| "apply_op d (OpPushFront v) = deque_push_front d v"
| "apply_op d OpPopBack = deque_pop_back d"
| "apply_op d OpPopFront = deque_pop_front d"
| "apply_op d (OpInsertN p n v) = map_sum id fst (deque_insert_n_varg d p n v)"
| "apply_op d (OpInsertRange p src b e) = deque_insert_range d p src b e"
| "apply_op d (OpErase p) = map_sum id fst (deque_erase d p)"
| "apply_op d (OpEraseRange b e) = map_sum id fst (deque_erase_range d b e)"
| "apply_op d (OpResize n) = deque_resize d n"
| "apply_op d (OpResizeElem n v) = deque_resize_elem_varg d n v"
| "apply_op d OpClear = deque_clear d"
| "apply_op d (OpAssign src) = deque_assign d src"
| "apply_op d (OpAssignElem n v) = deque_assign_elem_varg d n v"
| "apply_op d (OpAssignRange src b e) = deque_assign_range d src b e"
| "apply_op d (OpSetValue p v) = deque_iterator_set_value d p v"

fun run_ops :: "'a deque \<Rightarrow> 'a deque_op list \<Rightarrow> error + 'a deque" where
  "run_ops d [] = Inr d"
| "run_ops d (x # xs) = (case apply_op d x of Inl e \<Rightarrow> Inl e | Inr d' \<Rightarrow> run_ops d' xs)"

lemma apply_op_mono: "apply_op d x = Inr d' \<Longrightarrow> t_mapsize d \<le> t_mapsize d'"
proof (cases x)
  case (OpInsertN p n v)
  then show "apply_op d x = Inr d' \<Longrightarrow> t_mapsize d \<le> t_mapsize d'"
    by (cases "deque_insert_n_varg d p n v") (auto dest: deque_insert_n_varg_mono)
next
  case (OpErase p)
  then show "apply_op d x = Inr d' \<Longrightarrow> t_mapsize d \<le> t_mapsize d'"
    by (cases "deque_erase d p") (auto dest: deque_erase_mapsize)
next
  case (OpEraseRange b e)
  then show "apply_op d x = Inr d' \<Longrightarrow> t_mapsize d \<le> t_mapsize d'"
    by (cases "deque_erase_range d b e") (auto dest: deque_erase_range_mapsize)
qed (auto dest: deque_push_back_mono deque_push_front_mono deque_pop_back_mapsize
       deque_pop_front_mapsize deque_resize_mono deque_clear_mapsize
       deque_insert_range_mono deque_resize_elem_varg_mono deque_assign_mono
       deque_assign_elem_varg_mono deque_assign_range_mono deque_iterator_set_value_mapsize)

lemma run_ops_mono: "run_ops d xs = Inr d' \<Longrightarrow> t_mapsize d \<le> t_mapsize d'"
proof (induction xs arbitrary: d)
  case Nil
  then show ?case by simp
next
  case (Cons x xs)
  then obtain d1 where a: "apply_op d x = Inr d1" and r: "run_ops d1 xs = Inr d'"
    by (auto split: sum.splits)
  from apply_op_mono[OF a] Cons.IH[OF r] show ?case by simp
qed

text \<open>
  The directory of a deque is sized when it has as many slots as the field
  \<open>_t_mapsize\<close> says.  Every operation keeps it so: the capacity that the field records
  is the number of slots of the directory.
\<close>

definition map_sized :: "'a deque \<Rightarrow> bool" where
  "map_sized d \<longleftrightarrow> int (length (ppc_map d)) = t_mapsize d"

lemma same_dir_sized: "same_dir d d' \<Longrightarrow> map_sized d \<Longrightarrow> map_sized d'"
  by (simp add: same_dir_def map_sized_def)

lemma only_nulled_length: "only_nulled m m' \<Longrightarrow> length m' = length m"
  by (simp add: only_nulled_def list_all2_lengthD)

lemma shrink_at_end_sized: "shrink_at_end d k = Inr d' \<Longrightarrow> map_sized d \<Longrightarrow> map_sized d'"
  using shrink_at_end_mapsize[of d k d'] only_nulled_length[OF shrink_at_end_only_nulled, of d k d']
  by (simp add: map_sized_def)

lemma shrink_at_begin_sized: "shrink_at_begin d k = Inr d' \<Longrightarrow> map_sized d \<Longrightarrow> map_sized d'"
  using shrink_at_begin_mapsize[of d k d']
    only_nulled_length[OF shrink_at_begin_only_nulled, of d k d']
  by (simp add: map_sized_def)

lemma expand_at_end_sized:
  "expand_at_end d t pos = Inr (d', oe, pp) \<Longrightarrow> map_sized d \<Longrightarrow> map_sized d'"
  unfolding map_sized_def by (rule expand_at_end_length)

lemma expand_at_begin_sized:
  "expand_at_begin d t pos = Inr (d', ob, pp) \<Longrightarrow> map_sized d \<Longrightarrow> map_sized d'"
  unfolding map_sized_def by (rule expand_at_begin_length)

lemma deque_push_back_sized: "deque_push_back d v = Inr d' \<Longrightarrow> map_sized d \<Longrightarrow> map_sized d'"
  by (auto simp: deque_push_back_def
      dest: expand_at_end_sized same_dir_sized[OF store_at_same_dir] split: sum.splits prod.splits)

lemma deque_push_front_sized: "deque_push_front d v = Inr d' \<Longrightarrow> map_sized d \<Longrightarrow> map_sized d'"
  by (auto simp: deque_push_front_def
      dest: expand_at_begin_sized same_dir_sized[OF store_at_same_dir]
      split: sum.splits prod.splits)

lemma deque_pop_back_sized: "deque_pop_back d = Inr d' \<Longrightarrow> map_sized d \<Longrightarrow> map_sized d'"
  by (auto simp: deque_pop_back_def dest: shrink_at_end_sized split: sum.splits if_splits)

lemma deque_pop_front_sized: "deque_pop_front d = Inr d' \<Longrightarrow> map_sized d \<Longrightarrow> map_sized d'"
  by (auto simp: deque_pop_front_def dest: shrink_at_begin_sized split: sum.splits if_splits)

lemma deque_insert_n_varg_sized:
  assumes "deque_insert_n_varg d p n v = Inr (d', t)" and s: "map_sized d"
  shows "map_sized d'"
proof -
  from assms(1) consider
    (front) d1 ob pp p1 d2 g where "expand_at_begin d n (Some p) = Inr (d1, ob, pp)"
      "move_elem_to_begin d1 ob p1 n = Inr (d2, g)" "for_range (store_at v) g p1 d2 = Inr d'"
  | (atback) d1 oe pp p1 d2 g where "expand_at_end d n (Some p) = Inr (d1, oe, pp)"
      "move_elem_to_end d1 p1 oe n = Inr (d2, g)" "store_times v n p1 d2 = Inr d'"
    unfolding deque_insert_n_varg_def
    by (auto split: sum.splits prod.splits option.splits if_splits)
  then show ?thesis
  proof cases
    case front
    from expand_at_begin_sized[OF front(1) s] have "map_sized d1" .
    from same_dir_sized[OF move_elem_to_begin_same_dir[OF front(2)] this] have "map_sized d2" .
    from same_dir_sized[OF for_range_same_dir[OF front(3) store_at_same_dir] this]
    show ?thesis .
  next
    case atback
    from expand_at_end_sized[OF atback(1) s] have "map_sized d1" .
    from same_dir_sized[OF move_elem_to_end_same_dir[OF atback(2)] this] have "map_sized d2" .
    from same_dir_sized[OF store_times_same_dir[OF atback(3)] this]
    show ?thesis .
  qed
qed

lemma deque_erase_sized:
  assumes "deque_erase d p = Inr (d', t)" and s: "map_sized d"
  shows "map_sized d'"
proof -
  from assms(1) consider (front) "deque_pop_front d = Inr d'"
    | (atback) "deque_pop_back d = Inr d'"
    | (mid) p' d1 x where "move_elem_to_begin d p' (deque_end d) 1 = Inr (d1, x)"
        "shrink_at_end d1 1 = Inr d'"
    unfolding deque_erase_def
    by (auto split: sum.splits prod.splits if_splits)
  then show ?thesis
  proof cases
    case front
    from deque_pop_front_sized[OF this s] show ?thesis .
  next
    case atback
    from deque_pop_back_sized[OF this s] show ?thesis .
  next
    case mid
    from same_dir_sized[OF move_elem_to_begin_same_dir[OF mid(1)] s] have "map_sized d1" .
    from shrink_at_end_sized[OF mid(2) this] show ?thesis .
  qed
qed

lemma deque_erase_range_sized:
  assumes "deque_erase_range d b e = Inr (d', t)" and s: "map_sized d"
  shows "map_sized d'"
proof -
  from assms(1) obtain n d1 x n1 where m: "move_elem_to_begin d e (deque_end d) n = Inr (d1, x)"
    and k: "shrink_at_end d1 n1 = Inr d'"
    unfolding deque_erase_range_def
    by (auto split: sum.splits prod.splits if_splits)
  from same_dir_sized[OF move_elem_to_begin_same_dir[OF m] s] have "map_sized d1" .
  from shrink_at_end_sized[OF k this] show ?thesis .
qed

lemma deque_resize_sized: "deque_resize d n = Inr d' \<Longrightarrow> map_sized d \<Longrightarrow> map_sized d'"
  unfolding deque_resize_def map_sum_def
  by (auto dest: shrink_at_end_sized expand_at_end_sized split: sum.splits if_splits prod.splits)

lemma deque_clear_sized: "deque_clear d = Inr d' \<Longrightarrow> map_sized d \<Longrightarrow> map_sized d'"
  unfolding deque_clear_def map_sum_def
  by (auto dest: deque_erase_range_sized split: sum.splits)

lemma deque_assign_range_sized:
  assumes "deque_assign_range d src b e = Inr d'" and s: "map_sized d"
  shows "map_sized d'"
proof -
  from assms(1) obtain n d1 where r: "deque_resize d n = Inr d1"
    and l: "copy_range_loop d1 src (t_start d1) (t_finish d1) b e = Inr d'"
    unfolding deque_assign_range_def by (auto split: sum.splits if_splits)
  from deque_resize_sized[OF r s] have "map_sized d1" .
  from same_dir_sized[OF copy_range_loop_same_dir[OF l] this] show ?thesis .
qed

lemma deque_assign_sized: "deque_assign d src = Inr d' \<Longrightarrow> map_sized d \<Longrightarrow> map_sized d'"
  unfolding deque_assign_def by (rule deque_assign_range_sized)

lemma deque_assign_elem_varg_sized:
  assumes "deque_assign_elem_varg d n v = Inr d'" and s: "map_sized d"
  shows "map_sized d'"
proof -
  from assms(1) consider (none) "deque_resize d n = Inr d'"
    | (loop) d1 where "deque_resize d n = Inr d1"
        "for_range (store_at v) (deque_begin d1) (deque_end d1) d1 = Inr d'"
    unfolding deque_assign_elem_varg_def by (auto split: sum.splits if_splits)
  then show ?thesis
  proof cases
    case none
    from deque_resize_sized[OF this s] show ?thesis .
  next
    case loop
    from deque_resize_sized[OF loop(1) s] have "map_sized d1" .
    from same_dir_sized[OF for_range_same_dir[OF loop(2) store_at_same_dir] this]
    show ?thesis .
  qed
qed

lemma deque_resize_elem_varg_sized:
  assumes "deque_resize_elem_varg d n v = Inr d'" and s: "map_sized d"
  shows "map_sized d'"
proof (cases "deque_size d")
  case (Inl e)
  with assms(1) show ?thesis by (simp add: deque_resize_elem_varg_def)
next
  case (Inr m)
  note run = assms(1)[unfolded deque_resize_elem_varg_def Inr, simplified]
  show ?thesis
  proof (cases "int n < m")
    case True
    with run have "shrink_at_end d (nat (m - int n)) = Inr d'" by simp
    from shrink_at_end_sized[OF this s] show ?thesis .
  next
    case False
    note ge = this
    show ?thesis
    proof (cases "m < int n")
      case False
      with ge run s show ?thesis by simp
    next
      case True
      with ge run obtain d1 oe pp where
        x: "expand_at_end d (nat (int n - m)) None = Inr (d1, oe, pp)"
        and l: "for_range (store_at v) oe (deque_end d1) d1 = Inr d'"
        by (auto split: sum.splits prod.splits)
      from expand_at_end_sized[OF x s] have "map_sized d1" .
      from same_dir_sized[OF for_range_same_dir[OF l store_at_same_dir] this]
      show ?thesis .
    qed
  qed
qed

lemma deque_insert_range_sized:
  assumes "deque_insert_range d p src b e = Inr d'" and s: "map_sized d"
  shows "map_sized d'"
proof -
  from assms(1) consider
    (front) k d1 ob p1 d2 gap where "expand_at_begin d k (Some p) = Inr (d1, ob, Some p1)"
        "move_elem_to_begin d1 ob p1 k = Inr (d2, gap)"
        "copy_range_loop d2 src gap p1 b e = Inr d'"
    | (atback) k d1 oe p1 d2 gap where "expand_at_end d k (Some p) = Inr (d1, oe, Some p1)"
        "move_elem_to_end d1 p1 oe k = Inr (d2, gap)"
        "copy_source_loop d2 src p1 b e = Inr d'"
    unfolding deque_insert_range_def
    by (auto split: sum.splits prod.splits option.splits if_splits)
  then show ?thesis
  proof cases
    case front
    from expand_at_begin_sized[OF front(1) s] have "map_sized d1" .
    from same_dir_sized[OF move_elem_to_begin_same_dir[OF front(2)] this] have "map_sized d2" .
    from same_dir_sized[OF copy_range_loop_same_dir[OF front(3)] this] show ?thesis .
  next
    case atback
    from expand_at_end_sized[OF atback(1) s] have "map_sized d1" .
    from same_dir_sized[OF move_elem_to_end_same_dir[OF atback(2)] this] have "map_sized d2" .
    from same_dir_sized[OF copy_source_loop_same_dir[OF atback(3)] this] show ?thesis .
  qed
qed

lemma deque_iterator_set_value_sized:
  "deque_iterator_set_value d t v = Inr d' \<Longrightarrow> map_sized d \<Longrightarrow> map_sized d'"
  unfolding deque_iterator_set_value_def
  by (auto dest: same_dir_sized[OF store_at_same_dir] split: if_splits)

lemma apply_op_sized: "apply_op d x = Inr d' \<Longrightarrow> map_sized d \<Longrightarrow> map_sized d'"
proof (cases x)
  case (OpInsertN p n v)
  then show "apply_op d x = Inr d' \<Longrightarrow> map_sized d \<Longrightarrow> map_sized d'"
    by (cases "deque_insert_n_varg d p n v") (auto dest: deque_insert_n_varg_sized)
next
  case (OpErase p)
  then show "apply_op d x = Inr d' \<Longrightarrow> map_sized d \<Longrightarrow> map_sized d'"
    by (cases "deque_erase d p") (auto dest: deque_erase_sized)
next
  case (OpEraseRange b e)
  then show "apply_op d x = Inr d' \<Longrightarrow> map_sized d \<Longrightarrow> map_sized d'"
    by (cases "deque_erase_range d b e") (auto dest: deque_erase_range_sized)
qed (auto dest: deque_push_back_sized deque_push_front_sized deque_pop_back_sized
       deque_pop_front_sized deque_resize_sized deque_clear_sized
       deque_insert_range_sized deque_resize_elem_varg_sized deque_assign_sized
       deque_assign_elem_varg_sized deque_assign_range_sized deque_iterator_set_value_sized)

lemma run_ops_sized: "run_ops d xs = Inr d' \<Longrightarrow> map_sized d \<Longrightarrow> map_sized d'"
proof (induction xs arbitrary: d)
  case Nil
  then show ?case by simp
next
  case (Cons x xs)
  then obtain d1 where a: "apply_op d x = Inr d1" and r: "run_ops d1 xs = Inr d'"
    by (auto split: sum.splits)
  from Cons.IH[OF r apply_op_sized[OF a Cons.prems(2)]] show ?case .
qed

definition ex_large :: "int deque" where
  "ex_large = projr (deque_resize ex_full 242)"

text \<open>
  Claim C9, as stated: over every sequence of deque operations the capacity of the
  directory never decreases, and only an expansion replaces the directory.
  \<open>deque_swap\<close> exchanges the directories of two deques: the deque of 209 elements
  resized to 242 elements has a directory of 24 slots, and after its swap with the
  example deque of three elements it has the 16-slot directory of that deque.
\<close>

theorem C9_swap_lowers_capacity_counterexample:
  "\<not> isl (deque_resize ex_full 242) \<and>
   t_mapsize ex_large = 24 \<and> t_mapsize ex_deque = 16 \<and>
   \<not> isl (deque_swap ex_large ex_deque) \<and>
   t_mapsize (fst (projr (deque_swap ex_large ex_deque))) = 16 \<and>
   ppc_map (fst (projr (deque_swap ex_large ex_deque))) = ppc_map ex_deque"
  by code_simp

text \<open>
  Claim C9, amended: over every sequence of operations on one deque other than
  \<open>deque_swap\<close> (push and pop at both ends, insert of copies or of a range, erase of a
  position or of a range, resize with or without a fill value, clear, the three forms
  of assign, and the assignment through an iterator) the capacity of the directory
  never decreases, and the directory keeps as many slots as \<open>_t_mapsize\<close> says; the
  shrink operations leave the capacity and the number of slots as they are and change
  directory slots only by setting them to null, and an expansion either keeps the
  capacity or replaces the directory by a strictly larger one.  \<open>deque_swap\<close> gives
  each deque the state, and so the directory, of the other.
\<close>

theorem C9_directory_never_shrinks:
  "(run_ops d xs = Inr d' \<longrightarrow>
      t_mapsize d \<le> t_mapsize d' \<and>
      (map_sized d \<longrightarrow> map_sized d' \<and> length (ppc_map d) \<le> length (ppc_map d'))) \<and>
   (shrink_at_end d k = Inr d1 \<longrightarrow>
      t_mapsize d1 = t_mapsize d \<and> length (ppc_map d1) = length (ppc_map d) \<and>
      only_nulled (ppc_map d) (ppc_map d1)) \<and>
   (shrink_at_begin d k = Inr d2 \<longrightarrow>
      t_mapsize d2 = t_mapsize d \<and> length (ppc_map d2) = length (ppc_map d) \<and>
      only_nulled (ppc_map d) (ppc_map d2)) \<and>
   (expand_at_end d t pos = Inr (d3, oe, pp) \<longrightarrow>
      (t_mapsize d3 = t_mapsize d \<or> t_mapsize d < t_mapsize d3) \<and>
      (map_sized d \<longrightarrow> map_sized d3)) \<and>
   (expand_at_begin d t pos = Inr (d4, ob, pq) \<longrightarrow>
      (t_mapsize d4 = t_mapsize d \<or> t_mapsize d < t_mapsize d4) \<and>
      (map_sized d \<longrightarrow> map_sized d4)) \<and>
   (deque_swap d e = Inr (d5, e5) \<longrightarrow> d5 = e \<and> e5 = d)"
proof (intro conjI impI)
  show m: "t_mapsize d \<le> t_mapsize d'" if "run_ops d xs = Inr d'"
    using that by (rule run_ops_mono)
  show s: "map_sized d'" if "run_ops d xs = Inr d'" "map_sized d"
    using that by (rule run_ops_sized)
  show "length (ppc_map d) \<le> length (ppc_map d')" if "run_ops d xs = Inr d'" "map_sized d"
    using m[OF that(1)] s[OF that] that(2) by (simp add: map_sized_def)
  show "t_mapsize d1 = t_mapsize d" if "shrink_at_end d k = Inr d1"
    using that by (rule shrink_at_end_mapsize)
  show "only_nulled (ppc_map d) (ppc_map d1)" if "shrink_at_end d k = Inr d1"
    using that by (rule shrink_at_end_only_nulled)
  show "length (ppc_map d1) = length (ppc_map d)" if "shrink_at_end d k = Inr d1"
    using that by (rule only_nulled_length[OF shrink_at_end_only_nulled])
  show "t_mapsize d2 = t_mapsize d" if "shrink_at_begin d k = Inr d2"
    using that by (rule shrink_at_begin_mapsize)
  show "only_nulled (ppc_map d) (ppc_map d2)" if "shrink_at_begin d k = Inr d2"
    using that by (rule shrink_at_begin_only_nulled)
  show "length (ppc_map d2) = length (ppc_map d)" if "shrink_at_begin d k = Inr d2"
    using that by (rule only_nulled_length[OF shrink_at_begin_only_nulled])
  show "t_mapsize d3 = t_mapsize d \<or> t_mapsize d < t_mapsize d3"
    if "expand_at_end d t pos = Inr (d3, oe, pp)"
    using that by (rule expand_at_end_mono)
  show "map_sized d3" if "expand_at_end d t pos = Inr (d3, oe, pp)" "map_sized d"
    using that by (rule expand_at_end_sized)
  show "t_mapsize d4 = t_mapsize d \<or> t_mapsize d < t_mapsize d4"
    if "expand_at_begin d t pos = Inr (d4, ob, pq)"
    using that by (rule expand_at_begin_mono)
  show "map_sized d4" if "expand_at_begin d t pos = Inr (d4, ob, pq)" "map_sized d"
    using that by (rule expand_at_begin_sized)
  show "d5 = e" "e5 = d" if "deque_swap d e = Inr (d5, e5)"
    using that by (auto simp: deque_swap_def split: if_splits)
qed

text \<open>
  A sequence with every kind of operation, on the example deque of three elements; the
  last resize needs 17 blocks and replaces the directory of 16 slots by one of 24.
\<close>

definition ex_ops :: "int deque_op list" where
  "ex_ops =
     [OpPushBack 5, OpPushFront 6, OpPopBack, OpPopFront,
      OpErase \<lparr>ppc_mappos = 8, pc_first = Some 1, pc_corepos = 1\<rparr>,
      OpEraseRange \<lparr>ppc_mappos = 8, pc_first = Some 1, pc_corepos = 0\<rparr>
        \<lparr>ppc_mappos = 8, pc_first = Some 1, pc_corepos = 1\<rparr>,
      OpClear, OpAssignElem 4 7,
      OpInsertN \<lparr>ppc_mappos = 8, pc_first = Some 1, pc_corepos = 1\<rparr> 2 4,
      OpInsertRange \<lparr>ppc_mappos = 8, pc_first = Some 1, pc_corepos = 0\<rparr>
        ex_other (t_start ex_other) (t_finish ex_other),
      OpSetValue \<lparr>ppc_mappos = 8, pc_first = Some 1, pc_corepos = 2\<rparr> 9,
      OpResizeElem 9 1,
      OpAssignRange ex_other (t_start ex_other) (t_finish ex_other),
      OpAssign ex_other, OpResize 260]"

definition runs_to :: "int deque \<Rightarrow> int deque_op list \<Rightarrow> int \<Rightarrow> bool" where
  "runs_to d xs n \<longleftrightarrow>
     (case run_ops d xs of
        Inl _ \<Rightarrow> False
      | Inr d' \<Rightarrow> t_mapsize d' = n \<and> int (length (ppc_map d')) = n)"

lemma ex_run: "runs_to ex_deque ex_ops 24"
  by code_simp

lemma ex_shrink_end: "\<not> isl (shrink_at_end ex_deque 2)"
  by code_simp

lemma ex_shrink_begin: "\<not> isl (shrink_at_begin ex_deque 2)"
  by code_simp

lemma ex_swap: "deque_swap ex_full ex_deque = Inr (ex_deque, ex_full)"
  by (simp add: deque_swap_def deque_same_type_def type_is_same_def ex_full_def ex_deque_def)

lemma ex_sized: "map_sized ex_deque" "map_sized ex_full"
  by (simp_all add: map_sized_def ex_deque_def ex_full_def)

theorem C9_directory_never_shrinks_witness:
  "map_sized ex_deque \<and> t_mapsize ex_deque = 16 \<and>
   (\<exists>r. run_ops ex_deque ex_ops = Inr r \<and> t_mapsize ex_deque \<le> t_mapsize r \<and>
        map_sized r \<and> length (ppc_map ex_deque) \<le> length (ppc_map r) \<and> t_mapsize r = 24) \<and>
   (\<exists>r. shrink_at_end ex_deque 2 = Inr r \<and> t_mapsize r = t_mapsize ex_deque \<and>
        length (ppc_map r) = length (ppc_map ex_deque) \<and>
        only_nulled (ppc_map ex_deque) (ppc_map r)) \<and>
   (\<exists>r. shrink_at_begin ex_deque 2 = Inr r \<and> t_mapsize r = t_mapsize ex_deque \<and>
        length (ppc_map r) = length (ppc_map ex_deque) \<and>
        only_nulled (ppc_map ex_deque) (ppc_map r)) \<and>
   map_sized ex_full \<and>
   (\<exists>r. expand_at_end ex_full 32 None = Inr r \<and> t_mapsize ex_full \<le> t_mapsize (fst r) \<and>
        map_sized (fst r)) \<and>
   (\<exists>r. expand_at_begin ex_full 33 None = Inr r \<and> t_mapsize ex_full \<le> t_mapsize (fst r) \<and>
        map_sized (fst r)) \<and>
   (\<exists>r. deque_swap ex_full ex_deque = Inr r \<and> fst r = ex_deque \<and> snd r = ex_full)"
proof -
  from ex_run obtain r1 where r1: "run_ops ex_deque ex_ops = Inr r1" "t_mapsize r1 = 24"
    by (auto simp: runs_to_def split: sum.splits)
  from ex_shrink_end obtain r2 where r2: "shrink_at_end ex_deque 2 = Inr r2"
    by (cases "shrink_at_end ex_deque 2") auto
  from ex_shrink_begin obtain r3 where r3: "shrink_at_begin ex_deque 2 = Inr r3"
    by (cases "shrink_at_begin ex_deque 2") auto
  from ex_full_end obtain d4 oe pp where r4: "expand_at_end ex_full 32 None = Inr (d4, oe, pp)"
    by (cases "expand_at_end ex_full 32 None") auto
  from ex_full_begin obtain d5 ob pq where r5: "expand_at_begin ex_full 33 None = Inr (d5, ob, pq)"
    by (cases "expand_at_begin ex_full 33 None") auto
  have v: "t_mapsize ex_deque = 16" by (simp add: ex_deque_def)
  from C9_directory_never_shrinks[of ex_deque ex_ops r1] r1 ex_sized(1)
  have a: "t_mapsize ex_deque \<le> t_mapsize r1" "map_sized r1"
    "length (ppc_map ex_deque) \<le> length (ppc_map r1)"
    by blast+
  from C9_directory_never_shrinks[of ex_deque _ _ 2 r2 r3] r2 r3
  have b: "t_mapsize r2 = t_mapsize ex_deque" "length (ppc_map r2) = length (ppc_map ex_deque)"
    "only_nulled (ppc_map ex_deque) (ppc_map r2)"
    "t_mapsize r3 = t_mapsize ex_deque" "length (ppc_map r3) = length (ppc_map ex_deque)"
    "only_nulled (ppc_map ex_deque) (ppc_map r3)"
    by blast+
  from C9_directory_never_shrinks[of ex_full _ _ _ _ _ 32 None d4 oe pp] r4 ex_sized(2)
  have c: "t_mapsize ex_full \<le> t_mapsize d4" "map_sized d4"
    by (metis order_refl less_imp_le)+
  from C9_directory_never_shrinks[of ex_full _ _ _ _ _ 33 None _ _ _ d5 ob pq] r5 ex_sized(2)
  have e: "t_mapsize ex_full \<le> t_mapsize d5" "map_sized d5"
    by (metis order_refl less_imp_le)+
  from C9_directory_never_shrinks[of ex_full _ _ _ _ _ _ _ _ _ _ _ _ _ ex_deque ex_deque ex_full]
    ex_swap
  have f: "deque_swap ex_full ex_deque = Inr (ex_deque, ex_full)" by simp
  from r1 a have 1: "\<exists>r. run_ops ex_deque ex_ops = Inr r \<and> t_mapsize ex_deque \<le> t_mapsize r \<and>
        map_sized r \<and> length (ppc_map ex_deque) \<le> length (ppc_map r) \<and> t_mapsize r = 24"
    by simp
  from r2 b have 2: "\<exists>r. shrink_at_end ex_deque 2 = Inr r \<and> t_mapsize r = t_mapsize ex_deque \<and>
        length (ppc_map r) = length (ppc_map ex_deque) \<and>
        only_nulled (ppc_map ex_deque) (ppc_map r)" by simp
  from r3 b have 3: "\<exists>r. shrink_at_begin ex_deque 2 = Inr r \<and> t_mapsize r = t_mapsize ex_deque \<and>
        length (ppc_map r) = length (ppc_map ex_deque) \<and>
        only_nulled (ppc_map ex_deque) (ppc_map r)" by simp
  from r4 c have 4: "\<exists>r. expand_at_end ex_full 32 None = Inr r \<and>
        t_mapsize ex_full \<le> t_mapsize (fst r) \<and> map_sized (fst r)" by simp
  from r5 e have 5: "\<exists>r. expand_at_begin ex_full 33 None = Inr r \<and>
        t_mapsize ex_full \<le> t_mapsize (fst r) \<and> map_sized (fst r)" by simp
  from f have 6: "\<exists>r. deque_swap ex_full ex_deque = Inr r \<and> fst r = ex_deque \<and> snd r = ex_full"
    by simp
  from ex_sized v 1 2 3 4 5 6 show ?thesis by blast
qed


section \<open>Expansion with a new directory\<close>

text \<open>
  The expansion locates the valid run of blocks by taking it to be centred in the
  directory, as \<open>deque_init_n\<close> and every reallocation of the directory leave it.  On a
  deque that satisfies the data invariant, whose run is centred and whose blocks were
  handed out by the allocator, an expansion that needs a new directory returns, and
  its result satisfies the invariant and is centred again.
\<close>

definition centred :: "'a deque \<Rightarrow> bool" where
  "centred d \<longleftrightarrow>
     ppc_mappos (t_start d) =
       (t_mapsize d - (ppc_mappos (t_finish d) - ppc_mappos (t_start d) + 1)) div 2"

definition blocks_known :: "'a deque \<Rightarrow> bool" where
  "blocks_known d \<longleftrightarrow>
     list_all (\<lambda>s. case s of None \<Rightarrow> True | Some a \<Rightarrow> a < next_addr d) (ppc_map d)"

lemma blocks_knownD:
  "blocks_known d \<Longrightarrow> i < length (ppc_map d) \<Longrightarrow> ppc_map d ! i = Some a \<Longrightarrow> a < next_addr d"
  by (auto simp: blocks_known_def list_all_length split: option.splits)

lemma copy_slots_ok:
  assumes "0 \<le> n" "0 \<le> soff" "soff + n \<le> int (length src)"
    "0 \<le> doff" "doff + n \<le> int (length dst)"
  shows "\<exists>m. copy_slots dst doff src soff n = Inr m \<and> length m = length dst \<and>
           (\<forall>i. doff \<le> i \<and> i < doff + n \<longrightarrow> m ! nat i = src ! nat (soff + (i - doff))) \<and>
           (\<forall>i. 0 \<le> i \<and> (i < doff \<or> doff + n \<le> i) \<and> i < int (length dst) \<longrightarrow>
              m ! nat i = dst ! nat i)"
proof -
  let ?m = "take (nat doff) dst @ take (nat n) (drop (nat soff) src) @ drop (nat (doff + n)) dst"
  from assms have c: "copy_slots dst doff src soff n = Inr ?m" by (simp add: copy_slots_def)
  from assms have l1: "length (take (nat doff) dst) = nat doff"
    and l2: "length (take (nat n) (drop (nat soff) src)) = nat n" by simp_all
  from assms have len: "length ?m = length dst" by simp
  have mid: "?m ! nat i = src ! nat (soff + (i - doff))" if "doff \<le> i" "i < doff + n" for i
  proof -
    from that assms have "nat i = nat doff + nat (i - doff)" "nat (i - doff) < nat n" by simp_all
    then have "?m ! nat i = take (nat n) (drop (nat soff) src) ! nat (i - doff)"
      using l1 l2 by (simp add: nth_append)
    also from that assms have "\<dots> = src ! (nat soff + nat (i - doff))" by simp
    also from that assms have "nat soff + nat (i - doff) = nat (soff + (i - doff))" by simp
    finally show ?thesis .
  qed
  have out: "?m ! nat i = dst ! nat i"
    if "0 \<le> i" "i < doff \<or> doff + n \<le> i" "i < int (length dst)" for i
  proof (cases "i < doff")
    case True
    with that assms show ?thesis using l1 by (simp add: nth_append)
  next
    case False
    with that have ge: "doff + n \<le> i" by simp
    with assms that have "nat i = nat doff + nat n + nat (i - doff - n)" by simp
    then have "?m ! nat i = drop (nat (doff + n)) dst ! nat (i - doff - n)"
      using l1 l2 by (simp add: nth_append)
    also from ge assms that have "\<dots> = dst ! nat i"
      by (simp add: nat_add_distrib[symmetric])
    finally show ?thesis .
  qed
  from c len mid out show ?thesis by blast
qed

lemma alloc_blocks_up_result:
  "0 \<le> p \<Longrightarrow> p + int n \<le> int (length (ppc_map x)) \<Longrightarrow>
   \<exists>x'. alloc_blocks_up x n p = Inr x' \<and> length (ppc_map x') = length (ppc_map x) \<and>
     (\<forall>i. p \<le> i \<and> i < p + int n \<longrightarrow> ppc_map x' ! nat i = Some (next_addr x + nat (i - p))) \<and>
     (\<forall>i. 0 \<le> i \<and> (i < p \<or> p + int n \<le> i) \<longrightarrow> ppc_map x' ! nat i = ppc_map x ! nat i) \<and>
     (\<forall>a. next_addr x \<le> a \<and> a < next_addr x + n \<longrightarrow> heap x' a = replicate 16 Raw) \<and>
     (\<forall>a. a < next_addr x \<longrightarrow> heap x' a = heap x a) \<and>
     next_addr x' = next_addr x + n \<and> t_start x' = t_start x \<and> t_finish x' = t_finish x \<and>
     t_mapsize x' = t_mapsize x \<and> t_typeinit x' = t_typeinit x"
proof (induction n arbitrary: x p)
  case 0
  then show ?case by auto
next
  case (Suc n)
  let ?a = "next_addr x"
  let ?x2 = "(fst (allocate_block x))\<lparr>ppc_map := (ppc_map x)[nat p := Some ?a]\<rparr>"
  from Suc.prems have w: "write_slot (fst (allocate_block x)) p (Some (snd (allocate_block x)))
      = Inr ?x2"
    by (simp add: write_slot_def allocate_block_def)
  have f: "ppc_map ?x2 = (ppc_map x)[nat p := Some ?a]" "next_addr ?x2 = Suc ?a"
    "heap ?x2 = (heap x)(?a := replicate 16 Raw)" "t_start ?x2 = t_start x"
    "t_finish ?x2 = t_finish x" "t_mapsize ?x2 = t_mapsize x" "t_typeinit ?x2 = t_typeinit x"
    by (simp_all add: allocate_block_def)
  from Suc.prems f(1) have "0 \<le> p + 1" "p + 1 + int n \<le> int (length (ppc_map ?x2))" by simp_all
  from Suc.IH[OF this] obtain x' where
    r: "alloc_blocks_up ?x2 n (p + 1) = Inr x'"
    and l: "length (ppc_map x') = length (ppc_map ?x2)"
    and new: "\<And>i. p + 1 \<le> i \<Longrightarrow> i < p + 1 + int n \<Longrightarrow>
        ppc_map x' ! nat i = Some (next_addr ?x2 + nat (i - (p + 1)))"
    and old: "\<And>i. 0 \<le> i \<Longrightarrow> i < p + 1 \<or> p + 1 + int n \<le> i \<Longrightarrow>
        ppc_map x' ! nat i = ppc_map ?x2 ! nat i"
    and hn: "\<And>a. next_addr ?x2 \<le> a \<Longrightarrow> a < next_addr ?x2 + n \<Longrightarrow> heap x' a = replicate 16 Raw"
    and ho: "\<And>a. a < next_addr ?x2 \<Longrightarrow> heap x' a = heap ?x2 a"
    and rest: "next_addr x' = next_addr ?x2 + n" "t_start x' = t_start ?x2"
      "t_finish x' = t_finish ?x2" "t_mapsize x' = t_mapsize ?x2" "t_typeinit x' = t_typeinit ?x2"
    by blast
  from w r have run: "alloc_blocks_up x (Suc n) p = Inr x'" by simp
  have n1: "ppc_map x' ! nat i = Some (?a + nat (i - p))" if "p \<le> i" "i < p + int (Suc n)" for i
  proof (cases "i = p")
    case True
    with old[of p] Suc.prems f(1) show ?thesis by simp
  next
    case False
    with that have "p + 1 \<le> i" "i < p + 1 + int n" by simp_all
    from new[OF this] that False f(2) show ?thesis
      by (simp add: nat_diff_distrib)
  qed
  have o1: "ppc_map x' ! nat i = ppc_map x ! nat i"
    if "0 \<le> i" "i < p \<or> p + int (Suc n) \<le> i" for i
  proof -
    from that have "i < p + 1 \<or> p + 1 + int n \<le> i" by auto
    from old[OF that(1) this] that Suc.prems f(1) show ?thesis by auto
  qed
  have h1: "heap x' a = replicate 16 Raw" if "?a \<le> a" "a < ?a + Suc n" for a
  proof (cases "a = ?a")
    case True
    with ho[of a] f show ?thesis by simp
  next
    case False
    with that hn[of a] f show ?thesis by simp
  qed
  have h2: "heap x' a = heap x a" if "a < ?a" for a
    using ho[of a] that f by simp
  from run l f n1 o1 h1 h2 rest show ?case
    by (intro exI[of _ x'] conjI allI impI) simp_all
qed


lemma alloc_blocks_down_result:
  "int n \<le> p + 1 \<Longrightarrow> p < int (length (ppc_map x)) \<Longrightarrow>
   \<exists>x'. alloc_blocks_down x n p = Inr x' \<and> length (ppc_map x') = length (ppc_map x) \<and>
     (\<forall>i. p - int n < i \<and> i \<le> p \<longrightarrow> ppc_map x' ! nat i = Some (next_addr x + nat (p - i))) \<and>
     (\<forall>i. 0 \<le> i \<and> (i \<le> p - int n \<or> p < i) \<longrightarrow> ppc_map x' ! nat i = ppc_map x ! nat i) \<and>
     (\<forall>a. next_addr x \<le> a \<and> a < next_addr x + n \<longrightarrow> heap x' a = replicate 16 Raw) \<and>
     (\<forall>a. a < next_addr x \<longrightarrow> heap x' a = heap x a) \<and>
     next_addr x' = next_addr x + n \<and> t_start x' = t_start x \<and> t_finish x' = t_finish x \<and>
     t_mapsize x' = t_mapsize x \<and> t_typeinit x' = t_typeinit x"
proof (induction n arbitrary: x p)
  case 0
  then show ?case by auto
next
  case (Suc n)
  let ?a = "next_addr x"
  let ?x2 = "(fst (allocate_block x))\<lparr>ppc_map := (ppc_map x)[nat p := Some ?a]\<rparr>"
  from Suc.prems have p0: "0 \<le> p" by simp
  with Suc.prems have w: "write_slot (fst (allocate_block x)) p (Some (snd (allocate_block x)))
      = Inr ?x2"
    by (simp add: write_slot_def allocate_block_def)
  have f: "ppc_map ?x2 = (ppc_map x)[nat p := Some ?a]" "next_addr ?x2 = Suc ?a"
    "heap ?x2 = (heap x)(?a := replicate 16 Raw)" "t_start ?x2 = t_start x"
    "t_finish ?x2 = t_finish x" "t_mapsize ?x2 = t_mapsize x" "t_typeinit ?x2 = t_typeinit x"
    by (simp_all add: allocate_block_def)
  from Suc.prems f(1) have "int n \<le> p - 1 + 1" "p - 1 < int (length (ppc_map ?x2))" by simp_all
  from Suc.IH[OF this] obtain x' where
    r: "alloc_blocks_down ?x2 n (p - 1) = Inr x'"
    and l: "length (ppc_map x') = length (ppc_map ?x2)"
    and new: "\<And>i. p - 1 - int n < i \<Longrightarrow> i \<le> p - 1 \<Longrightarrow>
        ppc_map x' ! nat i = Some (next_addr ?x2 + nat (p - 1 - i))"
    and old: "\<And>i. 0 \<le> i \<Longrightarrow> i \<le> p - 1 - int n \<or> p - 1 < i \<Longrightarrow>
        ppc_map x' ! nat i = ppc_map ?x2 ! nat i"
    and hn: "\<And>a. next_addr ?x2 \<le> a \<Longrightarrow> a < next_addr ?x2 + n \<Longrightarrow> heap x' a = replicate 16 Raw"
    and ho: "\<And>a. a < next_addr ?x2 \<Longrightarrow> heap x' a = heap ?x2 a"
    and rest: "next_addr x' = next_addr ?x2 + n" "t_start x' = t_start ?x2"
      "t_finish x' = t_finish ?x2" "t_mapsize x' = t_mapsize ?x2" "t_typeinit x' = t_typeinit ?x2"
    by blast
  from w r have run: "alloc_blocks_down x (Suc n) p = Inr x'" by simp
  have n1: "ppc_map x' ! nat i = Some (?a + nat (p - i))" if "p - int (Suc n) < i" "i \<le> p" for i
  proof (cases "i = p")
    case True
    with old[of p] p0 Suc.prems f(1) show ?thesis by simp
  next
    case False
    with that have "p - 1 - int n < i" "i \<le> p - 1" by simp_all
    from new[OF this] that False f(2) show ?thesis
      by (simp add: nat_diff_distrib)
  qed
  have o1: "ppc_map x' ! nat i = ppc_map x ! nat i"
    if "0 \<le> i" "i \<le> p - int (Suc n) \<or> p < i" for i
  proof -
    from that have "i \<le> p - 1 - int n \<or> p - 1 < i" by auto
    from old[OF that(1) this] that p0 f(1) show ?thesis by auto
  qed
  have h1: "heap x' a = replicate 16 Raw" if "?a \<le> a" "a < ?a + Suc n" for a
  proof (cases "a = ?a")
    case True
    with ho[of a] f show ?thesis by simp
  next
    case False
    with that hn[of a] f show ?thesis by simp
  qed
  have h2: "heap x' a = heap x a" if "a < ?a" for a
    using ho[of a] that f by simp
  from run l f n1 o1 h1 h2 rest show ?case
    by (intro exI[of _ x'] conjI allI impI) simp_all
qed

text \<open>
  The invariant of a state \<open>e\<close> whose valid run consists of the blocks of the valid run
  of \<open>d\<close>, found \<open>\<delta>\<close> slots further up, and of fresh blocks in the other slots.
\<close>

lemma wf_extended:
  assumes wf: "wf_deque d" and bk: "blocks_known d"
    and len: "int (length (ppc_map e)) = t_mapsize e"
    and b: "0 \<le> ppc_mappos (t_start e)" "ppc_mappos (t_start e) \<le> ppc_mappos (t_finish e)"
      "ppc_mappos (t_finish e) < t_mapsize e"
    and ol: "olo - \<delta> = ppc_mappos (t_start d)" "ohi - \<delta> = ppc_mappos (t_finish d)"
    and old: "\<And>i. olo \<le> i \<Longrightarrow> i \<le> ohi \<Longrightarrow> ppc_map e ! nat i = ppc_map d ! nat (i - \<delta>)"
    and new: "\<And>i. ppc_mappos (t_start e) \<le> i \<Longrightarrow> i \<le> ppc_mappos (t_finish e) \<Longrightarrow>
        i < olo \<or> ohi < i \<Longrightarrow> ppc_map e ! nat i = Some (next_addr d + nw i)"
    and inj: "\<And>i j. nw i = nw j \<Longrightarrow> i < olo \<or> ohi < i \<Longrightarrow> j < olo \<or> ohi < j \<Longrightarrow>
        ppc_mappos (t_start e) \<le> i \<Longrightarrow> i \<le> ppc_mappos (t_finish e) \<Longrightarrow>
        ppc_mappos (t_start e) \<le> j \<Longrightarrow> j \<le> ppc_mappos (t_finish e) \<Longrightarrow> i = j"
    and ho: "\<And>a. a < next_addr d \<Longrightarrow> heap e a = heap d a"
    and hn: "\<And>i. ppc_mappos (t_start e) \<le> i \<Longrightarrow> i \<le> ppc_mappos (t_finish e) \<Longrightarrow>
        i < olo \<or> ohi < i \<Longrightarrow> heap e (next_addr d + nw i) = replicate 16 Raw"
    and firsts: "pc_first (t_start e) = ppc_map e ! nat (ppc_mappos (t_start e))"
      "pc_first (t_finish e) = ppc_map e ! nat (ppc_mappos (t_finish e))"
    and cs: "0 \<le> pc_corepos (t_start e)" "pc_corepos (t_start e) \<le> 16"
      "0 \<le> pc_corepos (t_finish e)" "pc_corepos (t_finish e) < 16"
    and ord: "gpos (t_start e) \<le> gpos (t_finish e)"
  shows "wf_deque e"
proof (rule wf_dequeI[OF len b _ _ firsts cs ord])
  note bd = wf_bounds[OF wf]
  have oldblk: "\<exists>a. ppc_map e ! nat i = Some a \<and> a < next_addr d \<and> length (heap d a) = 16"
    if "olo \<le> i" "i \<le> ohi" for i
  proof -
    from that ol have r: "ppc_mappos (t_start d) \<le> i - \<delta>" "i - \<delta> \<le> ppc_mappos (t_finish d)"
      by simp_all
    from wf_slot[OF wf r] obtain a where
      a: "ppc_map d ! nat (i - \<delta>) = Some a" "length (heap d a) = 16" by auto
    from r bd have "nat (i - \<delta>) < length (ppc_map d)" by simp
    from blocks_knownD[OF bk this a(1)] a old[OF that] show ?thesis by simp
  qed
  show "\<exists>a. ppc_map e ! nat i = Some a \<and> length (heap e a) = 16"
    if "ppc_mappos (t_start e) \<le> i" "i \<le> ppc_mappos (t_finish e)" for i
  proof (cases "olo \<le> i \<and> i \<le> ohi")
    case True
    with oldblk[of i] ho show ?thesis by auto
  next
    case False
    then have "i < olo \<or> ohi < i" by auto
    from new[OF that this] hn[OF that this] show ?thesis by simp
  qed
  show "i = j"
    if "ppc_mappos (t_start e) \<le> i" "i \<le> ppc_mappos (t_finish e)"
      "ppc_mappos (t_start e) \<le> j" "j \<le> ppc_mappos (t_finish e)"
      "ppc_map e ! nat i = ppc_map e ! nat j" for i j
  proof (cases "olo \<le> i \<and> i \<le> ohi")
    case True
    note oi = this
    show ?thesis
    proof (cases "olo \<le> j \<and> j \<le> ohi")
      case True
      from oi True old that(5) have "ppc_map d ! nat (i - \<delta>) = ppc_map d ! nat (j - \<delta>)" by simp
      from wf_slot_inj[OF wf _ _ _ _ this] oi True ol show ?thesis by simp
    next
      case False
      then have "j < olo \<or> ohi < j" by auto
      from new[OF that(3,4) this] oldblk[of i] oi that(5) show ?thesis by auto
    qed
  next
    case False
    then have ni: "i < olo \<or> ohi < i" by auto
    show ?thesis
    proof (cases "olo \<le> j \<and> j \<le> ohi")
      case True
      from new[OF that(1,2) ni] oldblk[of j] True that(5) show ?thesis by auto
    next
      case False
      then have nj: "j < olo \<or> ohi < j" by auto
      from new[OF that(1,2) ni] new[OF that(3,4) nj] that(5) have "nw i = nw j" by simp
      from inj[OF this ni nj that(1,2,3,4)] show ?thesis .
    qed
  qed
qed


lemma containers_for_total: "0 \<le> n \<Longrightarrow> 16 * containers_for n + n mod 16 = n + 16"
proof -
  assume "0 \<le> n"
  obtain q r where qr: "n = 16 * q + r" "0 \<le> r" "r < 16" and dm: "n div 16 = q" "n mod 16 = r"
    using dm16_decomp[of n] by blast
  show ?thesis
  proof (cases "r = 0")
    case True
    with qr have "n + 16 - 1 = 16 * q + 15" by simp
    from dm16_unique(1)[OF this] have "(n + 16 - 1) div 16 = q" by simp
    with dm True have "containers_for n = q + 1" unfolding containers_for_def by simp
    with qr(1) dm(2) True show ?thesis by simp
  next
    case False
    with qr have "n + 16 - 1 = 16 * (q + 1) + (r - 1)" "0 \<le> r - 1" "r - 1 < 16" by simp_all
    from dm16_unique(1)[OF this(1,2,3)] have "(n + 16 - 1) div 16 = q + 1" .
    with dm False have "containers_for n = q + 1" unfolding containers_for_def by simp
    with qr(1) dm(2) show ?thesis by simp
  qed
qed

lemma expand_at_end_new_directory:
  fixes d :: "'a deque" and t :: nat and pos :: "iter option"
  assumes wf: "wf_deque d" and ce: "centred d" and bk: "blocks_known d"
    and nf: "\<not> int t < 16 - pc_corepos (t_finish d)"
    and gr: "remain_map_size d < containers_for (int t - (16 - pc_corepos (t_finish d)))"
  shows "\<exists>d' oe pp. expand_at_end d t pos = Inr (d', oe, pp) \<and> wf_deque d' \<and> centred d' \<and>
           t_mapsize d' = t_mapsize d +
             growsize_for (containers_for (int t - (16 - pc_corepos (t_finish d))) -
                           remain_map_size d) \<and>
           int (length (ppc_map d')) = t_mapsize d' \<and>
           gpos (t_finish d') - gpos (t_start d') =
             gpos (t_finish d) - gpos (t_start d) + int t"
proof -
  let ?ms = "ppc_mappos (t_start d)" and ?mf = "ppc_mappos (t_finish d)"
  let ?cf = "pc_corepos (t_finish d)" and ?cs = "pc_corepos (t_start d)"
  define V where "V = ?mf - ?ms + 1"
  define M where "M = t_mapsize d"
  define nomem where "nomem = int t - (16 - ?cf)"
  define C where "C = containers_for nomem"
  define G where "G = growsize_for (C - remain_map_size d)"
  define ns where "ns = (M + G - (V + C)) div 2"
  note b = wf_bounds[OF wf]
  from wf have len: "int (length (ppc_map d)) = M" by (simp add: wf_deque_def M_def)
  from wf have cfb: "0 \<le> ?cf" "?cf < 16" "0 \<le> ?cs" "?cs \<le> 16" by (simp_all add: wf_deque_def)
  from b have V1: "1 \<le> V" "?ms + V \<le> M" "?mf = ?ms + V - 1" using len by (simp_all add: V_def)
  have S: "remain_map_size d = M - V" by (simp add: remain_map_size_def M_def V_def)
  from nf have nm0: "0 \<le> nomem" by (simp add: nomem_def)
  from gr S have CS: "M - V < C" by (simp add: C_def nomem_def)
  with V1 b have C1: "1 \<le> C" by simp
  from growsize_for_least(2)[of "C - (M - V)"] S have GG: "C - (M - V) \<le> G" by (simp add: G_def)
  then have x0: "0 \<le> M + G - (V + C)" by simp
  then have ns0: "0 \<le> ns" "ns + V + C \<le> M + G" by (simp_all add: ns_def)
  from ce have os: "(M - V) div 2 = ?ms" by (simp add: centred_def M_def V_def)
  from CS GG b V1 have MG: "0 \<le> M + G" by simp
  \<comment> \<open>the new directory\<close>
  from ns0 V1 b len MG
  have "0 \<le> V" "0 \<le> ?ms" "?ms + V \<le> int (length (ppc_map d))" "0 \<le> ns"
    "ns + V \<le> int (length (replicate (nat (M + G)) (None :: nat option)))" using C1 by simp_all
  from copy_slots_ok[OF this] obtain m where
    cp: "copy_slots (replicate (nat (M + G)) None) ns (ppc_map d) ?ms V = Inr m"
    and lm: "length m = nat (M + G)"
    and mid: "\<And>i. ns \<le> i \<Longrightarrow> i < ns + V \<Longrightarrow> m ! nat i = ppc_map d ! nat (?ms + (i - ns))"
    by auto
  define st1 where "st1 = (t_start d)\<lparr>ppc_mappos := ns\<rparr>"
  define oe1 where "oe1 = (t_finish d)\<lparr>ppc_mappos := ns + V - 1\<rparr>"
  define d1 where "d1 = d\<lparr>ppc_map := m, t_mapsize := M + G, t_start := st1, t_finish := oe1\<rparr>"
  define pos1 where "pos1 = set_mappos pos
     (ns + (case pos of None \<Rightarrow> 0 | Some p \<Rightarrow> ppc_mappos p - ?ms))"
  have g1: "grow_map_at_end d C (t_finish d) pos = Inr (d1, oe1, pos1)"
    unfolding grow_map_at_end_def Let_def
    using cp
    by (simp add: M_def[symmetric] V_def[symmetric] G_def[symmetric] os ns_def[symmetric]
        d1_def st1_def oe1_def pos1_def)
  \<comment> \<open>the new blocks\<close>
  have f1: "ppc_map d1 = m" "next_addr d1 = next_addr d" "heap d1 = heap d"
    "t_start d1 = st1" "t_mapsize d1 = M + G" "t_typeinit d1 = t_typeinit d"
    by (simp_all add: d1_def)
  from ns0 V1 C1 lm f1 have "0 \<le> ns + V" "ns + V + int (nat C) \<le> int (length (ppc_map d1))"
    by simp_all
  from alloc_blocks_up_result[OF this] f1 C1 obtain d2 where
    al: "alloc_blocks_up d1 (nat C) (ns + V) = Inr d2"
    and l2: "length (ppc_map d2) = nat (M + G)"
    and new2: "\<And>i. ns + V \<le> i \<Longrightarrow> i < ns + V + C \<Longrightarrow>
        ppc_map d2 ! nat i = Some (next_addr d + nat (i - (ns + V)))"
    and old2: "\<And>i. 0 \<le> i \<Longrightarrow> i < ns + V \<or> ns + V + C \<le> i \<Longrightarrow> ppc_map d2 ! nat i = m ! nat i"
    and hn2: "\<And>a. next_addr d \<le> a \<Longrightarrow> a < next_addr d + nat C \<Longrightarrow> heap d2 a = replicate 16 Raw"
    and ho2: "\<And>a. a < next_addr d \<Longrightarrow> heap d2 a = heap d a"
    and r2: "t_start d2 = st1" "t_mapsize d2 = M + G" "t_typeinit d2 = t_typeinit d"
    using lm by auto
  define fin where "fin = \<lparr>ppc_mappos = ns + V - 1 + C,
     pc_first = Some (next_addr d + nat (C - 1)), pc_corepos = nomem mod 16\<rparr>"
  define d3 where "d3 = d2\<lparr>t_finish := fin\<rparr>"
  from new2[of "ns + V - 1 + C"] C1
  have lastslot: "ppc_map d2 ! nat (ns + V - 1 + C) = Some (next_addr d + nat (C - 1))"
    by (simp add: algebra_simps)
  from ns0 V1 C1 l2 have inb: "0 \<le> ns + V - 1 + C" "ns + V - 1 + C < int (length (ppc_map d2))"
    by simp_all
  with lastslot have rs: "read_slot d2 (ns + V - 1 + C) = Inr (Some (next_addr d + nat (C - 1)))"
    by (simp add: read_slot_def)
  have pm: "ppc_mappos oe1 = ns + V - 1" by (simp add: oe1_def)
  have blocks: "expand_at_end_blocks d nomem (t_finish d) pos = Inr (d3, oe1, pos1)"
    unfolding expand_at_end_blocks_def Let_def
    using gr g1 al rs
    by (simp add: nomem_def[symmetric] C_def[symmetric] pm d3_def fin_def)
  \<comment> \<open>the invariant of the new state\<close>
  have f3: "ppc_map d3 = ppc_map d2" "heap d3 = heap d2" "t_start d3 = st1" "t_finish d3 = fin"
    "t_mapsize d3 = M + G" "t_typeinit d3 = t_typeinit d"
    using r2 by (simp_all add: d3_def)
  have m3: "ppc_mappos (t_start d3) = ns" "ppc_mappos (t_finish d3) = ns + V - 1 + C"
    "pc_corepos (t_start d3) = ?cs" "pc_corepos (t_finish d3) = nomem mod 16"
    "pc_first (t_start d3) = pc_first (t_start d)"
    by (simp_all add: f3 st1_def fin_def)
  have g3: "gpos (t_start d3) = 16 * ns + ?cs" "gpos (t_finish d3) = 16 * (ns + V - 1 + C) + nomem mod 16"
    by (simp_all add: gpos_def m3)
  have wf3: "wf_deque d3"
  proof (rule wf_extended[OF wf bk, where olo = ns and ohi = "ns + V - 1" and \<delta> = "ns - ?ms"
        and nw = "\<lambda>i. nat (i - (ns + V))"])
    from l2 MG show "int (length (ppc_map d3)) = t_mapsize d3" by (simp add: f3)
    from ns0 show "0 \<le> ppc_mappos (t_start d3)" by (simp add: m3)
    from V1 C1 show "ppc_mappos (t_start d3) \<le> ppc_mappos (t_finish d3)" by (simp add: m3)
    from ns0 V1 C1 show "ppc_mappos (t_finish d3) < t_mapsize d3" by (simp add: m3 f3(1,2,5,6))
    show "ns - (ns - ?ms) = ?ms" by simp
    from V1 show "ns + V - 1 - (ns - ?ms) = ?mf" by simp
  next
    fix i assume i: "ns \<le> i" "i \<le> ns + V - 1"
    with ns0 old2[of i] mid[of i] show "ppc_map d3 ! nat i = ppc_map d ! nat (i - (ns - ?ms))"
      by (simp add: f3 algebra_simps)
  next
    fix i assume "ppc_mappos (t_start d3) \<le> i" "i \<le> ppc_mappos (t_finish d3)"
      "i < ns \<or> ns + V - 1 < i"
    then have "ns + V \<le> i" "i < ns + V + C" by (simp_all add: m3)
    from new2[OF this] show "ppc_map d3 ! nat i = Some (next_addr d + nat (i - (ns + V)))"
      by (simp add: f3)
  next
    fix i j assume "nat (i - (ns + V)) = nat (j - (ns + V))" "i < ns \<or> ns + V - 1 < i"
      "j < ns \<or> ns + V - 1 < j" "ppc_mappos (t_start d3) \<le> i" "ppc_mappos (t_start d3) \<le> j"
    then show "i = j" by (simp add: m3)
  next
    fix a assume "a < next_addr d"
    from ho2[OF this] show "heap d3 a = heap d a" by (simp add: f3)
  next
    fix i assume "ppc_mappos (t_start d3) \<le> i" "i \<le> ppc_mappos (t_finish d3)"
      "i < ns \<or> ns + V - 1 < i"
    then have "ns + V \<le> i" "i < ns + V + C" by (simp_all add: m3)
    then have "nat (i - (ns + V)) < nat C" by simp
    with hn2[of "next_addr d + nat (i - (ns + V))"]
    show "heap d3 (next_addr d + nat (i - (ns + V))) = replicate 16 Raw" by (simp add: f3)
  next
    from wf have "pc_first (t_start d) = ppc_map d ! nat ?ms" by (simp add: wf_deque_def)
    with old2[of ns] mid[of ns] ns0 V1
    show "pc_first (t_start d3) = ppc_map d3 ! nat (ppc_mappos (t_start d3))"
      by (simp add: m3 f3(1,2,5,6))
    from lastslot show "pc_first (t_finish d3) = ppc_map d3 ! nat (ppc_mappos (t_finish d3))"
      by (simp add: f3 fin_def)
    from cfb show "0 \<le> pc_corepos (t_start d3)" "pc_corepos (t_start d3) \<le> 16" by (simp_all add: m3)
    show "0 \<le> pc_corepos (t_finish d3)" "pc_corepos (t_finish d3) < 16" by (simp_all add: m3)
    have "0 \<le> nomem mod 16" by simp
    with cfb V1 C1 show "gpos (t_start d3) \<le> gpos (t_finish d3)" by (simp add: g3)
  qed
  \<comment> \<open>the new elements\<close>
  let ?g = "16 * (ns + V - 1) + ?cf"
  have d16: "?g div 16 = ns + V - 1" "?g mod 16 = ?cf"
    by (rule dm16_unique[OF refl cfb(1,2)])+
  from wf have "pc_first (t_finish d) = ppc_map d ! nat ?mf" by (simp add: wf_deque_def)
  moreover have "?ms + (ns + V - 1 - ns) = ?mf" using V1 by simp
  moreover have "ppc_map d2 ! nat (ns + V - 1) = m ! nat (ns + V - 1)"
    using old2[of "ns + V - 1"] ns0 V1 by simp
  moreover have "m ! nat (ns + V - 1) = ppc_map d ! nat (?ms + (ns + V - 1 - ns))"
    using mid[of "ns + V - 1"] V1 by simp
  ultimately have "pc_first (t_finish d) = ppc_map d3 ! nat (ns + V - 1)"
    by (simp only: f3(1))
  then have "oe1 = iter_at d3 ?g" unfolding iter_at_def d16 oe1_def by simp
  then have ro: "rep d3 oe1 ?g" by (simp add: rep_def)
  from b(8) have gg: "16 * ?ms + ?cs \<le> 16 * ?mf + ?cf" by (simp add: gpos_def)
  with V1 have lo: "gpos (t_start d3) \<le> ?g" by (simp add: g3)
  have "0 \<le> nomem mod 16" by simp
  with cfb C1 have le: "?g \<le> gpos (t_finish d3)" by (simp add: g3)
  from init_range_fold[OF wf3 ro finish_rep[OF wf3] lo le]
  have it: "deque_init_elem_range_auxiliary d3 oe1 (deque_end d3) =
      Inr (foldl init_pos d3 [?g..gpos (t_finish d3) - 1])"
    by (simp add: deque_end_def)
  define dd where "dd = foldl init_pos d3 [?g..gpos (t_finish d3) - 1]"
  from nf blocks it have run: "expand_at_end d t pos = Inr (dd, oe1, pos1)"
    by (simp add: expand_at_end_def Let_def deque_end_def nomem_def dd_def)
  have sd: "same_dir d3 dd" unfolding dd_def by (rule foldl_same_dir) simp
  note wf' = same_dir_wf[OF sd wf3]
  from sd have e': "t_mapsize dd = M + G" "ppc_map dd = ppc_map d3" "t_start dd = t_start d3"
    "t_finish dd = t_finish d3"
    by (simp_all add: same_dir_def f3)
  have pm': "ppc_mappos (t_start dd) = ns" "ppc_mappos (t_finish dd) = ns + V - 1 + C"
    by (simp_all only: e' m3)
  have "(M + G - (ns + V - 1 + C - ns + 1)) div 2 = (M + G - (V + C)) div 2" by simp
  also have "\<dots> = ns" by (simp only: ns_def)
  finally have x: "(M + G - (ns + V - 1 + C - ns + 1)) div 2 = ns" .
  have ce': "centred dd" unfolding centred_def pm' e'(1) x by (rule refl)
  from containers_for_total[OF nm0] have "16 * C + nomem mod 16 = nomem + 16" by (simp add: C_def)
  moreover have "gpos (t_finish d) - gpos (t_start d) = 16 * (V - 1) + ?cf - ?cs"
    using V1 by (simp add: gpos_def)
  ultimately have sz: "gpos (t_finish dd) - gpos (t_start dd) =
      gpos (t_finish d) - gpos (t_start d) + int t"
    by (simp add: e' g3 nomem_def)
  from l2 MG have "int (length (ppc_map dd)) = t_mapsize dd" by (simp add: e' f3)
  with run wf' ce' e'(1) sz show ?thesis
    by (intro exI[of _ dd] exI[of _ oe1] exI[of _ pos1])
       (simp add: M_def G_def C_def nomem_def)
qed


lemma expand_at_begin_new_directory:
  fixes d :: "'a deque" and t :: nat and pos :: "iter option"
  assumes wf: "wf_deque d" and ce: "centred d" and bk: "blocks_known d"
    and pv: "pos_valid d pos"
    and nf: "\<not> int t < pc_corepos (t_start d)"
    and gr: "remain_map_size d < containers_for (int t - pc_corepos (t_start d))"
  shows "\<exists>d' ob pp. expand_at_begin d t pos = Inr (d', ob, pp) \<and> wf_deque d' \<and> centred d' \<and>
           t_mapsize d' = t_mapsize d +
             growsize_for (containers_for (int t - pc_corepos (t_start d)) -
                           remain_map_size d) \<and>
           int (length (ppc_map d')) = t_mapsize d' \<and>
           gpos (t_finish d') - gpos (t_start d') =
             gpos (t_finish d) - gpos (t_start d) + int t"
proof -
  let ?ms = "ppc_mappos (t_start d)" and ?mf = "ppc_mappos (t_finish d)"
  let ?cf = "pc_corepos (t_finish d)" and ?cs = "pc_corepos (t_start d)"
  define V where "V = ?mf - ?ms + 1"
  define M where "M = t_mapsize d"
  define nomem where "nomem = int t - ?cs"
  define C where "C = containers_for nomem"
  define G where "G = growsize_for (C - remain_map_size d)"
  define ns where "ns = (M + G - (V + C)) div 2"
  define np where "np = ns + C"
  note b = wf_bounds[OF wf]
  from wf have len: "int (length (ppc_map d)) = M" by (simp add: wf_deque_def M_def)
  from wf have cfb: "0 \<le> ?cf" "?cf < 16" "0 \<le> ?cs" "?cs \<le> 16" by (simp_all add: wf_deque_def)
  from b have V1: "1 \<le> V" "?ms + V \<le> M" "?mf = ?ms + V - 1" using len by (simp_all add: V_def)
  have S: "remain_map_size d = M - V" by (simp add: remain_map_size_def M_def V_def)
  from nf have nm0: "0 \<le> nomem" by (simp add: nomem_def)
  from gr S have CS: "M - V < C" by (simp add: C_def nomem_def)
  with V1 b have C1: "1 \<le> C" by simp
  from growsize_for_least(2)[of "C - (M - V)"] S have GG: "C - (M - V) \<le> G" by (simp add: G_def)
  then have x0: "0 \<le> M + G - (V + C)" by simp
  then have ns0: "0 \<le> ns" "ns + V + C \<le> M + G" by (simp_all add: ns_def)
  from ce have os: "(M - V) div 2 = ?ms" by (simp add: centred_def M_def V_def)
  from CS GG b V1 have MG: "0 \<le> M + G" by simp
  have nm16: "0 \<le> nomem mod 16" "nomem mod 16 < 16" by simp_all
  \<comment> \<open>the new directory\<close>
  from ns0 V1 b len MG C1
  have "0 \<le> V" "0 \<le> ?ms" "?ms + V \<le> int (length (ppc_map d))" "0 \<le> np"
    "np + V \<le> int (length (replicate (nat (M + G)) (None :: nat option)))"
    by (simp_all add: np_def)
  from copy_slots_ok[OF this] obtain m where
    cp: "copy_slots (replicate (nat (M + G)) None) np (ppc_map d) ?ms V = Inr m"
    and lm: "length m = nat (M + G)"
    and mid: "\<And>i. np \<le> i \<Longrightarrow> i < np + V \<Longrightarrow> m ! nat i = ppc_map d ! nat (?ms + (i - np))"
    by auto
  define ob1 where "ob1 = (t_start d)\<lparr>ppc_mappos := np\<rparr>"
  define fi1 where "fi1 = (t_finish d)\<lparr>ppc_mappos := np + V - 1\<rparr>"
  define d1 where "d1 = d\<lparr>ppc_map := m, t_mapsize := M + G, t_start := ob1, t_finish := fi1\<rparr>"
  define pos1 where "pos1 = set_mappos pos
     (np + (case pos of None \<Rightarrow> 0 | Some p \<Rightarrow> ppc_mappos p - ?ms))"
  have g1: "grow_map_at_begin d C (t_start d) pos = Inr (d1, ob1, pos1)"
    unfolding grow_map_at_begin_def Let_def
    using cp
    by (simp add: M_def[symmetric] V_def[symmetric] G_def[symmetric] os ns_def[symmetric]
        np_def[symmetric] d1_def ob1_def fi1_def pos1_def)
  \<comment> \<open>the new blocks\<close>
  have f1: "ppc_map d1 = m" "next_addr d1 = next_addr d" "heap d1 = heap d"
    "t_finish d1 = fi1" "t_mapsize d1 = M + G" "t_typeinit d1 = t_typeinit d"
    by (simp_all add: d1_def)
  from ns0 V1 C1 lm f1 have "int (nat C) \<le> np - 1 + 1" "np - 1 < int (length (ppc_map d1))"
    by (simp_all add: np_def)
  from alloc_blocks_down_result[OF this] obtain d2 where
    al: "alloc_blocks_down d1 (nat C) (np - 1) = Inr d2"
    and l2r: "length (ppc_map d2) = length (ppc_map d1)"
    and new2r: "\<And>i. np - 1 - int (nat C) < i \<Longrightarrow> i \<le> np - 1 \<Longrightarrow>
        ppc_map d2 ! nat i = Some (next_addr d1 + nat (np - 1 - i))"
    and old2r: "\<And>i. 0 \<le> i \<Longrightarrow> i \<le> np - 1 - int (nat C) \<or> np - 1 < i \<Longrightarrow>
        ppc_map d2 ! nat i = ppc_map d1 ! nat i"
    and hn2r: "\<And>a. next_addr d1 \<le> a \<Longrightarrow> a < next_addr d1 + nat C \<Longrightarrow>
        heap d2 a = replicate 16 Raw"
    and ho2r: "\<And>a. a < next_addr d1 \<Longrightarrow> heap d2 a = heap d1 a"
    and r2r: "t_finish d2 = t_finish d1" "t_mapsize d2 = t_mapsize d1"
      "t_typeinit d2 = t_typeinit d1"
    by blast
  from l2r lm have l2: "length (ppc_map d2) = nat (M + G)" by (simp add: f1)
  have new2: "ppc_map d2 ! nat i = Some (next_addr d + nat (np - 1 - i))"
    if "ns \<le> i" "i < np" for i
    using new2r[of i] that C1 by (simp add: f1 np_def)
  have old2: "ppc_map d2 ! nat i = m ! nat i" if "0 \<le> i" "i < ns \<or> np \<le> i" for i
    using old2r[of i] that C1 by (auto simp: f1 np_def)
  have hn2: "heap d2 a = replicate 16 Raw" if "next_addr d \<le> a" "a < next_addr d + nat C" for a
    using hn2r[of a] that by (simp add: f1)
  have ho2: "heap d2 a = heap d a" if "a < next_addr d" for a
    using ho2r[of a] that by (simp add: f1)
  from r2r have r2: "t_finish d2 = fi1" "t_mapsize d2 = M + G" "t_typeinit d2 = t_typeinit d"
    by (simp_all add: f1)
  define sta where "sta = \<lparr>ppc_mappos = ns,
     pc_first = Some (next_addr d + nat (C - 1)), pc_corepos = 16 - nomem mod 16\<rparr>"
  define d3 where "d3 = d2\<lparr>t_start := sta\<rparr>"
  from new2[of ns] C1
  have firstslot: "ppc_map d2 ! nat ns = Some (next_addr d + nat (C - 1))"
    by (simp add: np_def)
  from ns0 V1 C1 l2 have inb: "0 \<le> ns" "ns < int (length (ppc_map d2))"
    by simp_all
  with firstslot have rs: "read_slot d2 (np - C) = Inr (Some (next_addr d + nat (C - 1)))"
    by (simp add: read_slot_def np_def)
  have pm: "ppc_mappos ob1 = np" by (simp add: ob1_def)
  have npC: "np - C = ns" by (simp add: np_def)
  have blocks: "expand_at_begin_blocks d nomem (t_start d) pos = Inr (d3, ob1, pos1)"
    unfolding expand_at_begin_blocks_def Let_def
    using gr g1 al rs
    by (simp add: nomem_def[symmetric] C_def[symmetric] pm d3_def sta_def npC)
  \<comment> \<open>the invariant of the new state\<close>
  have f3: "ppc_map d3 = ppc_map d2" "heap d3 = heap d2" "t_start d3 = sta" "t_finish d3 = fi1"
    "t_mapsize d3 = M + G" "t_typeinit d3 = t_typeinit d"
    using r2 by (simp_all add: d3_def)
  have m3: "ppc_mappos (t_start d3) = ns" "ppc_mappos (t_finish d3) = np + V - 1"
    "pc_corepos (t_start d3) = 16 - nomem mod 16" "pc_corepos (t_finish d3) = ?cf"
    "pc_first (t_finish d3) = pc_first (t_finish d)"
    by (simp_all add: f3 sta_def fi1_def)
  have g3: "gpos (t_start d3) = 16 * ns + (16 - nomem mod 16)"
    "gpos (t_finish d3) = 16 * (np + V - 1) + ?cf"
    by (simp_all add: gpos_def m3)
  have lastold: "ppc_map d2 ! nat (np + V - 1) = ppc_map d ! nat ?mf"
  proof -
    have "?ms + (np + V - 1 - np) = ?mf" using V1 by simp
    moreover have "ppc_map d2 ! nat (np + V - 1) = m ! nat (np + V - 1)"
      using old2[of "np + V - 1"] ns0 V1 C1 by (simp add: np_def)
    moreover have "m ! nat (np + V - 1) = ppc_map d ! nat (?ms + (np + V - 1 - np))"
      using mid[of "np + V - 1"] V1 by simp
    ultimately show ?thesis by simp
  qed
  have firstold: "ppc_map d2 ! nat np = ppc_map d ! nat ?ms"
    using old2[of np] mid[of np] ns0 V1 C1 by (simp add: np_def)
  have wf3: "wf_deque d3"
  proof (rule wf_extended[OF wf bk, where olo = np and ohi = "np + V - 1" and \<delta> = "np - ?ms"
        and nw = "\<lambda>i. nat (np - 1 - i)"])
    from l2 MG show "int (length (ppc_map d3)) = t_mapsize d3" by (simp add: f3)
    from ns0 show "0 \<le> ppc_mappos (t_start d3)" by (simp add: m3)
    from V1 C1 show "ppc_mappos (t_start d3) \<le> ppc_mappos (t_finish d3)"
      by (simp add: m3 np_def)
    from ns0 V1 C1 show "ppc_mappos (t_finish d3) < t_mapsize d3"
      by (simp add: m3 f3(1,2,5,6) np_def)
    show "np - (np - ?ms) = ?ms" by simp
    from V1 show "np + V - 1 - (np - ?ms) = ?mf" by simp
  next
    fix i assume i: "np \<le> i" "i \<le> np + V - 1"
    with ns0 C1 old2[of i] mid[of i] show "ppc_map d3 ! nat i = ppc_map d ! nat (i - (np - ?ms))"
      by (simp add: f3(1) np_def algebra_simps)
  next
    fix i assume "ppc_mappos (t_start d3) \<le> i" "i \<le> ppc_mappos (t_finish d3)"
      "i < np \<or> np + V - 1 < i"
    then have "ns \<le> i" "i < np" by (simp_all add: m3)
    from new2[OF this] show "ppc_map d3 ! nat i = Some (next_addr d + nat (np - 1 - i))"
      by (simp add: f3(1))
  next
    fix i j assume "nat (np - 1 - i) = nat (np - 1 - j)" "i < np \<or> np + V - 1 < i"
      "j < np \<or> np + V - 1 < j" "i \<le> ppc_mappos (t_finish d3)" "j \<le> ppc_mappos (t_finish d3)"
    then show "i = j" by (simp add: m3)
  next
    fix a assume "a < next_addr d"
    from ho2[OF this] show "heap d3 a = heap d a" by (simp add: f3(2))
  next
    fix i assume "ppc_mappos (t_start d3) \<le> i" "i \<le> ppc_mappos (t_finish d3)"
      "i < np \<or> np + V - 1 < i"
    then have "ns \<le> i" "i < np" by (simp_all add: m3)
    then have "nat (np - 1 - i) < nat C" by (simp add: np_def)
    with hn2[of "next_addr d + nat (np - 1 - i)"]
    show "heap d3 (next_addr d + nat (np - 1 - i)) = replicate 16 Raw" by (simp add: f3(2))
  next
    from firstslot show "pc_first (t_start d3) = ppc_map d3 ! nat (ppc_mappos (t_start d3))"
      by (simp add: f3(1,3) sta_def)
    from wf have "pc_first (t_finish d) = ppc_map d ! nat ?mf" by (simp add: wf_deque_def)
    with lastold
    show "pc_first (t_finish d3) = ppc_map d3 ! nat (ppc_mappos (t_finish d3))"
      by (simp add: m3 f3(1))
    from nm16 show "0 \<le> pc_corepos (t_start d3)" "pc_corepos (t_start d3) \<le> 16"
      by (simp_all add: m3)
    from cfb show "0 \<le> pc_corepos (t_finish d3)" "pc_corepos (t_finish d3) < 16"
      by (simp_all add: m3)
    from nm16 cfb V1 C1 show "gpos (t_start d3) \<le> gpos (t_finish d3)"
      by (simp add: g3 np_def)
  qed
  \<comment> \<open>the old begin and the caller's iterator\<close>
  let ?g = "16 * np + ?cs"
  from wf have fs: "pc_first (t_start d) = ppc_map d ! nat ?ms" by (simp add: wf_deque_def)
  have ro: "rep d3 ob1 ?g"
  proof (cases "?cs = 16")
    case True
    with fs firstold show ?thesis by (simp add: rep_def ob1_def gpos_def f3(1))
  next
    case False
    with cfb have c: "0 \<le> ?cs" "?cs < 16" by simp_all
    have d16: "?g div 16 = np" "?g mod 16 = ?cs" by (rule dm16_unique[OF refl c])+
    from fs firstold have "pc_first (t_start d) = ppc_map d3 ! nat np" by (simp add: f3(1))
    then have "ob1 = iter_at d3 ?g" unfolding iter_at_def d16 ob1_def by simp
    then show ?thesis by (simp add: rep_def)
  qed
  from nm16 cfb C1 have lo: "gpos (t_start d3) \<le> ?g" by (simp add: g3 np_def)
  from b(8) have gg: "16 * ?ms + ?cs \<le> 16 * ?mf + ?cf" by (simp add: gpos_def)
  with V1 have hi: "?g \<le> gpos (t_finish d3)" by (simp add: g3)
  define ob2 where "ob2 = (if pc_corepos ob1 = 16 then iter_at d3 ?g else ob1)"
  from step_over_afterlast_rep[OF wf3 ro lo hi]
  have so: "step_over_afterlast d3 ob1 = Inr ob2" by (simp add: ob2_def)
  from ro have ro2: "rep d3 ob2 ?g" by (simp add: ob2_def)
  have "\<exists>pos2. (case pos1 of None \<Rightarrow> Inr None
        | Some p \<Rightarrow> map_sum id Some (step_over_afterlast d3 p)) = Inr pos2"
  proof (cases pos)
    case None
    then show ?thesis by (simp add: pos1_def set_mappos_def)
  next
    case (Some p)
    let ?p1 = "p\<lparr>ppc_mappos := np + (ppc_mappos p - ?ms)\<rparr>"
    from Some have p1: "pos1 = Some ?p1" by (simp add: pos1_def set_mappos_def)
    have "\<exists>r. step_over_afterlast d3 ?p1 = Inr r"
    proof (cases "pc_corepos p = 16")
      case False
      then show ?thesis by (simp add: step_over_afterlast_def)
    next
      case True
      from pv Some have r: "gpos (t_start d) \<le> gpos p" "gpos p \<le> gpos (t_finish d)"
        by (simp_all add: pos_valid_def)
      from True have "gpos p = 16 * (ppc_mappos p + 1) + 0" by (simp add: gpos_def)
      from dm16_unique(1)[OF this] have "gpos p div 16 = ppc_mappos p + 1" by simp
      with run_div[OF wf r] have q: "?ms \<le> ppc_mappos p + 1" "ppc_mappos p + 1 \<le> ?mf" by simp_all
      let ?i = "np + (ppc_mappos p - ?ms) + 1"
      from q V1 have i: "np \<le> ?i" "?i < np + V" by simp_all
      from wf_slot[OF wf q] obtain a where a: "ppc_map d ! nat (ppc_mappos p + 1) = Some a" by auto
      have "?ms + (?i - np) = ppc_mappos p + 1" by simp
      with old2[of ?i] mid[OF i] i ns0 C1 a have "ppc_map d3 ! nat ?i = Some a"
        by (simp add: f3(1) np_def)
      moreover from i ns0 C1 V1 l2 have "0 \<le> ?i" "?i < int (length (ppc_map d3))"
        by (simp_all add: f3(1) np_def)
      ultimately show ?thesis using True
        by (simp add: step_over_afterlast_def read_slot_def)
    qed
    with p1 show ?thesis by auto
  qed
  then obtain pos2 where ps: "(case pos1 of None \<Rightarrow> Inr None
        | Some p \<Rightarrow> map_sum id Some (step_over_afterlast d3 p)) = Inr pos2" ..
  \<comment> \<open>the new elements\<close>
  from init_range_fold[OF wf3 start_rep[OF wf3] ro2 order_refl lo hi]
  have it: "deque_init_elem_range_auxiliary d3 (deque_begin d3) ob2 =
      Inr (foldl init_pos d3 [gpos (t_start d3)..?g - 1])"
    by (simp add: deque_begin_def)
  define dd where "dd = foldl init_pos d3 [gpos (t_start d3)..?g - 1]"
  from nf blocks so ps it have run: "expand_at_begin d t pos = Inr (dd, ob2, pos2)"
    by (simp add: expand_at_begin_def Let_def deque_begin_def nomem_def dd_def)
  have sd: "same_dir d3 dd" unfolding dd_def by (rule foldl_same_dir) simp
  note wf' = same_dir_wf[OF sd wf3]
  from sd have e': "t_mapsize dd = M + G" "ppc_map dd = ppc_map d3" "t_start dd = t_start d3"
    "t_finish dd = t_finish d3"
    by (simp_all add: same_dir_def f3)
  have pm': "ppc_mappos (t_start dd) = ns" "ppc_mappos (t_finish dd) = np + V - 1"
    by (simp_all only: e' m3)
  have "(M + G - (np + V - 1 - ns + 1)) div 2 = (M + G - (V + C)) div 2" by (simp add: np_def)
  also have "\<dots> = ns" by (simp only: ns_def)
  finally have x: "(M + G - (np + V - 1 - ns + 1)) div 2 = ns" .
  have ce': "centred dd" unfolding centred_def pm' e'(1) x by (rule refl)
  from containers_for_total[OF nm0] have "16 * C + nomem mod 16 = nomem + 16" by (simp add: C_def)
  moreover have "gpos (t_finish d) - gpos (t_start d) = 16 * (V - 1) + ?cf - ?cs"
    using V1 by (simp add: gpos_def)
  ultimately have sz: "gpos (t_finish dd) - gpos (t_start dd) =
      gpos (t_finish d) - gpos (t_start d) + int t"
    by (simp add: e' g3 nomem_def np_def)
  from l2 MG have "int (length (ppc_map dd)) = t_mapsize dd" by (simp add: e' f3(1))
  with run wf' ce' e'(1) sz show ?thesis
    by (intro exI[of _ dd] exI[of _ ob2] exI[of _ pos2])
       (simp add: M_def G_def C_def nomem_def)
qed


text \<open>
  The reallocation itself needs no more than the data invariant: the new directory is
  large enough for the old run and the new blocks, wherever the old run stands.
\<close>

lemma grow_map_bounds:
  assumes "wf_deque d" and "remain_map_size d < cs"
  defines "v \<equiv> ppc_mappos (t_finish d) - ppc_mappos (t_start d) + 1"
  defines "N \<equiv> t_mapsize d + growsize_for (cs - remain_map_size d)"
  shows "0 \<le> v" "0 \<le> (t_mapsize d - v) div 2"
    "(t_mapsize d - v) div 2 + v \<le> int (length (ppc_map d))"
    "0 \<le> (N - (v + cs)) div 2" "(N - (v + cs)) div 2 + cs + v \<le> N" "0 < cs" "0 \<le> N"
proof -
  from assms(1) have w: "int (length (ppc_map d)) = t_mapsize d"
    "0 \<le> ppc_mappos (t_start d)" "ppc_mappos (t_start d) \<le> ppc_mappos (t_finish d)"
    "ppc_mappos (t_finish d) < t_mapsize d"
    by (simp_all add: wf_deque_def)
  from w show v0: "0 \<le> v" by (simp add: v_def)
  from w have vm: "v \<le> t_mapsize d" by (simp add: v_def)
  then show "0 \<le> (t_mapsize d - v) div 2" by simp
  from vm have "(t_mapsize d - v) div 2 \<le> t_mapsize d - v" by simp
  with w show "(t_mapsize d - v) div 2 + v \<le> int (length (ppc_map d))" by simp
  have r: "remain_map_size d = t_mapsize d - v" by (simp add: remain_map_size_def v_def)
  with vm assms(2) show c0: "0 < cs" by simp
  from growsize_for_least(2)[of "cs - remain_map_size d"] r
  have n: "v + cs \<le> N" by (simp add: N_def)
  then show "0 \<le> (N - (v + cs)) div 2" by simp
  from n have "(N - (v + cs)) div 2 \<le> N - (v + cs)" by simp
  then show "(N - (v + cs)) div 2 + cs + v \<le> N" by simp
  from n v0 c0 show "0 \<le> N" by simp
qed

lemma grow_map_at_end_total:
  assumes "wf_deque d" and "remain_map_size d < cs"
  shows "\<exists>d1 oe pp. grow_map_at_end d cs t_oldend pos = Inr (d1, oe, pp) \<and>
           t_mapsize d1 = t_mapsize d + growsize_for (cs - remain_map_size d) \<and>
           int (length (ppc_map d1)) = t_mapsize d1"
proof -
  note b = grow_map_bounds[OF assms]
  let ?v = "ppc_mappos (t_finish d) - ppc_mappos (t_start d) + 1"
  let ?N = "t_mapsize d + growsize_for (cs - remain_map_size d)"
  from b have "(?N - (?v + cs)) div 2 + ?v \<le> int (length (replicate (nat ?N) (None :: nat option)))"
    by simp
  with b have "\<exists>m. copy_slots (replicate (nat ?N) None) ((?N - (?v + cs)) div 2)
      (ppc_map d) ((t_mapsize d - ?v) div 2) ?v = Inr m"
    unfolding copy_slots_def by simp
  then obtain m where m1: "copy_slots (replicate (nat ?N) None) ((?N - (?v + cs)) div 2)
      (ppc_map d) ((t_mapsize d - ?v) div 2) ?v = Inr m" by blast
  from copy_slots_length[OF m1] have "length m = nat ?N" by simp
  note m = m1 this
  from b(7) m(2) have "int (length m) = ?N" by simp
  with m(1) show ?thesis
    unfolding grow_map_at_end_def Let_def by simp
qed

lemma grow_map_at_begin_total:
  assumes "wf_deque d" and "remain_map_size d < cs"
  shows "\<exists>d1 ob pp. grow_map_at_begin d cs t_oldbegin pos = Inr (d1, ob, pp) \<and>
           t_mapsize d1 = t_mapsize d + growsize_for (cs - remain_map_size d) \<and>
           int (length (ppc_map d1)) = t_mapsize d1"
proof -
  note b = grow_map_bounds[OF assms]
  let ?v = "ppc_mappos (t_finish d) - ppc_mappos (t_start d) + 1"
  let ?N = "t_mapsize d + growsize_for (cs - remain_map_size d)"
  from b have "(?N - (?v + cs)) div 2 + cs + ?v \<le>
      int (length (replicate (nat ?N) (None :: nat option)))" "0 \<le> (?N - (?v + cs)) div 2 + cs"
    by simp_all
  with b have "\<exists>m. copy_slots (replicate (nat ?N) None) ((?N - (?v + cs)) div 2 + cs)
      (ppc_map d) ((t_mapsize d - ?v) div 2) ?v = Inr m"
    unfolding copy_slots_def by simp
  then obtain m where m1: "copy_slots (replicate (nat ?N) None) ((?N - (?v + cs)) div 2 + cs)
      (ppc_map d) ((t_mapsize d - ?v) div 2) ?v = Inr m" by blast
  from copy_slots_length[OF m1] have "length m = nat ?N" by simp
  note m = m1 this
  from b(7) m(2) have "int (length m) = ?N" by simp
  with m(1) show ?thesis
    unfolding grow_map_at_begin_def Let_def by simp
qed

lemma ex_full_centred: "centred ex_full"
  by (simp add: centred_def ex_full_def)

lemma ex_full_blocks_known: "blocks_known ex_full"
  by (simp add: blocks_known_def ex_full_def)

text \<open>
  Claim C8: when an expansion needs more new blocks (\<open>needed\<close>) than the directory has
  unused slots (\<open>spare\<close>), the new directory has the old capacity plus the smallest
  positive multiple of the grow step 8 that covers the shortfall \<open>needed - spare\<close>,
  that is \<open>ceil((needed - spare) / 8) * 8\<close>.  For \<open>_expand_at_end\<close> and for
  \<open>_expand_at_begin\<close> the theorem states:
  \<^item> whenever the expansion returns, on a deque whose directory has \<open>_t_mapsize\<close> slots,
    both \<open>_t_mapsize\<close> and the number of slots of the directory of the result are the
    old capacity plus the growth;
  \<^item> the expansion does return on a deque that satisfies the data invariant, whose
    valid run is centred in the directory and whose blocks are known to the allocator
    (and, at the begin, for a caller's iterator inside the deque), and the result
    satisfies the invariant, is centred again and holds \<open>t\<close> more elements;
  \<^item> the reallocation step of either expansion (the branch
    \<open>t_containersize > t_remainmapsize\<close>) returns on every deque that satisfies the data
    invariant, with a directory of the old capacity plus the growth;
  \<^item> the growth is the multiple of 8 in the interval from the shortfall to the
    shortfall plus 7, and it is positive.
\<close>

theorem C8_directory_growth:
  assumes "needed = containers_for nomem" and "spare = remain_map_size d"
    and "spare < needed"
  shows "(\<not> int t < DEQUE_ELEM_COUNT - pc_corepos (t_finish d) \<and>
            nomem = int t - (DEQUE_ELEM_COUNT - pc_corepos (t_finish d)) \<longrightarrow>
            (\<forall>r. expand_at_end d t pos = Inr r \<and> int (length (ppc_map d)) = t_mapsize d \<longrightarrow>
                 t_mapsize (fst r) = t_mapsize d + growsize_for (needed - spare) \<and>
                 int (length (ppc_map (fst r))) = t_mapsize d + growsize_for (needed - spare)) \<and>
            (wf_deque d \<and> centred d \<and> blocks_known d \<longrightarrow>
               (\<exists>r. expand_at_end d t pos = Inr r \<and> wf_deque (fst r) \<and> centred (fst r) \<and>
                    gpos (t_finish (fst r)) - gpos (t_start (fst r)) =
                      gpos (t_finish d) - gpos (t_start d) + int t))) \<and>
         (\<not> int t < pc_corepos (t_start d) \<and> nomem = int t - pc_corepos (t_start d) \<longrightarrow>
            (\<forall>r. expand_at_begin d t pos = Inr r \<and> int (length (ppc_map d)) = t_mapsize d \<longrightarrow>
                 t_mapsize (fst r) = t_mapsize d + growsize_for (needed - spare) \<and>
                 int (length (ppc_map (fst r))) = t_mapsize d + growsize_for (needed - spare)) \<and>
            (wf_deque d \<and> centred d \<and> blocks_known d \<and> pos_valid d pos \<longrightarrow>
               (\<exists>r. expand_at_begin d t pos = Inr r \<and> wf_deque (fst r) \<and> centred (fst r) \<and>
                    gpos (t_finish (fst r)) - gpos (t_start (fst r)) =
                      gpos (t_finish d) - gpos (t_start d) + int t))) \<and>
         (wf_deque d \<longrightarrow>
            (\<exists>d1 oe pp. grow_map_at_end d needed (t_finish d) pos = Inr (d1, oe, pp) \<and>
               t_mapsize d1 = t_mapsize d + growsize_for (needed - spare) \<and>
               int (length (ppc_map d1)) = t_mapsize d + growsize_for (needed - spare)) \<and>
            (\<exists>d1 ob pp. grow_map_at_begin d needed (t_start d) pos = Inr (d1, ob, pp) \<and>
               t_mapsize d1 = t_mapsize d + growsize_for (needed - spare) \<and>
               int (length (ppc_map d1)) = t_mapsize d + growsize_for (needed - spare))) \<and>
         8 dvd growsize_for (needed - spare) \<and> needed - spare \<le> growsize_for (needed - spare) \<and>
         growsize_for (needed - spare) < needed - spare + 8 \<and>
         0 < growsize_for (needed - spare)"
proof (intro conjI impI allI)
  assume w: "wf_deque d"
  from assms have lt: "remain_map_size d < needed" by simp
  from grow_map_at_end_total[OF w lt, of "t_finish d" pos] assms(2)
  show "\<exists>d1 oe pp. grow_map_at_end d needed (t_finish d) pos = Inr (d1, oe, pp) \<and>
      t_mapsize d1 = t_mapsize d + growsize_for (needed - spare) \<and>
      int (length (ppc_map d1)) = t_mapsize d + growsize_for (needed - spare)"
    by auto
  from grow_map_at_begin_total[OF w lt, of "t_start d" pos] assms(2)
  show "\<exists>d1 ob pp. grow_map_at_begin d needed (t_start d) pos = Inr (d1, ob, pp) \<and>
      t_mapsize d1 = t_mapsize d + growsize_for (needed - spare) \<and>
      int (length (ppc_map d1)) = t_mapsize d + growsize_for (needed - spare)"
    by auto
next
  assume h: "\<not> int t < DEQUE_ELEM_COUNT - pc_corepos (t_finish d) \<and>
            nomem = int t - (DEQUE_ELEM_COUNT - pc_corepos (t_finish d))"
  {
    fix r assume r: "expand_at_end d t pos = Inr r \<and> int (length (ppc_map d)) = t_mapsize d"
    then have e: "expand_at_end d t pos = Inr (fst r, fst (snd r), snd (snd r))" by simp
    from expand_at_end_mapsize[OF e] h assms
    show ms: "t_mapsize (fst r) = t_mapsize d + growsize_for (needed - spare)" by simp
    from expand_at_end_length[OF e] r ms
    show "int (length (ppc_map (fst r))) = t_mapsize d + growsize_for (needed - spare)" by simp
  }
  assume w: "wf_deque d \<and> centred d \<and> blocks_known d"
  from h assms have "\<not> int t < 16 - pc_corepos (t_finish d)"
    "remain_map_size d < containers_for (int t - (16 - pc_corepos (t_finish d)))" by simp_all
  from expand_at_end_new_directory[OF _ _ _ this, of pos] w
  show "\<exists>r. expand_at_end d t pos = Inr r \<and> wf_deque (fst r) \<and> centred (fst r) \<and>
          gpos (t_finish (fst r)) - gpos (t_start (fst r)) =
            gpos (t_finish d) - gpos (t_start d) + int t"
    by fastforce
next
  assume h: "\<not> int t < pc_corepos (t_start d) \<and> nomem = int t - pc_corepos (t_start d)"
  {
    fix r assume r: "expand_at_begin d t pos = Inr r \<and> int (length (ppc_map d)) = t_mapsize d"
    then have e: "expand_at_begin d t pos = Inr (fst r, fst (snd r), snd (snd r))" by simp
    from expand_at_begin_mapsize[OF e] h assms
    show ms: "t_mapsize (fst r) = t_mapsize d + growsize_for (needed - spare)" by simp
    from expand_at_begin_length[OF e] r ms
    show "int (length (ppc_map (fst r))) = t_mapsize d + growsize_for (needed - spare)" by simp
  }
  assume w: "wf_deque d \<and> centred d \<and> blocks_known d \<and> pos_valid d pos"
  from h assms have "\<not> int t < pc_corepos (t_start d)"
    "remain_map_size d < containers_for (int t - pc_corepos (t_start d))" by simp_all
  from expand_at_begin_new_directory[OF _ _ _ _ this, of pos] w
  show "\<exists>r. expand_at_begin d t pos = Inr r \<and> wf_deque (fst r) \<and> centred (fst r) \<and>
          gpos (t_finish (fst r)) - gpos (t_start (fst r)) =
            gpos (t_finish d) - gpos (t_start d) + int t"
    by fastforce
next
  from assms(3) show "0 < growsize_for (needed - spare)" by (simp add: growsize_for_pos)
qed (rule growsize_for_least)+

theorem C8_directory_growth_witness:
  "wf_deque ex_full \<and> centred ex_full \<and> blocks_known ex_full \<and> pos_valid ex_full None \<and>
   int (length (ppc_map ex_full)) = t_mapsize ex_full \<and> t_mapsize ex_full = 16 \<and>
   remain_map_size ex_full < containers_for 17 \<and>
   growsize_for (containers_for 17 - remain_map_size ex_full) = 8 \<and>
   (\<exists>r. expand_at_end ex_full 32 None = Inr r \<and> wf_deque (fst r) \<and>
        t_mapsize (fst r) = 24 \<and> int (length (ppc_map (fst r))) = 24) \<and>
   (\<exists>r. expand_at_begin ex_full 33 None = Inr r \<and> wf_deque (fst r) \<and>
        t_mapsize (fst r) = 24 \<and> int (length (ppc_map (fst r))) = 24) \<and>
   (\<exists>r. grow_map_at_end ex_full 2 (t_finish ex_full) None = Inr r \<and>
        t_mapsize (fst r) = 24 \<and> int (length (ppc_map (fst r))) = 24) \<and>
   (\<exists>r. grow_map_at_begin ex_full 2 (t_start ex_full) None = Inr r \<and>
        t_mapsize (fst r) = 24 \<and> int (length (ppc_map (fst r))) = 24)"
proof -
  have v: "remain_map_size ex_full = 1" "containers_for 17 = 2" "growsize_for 1 = 8"
    "t_mapsize ex_full = 16" "pc_corepos (t_finish ex_full) = 1" "pc_corepos (t_start ex_full) = 16"
    "int (length (ppc_map ex_full)) = 16" "pos_valid ex_full None"
    by (simp_all add: remain_map_size_def containers_for_def growsize_for_def ex_full_def
        pos_valid_def)
  note w = ex_full_wf ex_full_centred ex_full_blocks_known
  note c1 = C8_directory_growth[of 2 17 1 ex_full 32 None]
  note c2 = C8_directory_growth[of 2 17 1 ex_full 33 None]
  from c1 v w obtain r where r: "expand_at_end ex_full 32 None = Inr r" "wf_deque (fst r)"
    by auto
  with c1 v have a: "t_mapsize (fst r) = 24" "int (length (ppc_map (fst r))) = 24" by auto
  from c2 v w obtain q where q: "expand_at_begin ex_full 33 None = Inr q" "wf_deque (fst q)"
    by auto
  with c2 v have b: "t_mapsize (fst q) = 24" "int (length (ppc_map (fst q))) = 24" by auto
  from c1 v w have g: "\<exists>r. grow_map_at_end ex_full 2 (t_finish ex_full) None = Inr r \<and>
        t_mapsize (fst r) = 24 \<and> int (length (ppc_map (fst r))) = 24"
    "\<exists>r. grow_map_at_begin ex_full 2 (t_start ex_full) None = Inr r \<and>
        t_mapsize (fst r) = 24 \<and> int (length (ppc_map (fst r))) = 24"
    by auto
  from r a have 1: "\<exists>r. expand_at_end ex_full 32 None = Inr r \<and> wf_deque (fst r) \<and>
        t_mapsize (fst r) = 24 \<and> int (length (ppc_map (fst r))) = 24" by auto
  from q b have 2: "\<exists>r. expand_at_begin ex_full 33 None = Inr r \<and> wf_deque (fst r) \<and>
        t_mapsize (fst r) = 24 \<and> int (length (ppc_map (fst r))) = 24" by auto
  from v w have 3: "wf_deque ex_full \<and> centred ex_full \<and> blocks_known ex_full \<and>
     pos_valid ex_full None \<and> int (length (ppc_map ex_full)) = t_mapsize ex_full \<and>
     t_mapsize ex_full = 16 \<and> remain_map_size ex_full < containers_for 17 \<and>
     growsize_for (containers_for 17 - remain_map_size ex_full) = 8" by simp
  from 1 2 3 g show ?thesis by blast
qed


section \<open>Expansion when the valid run is not centred in the directory\<close>

text \<open>
  An empty \<open>int\<close> deque after \<open>deque_init\<close>, the same deque resized to 127 elements, and
  a deque of two elements after 127 more have been inserted at its begin.
\<close>

definition ex_empty :: "int deque" where
  "ex_empty = projr (deque_init_n (create_deque ''int'' 1 TYPE_C_BUILTIN 0 (<)) 0)"

definition ex_resized :: "int deque" where
  "ex_resized = projr (deque_resize ex_empty 127)"

definition ex_two :: "int deque" where
  "ex_two = projr (deque_init_n (create_deque ''int'' 1 TYPE_C_BUILTIN 0 (<)) 2)"

definition ex_front :: "int deque" where
  "ex_front = fst (projr (deque_insert_n_varg ex_two (deque_begin ex_two) 127 7))"

text \<open>
  What is observed on such a state: its shape, and the result of an insertion of one
  element at its end (respectively of 18 elements at its begin).
\<close>

definition overflows_at_end :: "int deque \<Rightarrow> bool" where
  "overflows_at_end d \<longleftrightarrow>
     wf_deque d \<and> deque_size d = Inr 127 \<and>
     t_mapsize d = 16 \<and> ppc_mappos (t_start d) = 7 \<and>
     ppc_mappos (t_finish d) = 15 \<and> pc_corepos (t_finish d) = 15 \<and>
     isl (deque_insert_n_varg d (deque_end d) 1 5) \<and>
     projl (deque_insert_n_varg d (deque_end d) 1 5) = MapOutOfBounds \<and>
     isl (deque_push_back d 5) \<and>
     projl (deque_push_back d 5) = MapOutOfBounds"

definition overflows_at_begin :: "int deque \<Rightarrow> bool" where
  "overflows_at_begin d \<longleftrightarrow>
     wf_deque d \<and> deque_size d = Inr 129 \<and>
     iterator_distance d (deque_begin d) (deque_begin d) = Inr 0 \<and>
     t_mapsize d = 16 \<and> ppc_mappos (t_start d) = 0 \<and>
     pc_corepos (t_start d) = 1 \<and> ppc_mappos (t_finish d) = 8 \<and>
     isl (deque_insert_n_varg d (deque_begin d) 18 5) \<and>
     projl (deque_insert_n_varg d (deque_begin d) 18 5) = MapOutOfBounds"

lemma ex_resized_overflows: "overflows_at_end ex_resized"
  by code_simp

lemma ex_front_overflows: "overflows_at_begin ex_front"
  by code_simp

lemma ex_reached:
  "\<not> isl (deque_init_n (create_deque ''int'' 1 TYPE_C_BUILTIN (0::int) (<)) 0)"
  "\<not> isl (deque_resize ex_empty 127)"
  "\<not> isl (deque_init_n (create_deque ''int'' 1 TYPE_C_BUILTIN (0::int) (<)) 2)"
  "\<not> isl (deque_insert_n_varg ex_two (deque_begin ex_two) 127 7)"
  by code_simp+


text \<open>
  Claim C7 at a deque on which the insertion does not complete.  After \<open>deque_init\<close> and
  \<open>deque_resize\<close> to 127 elements the 16 directory slots hold the valid run in slots
  7 to 15 and the last block has one free slot.  An insertion of one element at the end
  needs one more block; \<open>expand_at_end\<close> finds 7 free directory slots, takes the start
  of the run to be slot \<open>(16 - 9) div 2 = 3\<close> and the start after re-centring to be slot
  \<open>(16 - 10) div 2 = 3\<close>, moves nothing, and stores the new block behind the last
  directory slot.  \<open>deque_push_back\<close> fails in the same way.
\<close>

theorem C7_insert_at_end_overflows_directory:
  "\<not> isl (deque_init_n (create_deque ''int'' 1 TYPE_C_BUILTIN (0::int) (<)) 0) \<and>
   \<not> isl (deque_resize ex_empty 127) \<and>
   wf_deque ex_resized \<and> deque_size ex_resized = Inr 127 \<and>
   t_mapsize ex_resized = 16 \<and> ppc_mappos (t_start ex_resized) = 7 \<and>
   ppc_mappos (t_finish ex_resized) = 15 \<and> pc_corepos (t_finish ex_resized) = 15 \<and>
   isl (deque_insert_n_varg ex_resized (deque_end ex_resized) 1 5) \<and>
   projl (deque_insert_n_varg ex_resized (deque_end ex_resized) 1 5) = MapOutOfBounds \<and>
   isl (deque_push_back ex_resized 5) \<and>
   projl (deque_push_back ex_resized 5) = MapOutOfBounds"
  using ex_resized_overflows ex_reached(1,2) unfolding overflows_at_end_def by simp

text \<open>
  Claim C1 at a deque on which the insertion does not complete.  After \<open>deque_init_n\<close>
  with two elements and an insertion of 127 elements at the begin, the valid run is
  in directory slots 0 to 8 and the first block has one free slot.  An insertion of 18
  elements at the begin (distance 0 from the begin, less than half of the size 129)
  needs two more blocks; \<open>expand_at_begin\<close> finds 7 free directory slots, takes the
  start of the run to be slot \<open>(16 - 9) div 2 = 3\<close>, moves the run up by one slot only,
  and stores the second new block before the first directory slot.
\<close>

theorem C1_insert_at_begin_overflows_directory:
  "\<not> isl (deque_init_n (create_deque ''int'' 1 TYPE_C_BUILTIN (0::int) (<)) 2) \<and>
   \<not> isl (deque_insert_n_varg ex_two (deque_begin ex_two) 127 7) \<and>
   wf_deque ex_front \<and> deque_size ex_front = Inr 129 \<and>
   iterator_distance ex_front (deque_begin ex_front) (deque_begin ex_front) = Inr 0 \<and>
   t_mapsize ex_front = 16 \<and> ppc_mappos (t_start ex_front) = 0 \<and>
   pc_corepos (t_start ex_front) = 1 \<and> ppc_mappos (t_finish ex_front) = 8 \<and>
   isl (deque_insert_n_varg ex_front (deque_begin ex_front) 18 5) \<and>
   projl (deque_insert_n_varg ex_front (deque_begin ex_front) 18 5) = MapOutOfBounds"
  using ex_front_overflows ex_reached(3,4) unfolding overflows_at_begin_def by simp


end
